(* ===== verification/Prelude.thy ===== *)
theory Prelude
  imports Main
begin

text \<open>
  Shared vocabulary of the tic-tac-toe development: the extended integers the
  search code uses as alpha-beta bounds (Python's \<open>float('inf')\<close>), a combinator
  for Python's \<open>for \<dots>: \<dots> if cond: break\<close> loop, and the generic lemmas about
  loops over lists that the search proofs share.
\<close>

named_theorems board_simps "evaluation rules of the board operations"
named_theorems xint_simps "order and lattice rules of the extended integers"

section \<open>Extended integers: Python ints with \<open>-inf\<close> and \<open>inf\<close>\<close>

text \<open>
  The alpha-beta searches start from \<open>alpha = -float('inf')\<close> and
  \<open>beta = float('inf')\<close> and then mix these floats with the integer scores
  (\<open>alpha = max(alpha, eval)\<close>). The scores are integers, so the values the
  bounds can take are the integers and the two infinities.
\<close>

datatype xint = NegInf | Fin int | PosInf

instantiation xint :: linorder
begin

fun less_eq_xint :: "xint \<Rightarrow> xint \<Rightarrow> bool" where
  "less_eq_xint NegInf _ = True"
| "less_eq_xint _ PosInf = True"
| "less_eq_xint (Fin a) (Fin b) = (a \<le> b)"
| "less_eq_xint _ _ = False"

definition less_xint :: "xint \<Rightarrow> xint \<Rightarrow> bool" where
  "less_xint x y = (x \<le> y \<and> \<not> y \<le> x)"

instance
proof
  fix x y z :: xint
  show "x < y \<longleftrightarrow> x \<le> y \<and> \<not> y \<le> x" by (simp add: less_xint_def)
  show "x \<le> x" by (cases x) auto
  show "x \<le> y \<Longrightarrow> y \<le> z \<Longrightarrow> x \<le> z" by (cases x; cases y; cases z) auto
  show "x \<le> y \<Longrightarrow> y \<le> x \<Longrightarrow> x = y" by (cases x; cases y) auto
  show "x \<le> y \<or> y \<le> x" by (cases x; cases y) auto
qed

lemma Max_insert_max: "finite A \<Longrightarrow> Max (insert (max a b) A) = max b (Max (insert a A))"
  by (cases "A = {}") (simp_all add: Max_insert max.commute max.left_commute)

lemma Min_insert_min: "finite A \<Longrightarrow> Min (insert (min a b) A) = min b (Min (insert a A))"
  by (cases "A = {}") (simp_all add: Min_insert min.commute min.left_commute)

lemma Max_insert2: "finite A \<Longrightarrow> Max (insert m (insert y A)) = max y (Max (insert m A))"
  by (metis Max_insert finite_insert insert_commute insert_not_empty)

lemma Min_insert2: "finite A \<Longrightarrow> Min (insert m (insert y A)) = min y (Min (insert m A))"
  by (metis Min_insert finite_insert insert_commute insert_not_empty)

end

text \<open>\<open>x + d\<close> for a Python float \<open>x\<close> that may be infinite and an integer \<open>d\<close>.\<close>

fun xplus :: "xint \<Rightarrow> int \<Rightarrow> xint" where
  "xplus NegInf d = NegInf"
| "xplus (Fin a) d = Fin (a + d)"
| "xplus PosInf d = PosInf"

section \<open>Python's \<open>for\<close> loop with \<open>break\<close>\<close>

text \<open>
  \<open>for_break f s xs\<close> runs the body \<open>f\<close> over the elements of \<open>xs\<close> in order,
  threading the loop state \<open>s\<close>. The body returns the new state and whether the
  loop breaks right after this iteration; a break returns the state of that
  iteration and skips the remaining elements.
\<close>

fun for_break :: "('s \<Rightarrow> 'a \<Rightarrow> 's \<times> bool) \<Rightarrow> 's \<Rightarrow> 'a list \<Rightarrow> 's" where
  "for_break f s [] = s"
| "for_break f s (x # xs) = (case f s x of (s', stop) \<Rightarrow> if stop then s' else for_break f s' xs)"

section \<open>Loops that keep the first best element\<close>

text \<open>
  The searches scan the open squares and keep the first one whose score beats the
  best so far (\<open>if eval > max_eval: max_eval = eval; best_move = (row, col)\<close>).
  \<open>argmax_step\<close> and \<open>argmin_step\<close> are one such iteration; the lemmas below give
  the value and the element a whole loop returns: the extremum, and the first
  element of the list that attains it.
\<close>

definition argmax_step :: "('a \<Rightarrow> 'b::linorder) \<Rightarrow> 'a \<Rightarrow> 'b \<times> 'a option \<Rightarrow> 'b \<times> 'a option" where
  "argmax_step f x s = (if fst s < f x then (f x, Some x) else s)"

definition argmin_step :: "('a \<Rightarrow> 'b::linorder) \<Rightarrow> 'a \<Rightarrow> 'b \<times> 'a option \<Rightarrow> 'b \<times> 'a option" where
  "argmin_step f x s = (if f x < fst s then (f x, Some x) else s)"

section \<open>Lemmas on the extended integers\<close>

lemma Fin_le_Fin [simp, xint_simps]: "Fin a \<le> Fin b \<longleftrightarrow> a \<le> b"
  by simp

lemma Fin_less_Fin [simp, xint_simps]: "Fin a < Fin b \<longleftrightarrow> a < b"
  by (auto simp: less_xint_def)

lemma NegInf_less_Fin [simp, xint_simps]: "NegInf < Fin a" and Fin_less_PosInf [simp, xint_simps]: "Fin a < PosInf"
  by (auto simp: less_xint_def)

lemma NegInf_less_PosInf [simp, xint_simps]: "NegInf < PosInf"
  by (simp add: less_xint_def)

lemma le_PosInf [simp, xint_simps]: "x \<le> PosInf" and NegInf_le [simp, xint_simps]: "NegInf \<le> x"
  by (cases x; simp)+

lemma PosInf_le_iff [simp, xint_simps]: "PosInf \<le> x \<longleftrightarrow> x = PosInf"
  and le_NegInf_iff [simp, xint_simps]: "x \<le> NegInf \<longleftrightarrow> x = NegInf"
  by (cases x; simp)+

lemma not_Fin_le_NegInf [simp, xint_simps]: "\<not> Fin a \<le> NegInf"
  and not_PosInf_le_Fin [simp, xint_simps]: "\<not> PosInf \<le> Fin a"
  by auto

lemma max_Fin [simp, xint_simps]: "max (Fin a) (Fin b) = Fin (max a b)"
  by (simp add: max_def)

lemma min_Fin [simp, xint_simps]: "min (Fin a) (Fin b) = Fin (min a b)"
  by (simp add: min_def)

lemma max_NegInf [simp, xint_simps]: "max NegInf x = x" "max x NegInf = x"
  by (cases x; simp add: max_def)+

lemma min_PosInf [simp, xint_simps]: "min PosInf x = x" "min x PosInf = x"
  by (cases x; simp add: min_def)+

section \<open>Lemmas on loops\<close>

text \<open>
  The congruence rule tells the function package that the body is applied only to
  elements of the list, so that a search may recurse through the loop on the
  children of a position (as \<open>fold_cong\<close> does for \<open>fold\<close>).
\<close>

lemma for_break_cong [fundef_cong]:
  assumes "s = t" and "xs = ys" and "\<And>u y. y \<in> set ys \<Longrightarrow> f u y = g u y"
  shows "for_break f s xs = for_break g t ys"
  using assms by (induction ys arbitrary: s t xs) (auto split: prod.splits)

lemma for_break_append_nobreak:
  assumes "\<And>s x. x \<in> set xs \<Longrightarrow> \<not> snd (f s x)"
  shows "for_break f s (xs @ ys) = for_break f (fold (\<lambda>x s. fst (f s x)) xs s) ys"
  using assms
proof (induction xs arbitrary: s)
  case (Cons x xs)
  then have "\<not> snd (f s x)" by simp
  then obtain s' where "f s x = (s', False)" by (cases "f s x") auto
  with Cons show ?case by simp
qed simp

text \<open>A loop whose body never breaks is a \<open>fold\<close>.\<close>

lemma for_break_no_break:
  assumes "\<And>s x. x \<in> set xs \<Longrightarrow> \<not> snd (f s x)"
  shows "for_break f s xs = fold (\<lambda>x s. fst (f s x)) xs s"
  using for_break_append_nobreak [of xs f s "[]"] assms by simp

text \<open>
  A map \<open>g\<close> of the loop state that commutes with every iteration commutes with the
  whole loop; the searches use it to shift their node counter.
\<close>

lemma fold_commute_state:
  assumes "\<And>x s. x \<in> set xs \<Longrightarrow> f x (g s) = g (f x s)"
  shows "fold f xs (g s) = g (fold f xs s)"
  using assms by (induction xs arbitrary: s) auto

lemma fold_counter_shift:
  assumes "\<And>x s n. x \<in> set xs \<Longrightarrow> f x (s, n + k) = apsnd (\<lambda>m. m + k) (f x (s, n))"
  shows "fold f xs (s, n + k) = apsnd (\<lambda>m. m + k) (fold f xs (s, n))"
  using assms
proof (induction xs arbitrary: s n)
  case (Cons x xs)
  obtain s' n' where eq: "f x (s, n) = (s', n')" by (cases "f x (s, n)")
  with Cons.prems have "f x (s, n + k) = (s', n' + k)" by simp
  with eq Cons show ?case by simp
qed simp

lemma for_break_commute_state:
  assumes "\<And>x s. x \<in> set xs \<Longrightarrow> f (g s) x = apfst g (f s x)"
  shows "for_break f (g s) xs = g (for_break f s xs)"
  using assms by (induction xs arbitrary: s) (auto split: prod.splits)

text \<open>The searches' loops carry \<open>((best, counter), bound)\<close>: starting the counter
  \<open>k\<close> higher ends it \<open>k\<close> higher, when every iteration does so.\<close>

lemma for_break_counter_shift:
  assumes "\<And>x s n a. x \<in> set xs \<Longrightarrow>
    f ((s, n + k), a) x = apfst (map_prod (apsnd (\<lambda>m. m + k)) id) (f ((s, n), a) x)"
  shows "for_break f ((s, n + k), a) xs = map_prod (apsnd (\<lambda>m. m + k)) id (for_break f ((s, n), a) xs)"
proof -
  have "for_break f (map_prod (apsnd (\<lambda>m. m + k)) id ((s, n), a)) xs =
        map_prod (apsnd (\<lambda>m. m + k)) id (for_break f ((s, n), a) xs)"
  proof (rule for_break_commute_state)
    fix x t
    assume "x \<in> set xs"
    then show "f (map_prod (apsnd (\<lambda>m. m + k)) id t) x = apfst (map_prod (apsnd (\<lambda>m. m + k)) id) (f t x)"
      using assms by (cases t) auto
  qed
  then show ?thesis by simp
qed

text \<open>A loop that may break, whose iterations count no more than those of a loop that
  never breaks, counts no more in total.\<close>

lemma fold_counter_sum:
  fixes cnt :: "'t \<Rightarrow> nat"
  assumes "\<And>t x. x \<in> set xs \<Longrightarrow> cnt (g x t) = cnt t + d x"
  shows "cnt (fold g xs t) = cnt t + sum_list (map d xs)"
  using assms by (induction xs arbitrary: t) (simp_all add: algebra_simps)

lemma for_break_counter_le:
  fixes cnt :: "'s \<Rightarrow> nat" and cnt' :: "'t \<Rightarrow> nat"
  assumes "\<And>s x. x \<in> set xs \<Longrightarrow> cnt (fst (f s x)) \<le> cnt s + d x"
    and "\<And>t x. x \<in> set xs \<Longrightarrow> cnt' (g x t) = cnt' t + d x"
    and "cnt s \<le> cnt' t"
  shows "cnt (for_break f s xs) \<le> cnt' (fold g xs t)"
  using assms
proof (induction xs arbitrary: s t)
  case (Cons x xs)
  obtain s' stop where fs: "f s x = (s', stop)" by fastforce
  have "cnt s' \<le> cnt s + d x" using Cons.prems(1)[of x s] fs by simp
  moreover have "cnt' (g x t) = cnt' t + d x" using Cons.prems(2)[of x t] by simp
  ultimately have le: "cnt s' \<le> cnt' (g x t)"
    using Cons.prems(3) by linarith
  show ?case
  proof (cases stop)
    case True
    have "cnt' (g x t) \<le> cnt' (fold g xs (g x t))"
      using fold_counter_sum[of xs cnt' g d "g x t"] Cons.prems(2) by simp
    then show ?thesis using fs True le by simp
  next
    case False
    then show ?thesis using fs Cons.IH[of s' "g x t"] Cons.prems(1,2) le by simp
  qed
qed simp

text \<open>A property of the loop state kept by every iteration holds of the result; it
  suffices that the first iteration establishes it.\<close>

lemma for_break_invariant:
  assumes "I s" and "\<And>s x. x \<in> set xs \<Longrightarrow> I s \<Longrightarrow> I (fst (f s x))"
  shows "I (for_break f s xs)"
  using assms
proof (induction xs arbitrary: s)
  case (Cons y ys)
  obtain s1 stop where fs: "f s y = (s1, stop)" by fastforce
  have "I s1" using Cons.prems(2)[of y s] Cons.prems(1) fs by simp
  then show ?case using fs Cons.IH[of s1] Cons.prems(2) by simp
qed simp

lemma for_break_first_invariant:
  assumes "I (fst (f s x))" and "\<And>s y. y \<in> set xs \<Longrightarrow> I s \<Longrightarrow> I (fst (f s y))"
  shows "I (for_break f s (x # xs))"
proof (cases "f s x")
  case (Pair s1 stop)
  then show ?thesis
    using assms for_break_invariant[of I s1 xs f] by auto
qed

section \<open>Lists\<close>

lemma count_list_mark:
  assumes "i < length b" and "d \<noteq> b ! i"
  shows "count_list (b[i := c]) d = (if d = c then Suc (count_list b d) else count_list b d)"
  using assms by (induction b arbitrary: i) (auto split: nat.splits)

lemma list_all_mark: "list_all P b \<Longrightarrow> P c \<Longrightarrow> list_all P (b[i := c])"
  by (auto simp: list_all_iff dest: set_update_subset_insert[THEN subsetD])

lemma find_Some_mem: "find P xs = Some x \<Longrightarrow> x \<in> set xs \<and> P x"
  by (induction xs) (auto split: if_splits)

lemma find_Some_before:
  "find P xs = Some x \<Longrightarrow> \<forall>y \<in> set (takeWhile (\<lambda>y. y \<noteq> x) xs). \<not> P y"
proof (induction xs)
  case (Cons a xs)
  show ?case
  proof (cases "P a")
    case True
    with Cons.prems show ?thesis by simp
  next
    case False
    with Cons.prems have "find P xs = Some x" by simp
    moreover from this have "a \<noteq> x" using False find_Some_mem by fastforce
    ultimately show ?thesis using Cons.IH False by simp
  qed
qed simp

lemma find_exists: "x \<in> set xs \<Longrightarrow> P x \<Longrightarrow> \<exists>y. find P xs = Some y"
  by (metis find_None_iff not_None_eq)

lemma length_filter_strict_mono:
  assumes "\<And>x. P x \<Longrightarrow> Q x" and "y \<in> set xs" and "Q y" and "\<not> P y"
  shows "length (filter P xs) < length (filter Q xs)"
proof -
  have "filter P xs = filter P (filter Q xs)"
    using assms(1) by (simp add: filter_filter conj_commute) (metis (mono_tags))
  also have "length \<dots> < length (filter Q xs)"
    using assms(2-4) by (intro length_filter_less) auto
  finally show ?thesis .
qed

text \<open>A loop that threads a counter beside its state: the state part alone is a
  loop too, when no iteration reads the counter.\<close>

lemma fold_fst_state:
  assumes "\<And>x s n. x \<in> set xs \<Longrightarrow> fst (f x (s, n)) = g x s"
  shows "fst (fold f xs (s, n)) = fold g xs s"
  using assms
proof (induction xs arbitrary: s n)
  case (Cons x xs)
  obtain s' n' where "f x (s, n) = (s', n')" by (cases "f x (s, n)")
  moreover from Cons.prems have "s' = g x s"
    using \<open>f x (s, n) = (s', n')\<close> by (metis fst_conv list.set_intros(1))
  ultimately show ?case using Cons by simp
qed simp

lemma Max_insert_absorb:
  assumes "finite A" and "y \<in> A" and "a < y"
  shows "Max (insert a A) = Max A \<and> a < Max A"
proof -
  from assms(2) have "A \<noteq> {}" by auto
  have "a < Max A" using assms(3) Max_ge[OF assms(1,2)] by (rule less_le_trans)
  with assms(1) \<open>A \<noteq> {}\<close> show ?thesis by (simp add: Max_insert max_absorb2 less_imp_le)
qed

lemma fold_argmax_value:
  "fst (fold (argmax_step f) xs (m, b)) = Max (insert m (f ` set xs))"
proof (induction xs arbitrary: m b)
  case (Cons x xs)
  have "argmax_step f x (m, b) = (max m (f x), snd (argmax_step f x (m, b)))"
    by (auto simp: argmax_step_def max_def)
  then have "fst (fold (argmax_step f) (x # xs) (m, b)) = Max (insert (max m (f x)) (f ` set xs))"
    using Cons.IH by (metis fold_simps(2))
  then show ?case
    by (cases "xs = []") (simp_all add: Max_insert max.assoc)
qed simp

lemma fold_argmax_move:
  "snd (fold (argmax_step f) xs (m, b)) =
     (if \<forall>x \<in> set xs. f x \<le> m then b else find (\<lambda>x. f x = Max (f ` set xs)) xs)"
proof (induction xs arbitrary: m b)
  case (Cons x xs)
  show ?case
  proof (cases "m < f x")
    case True
    then have "snd (fold (argmax_step f) (x # xs) (m, b)) = snd (fold (argmax_step f) xs (f x, Some x))"
      by (simp add: argmax_step_def)
    also have "\<dots> = find (\<lambda>y. f y = Max (f ` set (x # xs))) (x # xs)"
    proof (cases "\<forall>y \<in> set xs. f y \<le> f x")
      case True
      then have "Max (f ` set (x # xs)) = f x" by (intro Max_eqI) auto
      with True Cons.IH show ?thesis by simp
    next
      case False
      then obtain y where "y \<in> set xs" "f x < f y" by (auto simp: not_le)
      then have "Max (f ` set (x # xs)) = Max (f ` set xs) \<and> f x < Max (f ` set xs)"
        using Max_insert_absorb[of "f ` set xs" "f y" "f x"] by simp
      with False Cons.IH show ?thesis by auto
    qed
    finally show ?thesis using True by auto
  next
    case False
    then have "snd (fold (argmax_step f) (x # xs) (m, b)) = snd (fold (argmax_step f) xs (m, b))"
      by (simp add: argmax_step_def)
    also have "\<dots> = (if \<forall>y \<in> set (x # xs). f y \<le> m then b else find (\<lambda>y. f y = Max (f ` set (x # xs))) (x # xs))"
    proof (cases "\<forall>y \<in> set xs. f y \<le> m")
      case True
      with False Cons.IH show ?thesis by (simp add: not_less)
    next
      case nall: False
      then obtain y where "y \<in> set xs" "m < f y" by (auto simp: not_le)
      with False have "f x < f y" by simp
      with \<open>y \<in> set xs\<close> have "Max (f ` set (x # xs)) = Max (f ` set xs) \<and> f x < Max (f ` set xs)"
        using Max_insert_absorb[of "f ` set xs" "f y" "f x"] by simp
      with nall Cons.IH show ?thesis by auto
    qed
    finally show ?thesis .
  qed
qed simp

lemma Min_insert_absorb:
  assumes "finite A" and "y \<in> A" and "y < a"
  shows "Min (insert a A) = Min A \<and> Min A < a"
proof -
  from assms(2) have "A \<noteq> {}" by auto
  have "Min A < a" using Min_le[OF assms(1,2)] assms(3) by (rule le_less_trans)
  with assms(1) \<open>A \<noteq> {}\<close> show ?thesis by (simp add: Min_insert min_absorb2 less_imp_le)
qed

lemma fold_argmin_value:
  "fst (fold (argmin_step f) xs (m, b)) = Min (insert m (f ` set xs))"
proof (induction xs arbitrary: m b)
  case (Cons x xs)
  have "argmin_step f x (m, b) = (min m (f x), snd (argmin_step f x (m, b)))"
    by (auto simp: argmin_step_def min_def)
  then have "fst (fold (argmin_step f) (x # xs) (m, b)) = Min (insert (min m (f x)) (f ` set xs))"
    using Cons.IH by (metis fold_simps(2))
  then show ?case
    by (cases "xs = []") (simp_all add: Min_insert min.assoc)
qed simp

lemma fold_argmin_move:
  "snd (fold (argmin_step f) xs (m, b)) =
     (if \<forall>x \<in> set xs. m \<le> f x then b else find (\<lambda>x. f x = Min (f ` set xs)) xs)"
proof (induction xs arbitrary: m b)
  case (Cons x xs)
  show ?case
  proof (cases "f x < m")
    case True
    then have "snd (fold (argmin_step f) (x # xs) (m, b)) = snd (fold (argmin_step f) xs (f x, Some x))"
      by (simp add: argmin_step_def)
    also have "\<dots> = find (\<lambda>y. f y = Min (f ` set (x # xs))) (x # xs)"
    proof (cases "\<forall>y \<in> set xs. f x \<le> f y")
      case True
      then have "Min (f ` set (x # xs)) = f x" by (intro Min_eqI) auto
      with True Cons.IH show ?thesis by simp
    next
      case False
      then obtain y where "y \<in> set xs" "f y < f x" by (auto simp: not_le)
      then have "Min (f ` set (x # xs)) = Min (f ` set xs) \<and> Min (f ` set xs) < f x"
        using Min_insert_absorb[of "f ` set xs" "f y" "f x"] by simp
      with False Cons.IH show ?thesis by auto
    qed
    finally show ?thesis using True by auto
  next
    case False
    then have "snd (fold (argmin_step f) (x # xs) (m, b)) = snd (fold (argmin_step f) xs (m, b))"
      by (simp add: argmin_step_def)
    also have "\<dots> = (if \<forall>y \<in> set (x # xs). m \<le> f y then b else find (\<lambda>y. f y = Min (f ` set (x # xs))) (x # xs))"
    proof (cases "\<forall>y \<in> set xs. m \<le> f y")
      case True
      with False Cons.IH show ?thesis by (simp add: not_less)
    next
      case nall: False
      then obtain y where "y \<in> set xs" "f y < m" by (auto simp: not_le)
      with False have "f y < f x" by simp
      with \<open>y \<in> set xs\<close> have "Min (f ` set (x # xs)) = Min (f ` set xs) \<and> Min (f ` set xs) < f x"
        using Min_insert_absorb[of "f ` set xs" "f y" "f x"] by simp
      with nall Cons.IH show ?thesis by auto
    qed
    finally show ?thesis .
  qed
qed simp

text \<open>An initial best score below (above) every score is never returned.\<close>

lemma Max_insert_below:
  assumes "finite A" and "A \<noteq> {}" and "\<forall>x \<in> A. m \<le> x"
  shows "Max (insert m A) = Max A"
  using assms Max_in[OF assms(1,2)] by (simp add: Max_insert max_absorb2)

lemma Min_insert_above:
  assumes "finite A" and "A \<noteq> {}" and "\<forall>x \<in> A. x \<le> m"
  shows "Min (insert m A) = Min A"
  using assms Min_in[OF assms(1,2)] by (simp add: Min_insert min_absorb2)

lemma length_filter_mark_less:
  assumes "i < length b" and "b ! i = e" and "c \<noteq> e"
  shows "length (filter (\<lambda>j. b[i := c] ! j = e) [0..<length b]) < length (filter (\<lambda>j. b ! j = e) [0..<length b])"
  by (rule length_filter_strict_mono[where y = i]) (use assms in \<open>auto simp: nth_list_update split: if_splits\<close>)

text \<open>Python's nested loops appending to a list,
  \<open>for r in rs: for c in cs: if P(r, c): acc.append((r, c))\<close>, are a filter of
  the row-major list of pairs.\<close>

lemma fold_append_filter:
  "fold (\<lambda>x acc. if P x then acc @ [f x] else acc) xs acc = acc @ map f (filter P xs)"
  by (induction xs arbitrary: acc) simp_all

lemma fold_grid_filter:
  "fold (\<lambda>r acc. fold (\<lambda>c acc. if P r c then acc @ [(r, c)] else acc) cs acc) rs acc
   = acc @ filter (\<lambda>(r, c). P r c) [(r, c). r \<leftarrow> rs, c \<leftarrow> cs]"
  by (induction rs arbitrary: acc) (simp_all add: fold_append_filter[where f = "Pair _"] filter_map comp_def)

section \<open>Fail-soft loops\<close>

text \<open>
  Fishburn's fail-soft bound for one loop of an alpha-beta search written as a
  \<open>for ... break\<close> loop whose state carries the best value so far, a board that
  every iteration gives back unchanged, a counter and the moving bound: if each
  child's result \<open>E\<close> is bounded by its true value \<open>v\<close> as
  \<open>min v beta \<le> E \<le> max v alpha\<close> in every window it is called with, so is the
  loop's result by the best of the true values.
\<close>

lemma mono_Fin: "mono Fin"
  by (rule monoI) simp

lemma fs_max_loop:
  fixes m al be :: "'v::linorder"
  assumes body: "\<And>m n al x. x \<in> set xs \<Longrightarrow> f (Some (((m, brd), n), al)) x =
       (Some (((max m (E al n x), brd), N al n x), max al (max m (E al n x))), be \<le> max al (max m (E al n x)))"
    and child: "\<And>x al n. x \<in> set xs \<Longrightarrow> al < be \<Longrightarrow> min (v x) be \<le> E al n x \<and> E al n x \<le> max (v x) al"
    and "al < be" and "m \<le> al"
  shows "\<exists>r n' al'. for_break f (Some (((m, brd), n), al)) xs = Some (((r, brd), n'), al') \<and>
           min (Max (insert m (v ` set xs))) be \<le> r \<and> r \<le> max (Max (insert m (v ` set xs))) al"
  using assms
proof (induction xs arbitrary: m n al)
  case Nil
  then show ?case by simp
next
  case (Cons x xs)
  define e where "e = E al n x"
  define M where "M = Max (insert m (v ` set xs))"
  have step: "f (Some (((m, brd), n), al)) x = (Some (((max m e, brd), N al n x), max al e), be \<le> max al e)"
  proof -
    have "max al (max m e) = max al e" using Cons.prems(4) by (simp add: max.assoc[symmetric] max.absorb1)
    then show ?thesis using Cons.prems(1)[of x m n al] unfolding e_def by simp
  qed
  have ce: "min (v x) be \<le> e" "e \<le> max (v x) al" using Cons.prems(2)[of x al n] Cons.prems(3) unfolding e_def by auto
  have V: "Max (insert m (v ` set (x # xs))) = max (v x) M"
    unfolding M_def using Max_insert2[of "v ` set xs" m "v x"] by simp
  have mM: "m \<le> M" unfolding M_def by simp
  have eV: "e \<le> max (max (v x) M) al" using ce(2) by (auto simp: le_max_iff_disj)
  show ?case
  proof (cases "be \<le> max al e")
    case True
    then have "be \<le> e" using Cons.prems(3) by (auto simp: le_max_iff_disj)
    have lo: "min (max (v x) M) be \<le> max m e" using \<open>be \<le> e\<close> by (auto simp: min_le_iff_disj le_max_iff_disj)
    have hi: "max m e \<le> max (max (v x) M) al" using eV mM by (auto simp: le_max_iff_disj)
    show ?thesis using step True lo hi V by auto
  next
    case False
    then have lt: "max al e < be" by (simp add: not_le)
    have b1: "\<And>m n al y. y \<in> set xs \<Longrightarrow> f (Some (((m, brd), n), al)) y =
       (Some (((max m (E al n y), brd), N al n y), max al (max m (E al n y))), be \<le> max al (max m (E al n y)))"
      using Cons.prems(1) by simp
    have c1: "\<And>y al n. y \<in> set xs \<Longrightarrow> al < be \<Longrightarrow> min (v y) be \<le> E al n y \<and> E al n y \<le> max (v y) al"
      using Cons.prems(2) by simp
    have le: "max m e \<le> max al e" using Cons.prems(4) by (rule max.mono) simp
    obtain r n' al' where r: "for_break f (Some (((max m e, brd), N al n x), max al e)) xs = Some (((r, brd), n'), al')"
        and b: "min (Max (insert (max m e) (v ` set xs))) be \<le> r" "r \<le> max (Max (insert (max m e) (v ` set xs))) (max al e)"
      using Cons.IH[OF b1 c1 lt le] by blast
    have M': "Max (insert (max m e) (v ` set xs)) = max e M" unfolding M_def by (simp add: Max_insert_max)
    have "e < be" using lt by simp
    then have "v x \<le> e" using ce(1) by (auto simp: min_def split: if_splits)
    have lo: "min (max (v x) M) be \<le> r"
      using b(1) \<open>v x \<le> e\<close> unfolding M' by (auto simp: min_le_iff_disj le_max_iff_disj intro: order_trans)
    have hi: "r \<le> max (max (v x) M) al"
      using b(2) eV unfolding M' by (auto simp: le_max_iff_disj intro: order_trans)
    show ?thesis using step False r lo hi V by simp
  qed
qed

lemma fs_min_loop:
  fixes m al be :: "'v::linorder"
  assumes body: "\<And>m n be x. x \<in> set xs \<Longrightarrow> f (Some (((m, brd), n), be)) x =
       (Some (((min m (E be n x), brd), N be n x), min be (min m (E be n x))), min be (min m (E be n x)) \<le> al)"
    and child: "\<And>x be n. x \<in> set xs \<Longrightarrow> al < be \<Longrightarrow> min (v x) be \<le> E be n x \<and> E be n x \<le> max (v x) al"
    and "al < be" and "be \<le> m"
  shows "\<exists>r n' be'. for_break f (Some (((m, brd), n), be)) xs = Some (((r, brd), n'), be') \<and>
           min (Min (insert m (v ` set xs))) be \<le> r \<and> r \<le> max (Min (insert m (v ` set xs))) al"
  using assms
proof (induction xs arbitrary: m n be)
  case Nil
  then show ?case by simp
next
  case (Cons x xs)
  define e where "e = E be n x"
  define M where "M = Min (insert m (v ` set xs))"
  have step: "f (Some (((m, brd), n), be)) x = (Some (((min m e, brd), N be n x), min be e), min be e \<le> al)"
  proof -
    have "min be (min m e) = min be e" using Cons.prems(4) by (simp add: min.assoc[symmetric] min.absorb1)
    then show ?thesis using Cons.prems(1)[of x m n be] unfolding e_def by simp
  qed
  have ce: "min (v x) be \<le> e" "e \<le> max (v x) al" using Cons.prems(2)[of x be n] Cons.prems(3) unfolding e_def by auto
  have V: "Min (insert m (v ` set (x # xs))) = min (v x) M"
    unfolding M_def using Min_insert2[of "v ` set xs" m "v x"] by simp
  have Mm: "M \<le> m" unfolding M_def by simp
  have eV: "min (min (v x) M) be \<le> e" using ce(1) by (auto simp: min_le_iff_disj)
  show ?case
  proof (cases "min be e \<le> al")
    case True
    then have "e \<le> al" using Cons.prems(3) by (auto simp: min_le_iff_disj)
    have lo: "min (min (v x) M) be \<le> min m e" using eV Mm by (auto simp: min_le_iff_disj)
    have hi: "min m e \<le> max (min (v x) M) al" using \<open>e \<le> al\<close> by (auto simp: min_le_iff_disj le_max_iff_disj)
    show ?thesis using step True lo hi V by auto
  next
    case False
    then have lt: "al < min be e" by (simp add: not_le)
    have b1: "\<And>m n be y. y \<in> set xs \<Longrightarrow> f (Some (((m, brd), n), be)) y =
       (Some (((min m (E be n y), brd), N be n y), min be (min m (E be n y))), min be (min m (E be n y)) \<le> al)"
      using Cons.prems(1) by simp
    have c1: "\<And>y be n. y \<in> set xs \<Longrightarrow> al < be \<Longrightarrow> min (v y) be \<le> E be n y \<and> E be n y \<le> max (v y) al"
      using Cons.prems(2) by simp
    have le: "min be e \<le> min m e" using Cons.prems(4) by (rule min.mono) simp
    obtain r n' be' where r: "for_break f (Some (((min m e, brd), N be n x), min be e)) xs = Some (((r, brd), n'), be')"
        and b: "min (Min (insert (min m e) (v ` set xs))) (min be e) \<le> r" "r \<le> max (Min (insert (min m e) (v ` set xs))) al"
      using Cons.IH[OF b1 c1 lt le] by blast
    have M': "Min (insert (min m e) (v ` set xs)) = min e M" unfolding M_def by (simp add: Min_insert_min)
    have "al < e" using lt by simp
    then have "e \<le> v x" using ce(2) by (auto simp: max_def split: if_splits)
    have lo: "min (min (v x) M) be \<le> r"
      using b(1) eV unfolding M' by (auto simp: min_le_iff_disj intro: order_trans)
    have hi: "r \<le> max (min (v x) M) al"
      using b(2) \<open>e \<le> v x\<close> unfolding M' by (auto simp: le_max_iff_disj min_le_iff_disj intro: order_trans)
    show ?thesis using step False r lo hi V by simp
  qed
qed

end
