(* ===== verification/Board.thy ===== *)
theory Board
  imports Prelude
begin

text \<open>
  The board of the pygame programs \<open>src/AI/tictactoe.py\<close> and
  \<open>src/AI/Alpha_beta.py\<close> (class \<open>Board\<close>, the same code in both files): a
  numpy array \<open>squares\<close> of shape \<open>(ROW, COL)\<close> holding \<open>0\<close> for an empty square
  and the number of the player (1 or 2) for a marked one, and the counter
  \<open>marked_sqrs\<close>. The array has a fixed shape, so it is modelled as a function on
  positions of which only the \<open>ROW \<times> COL\<close> grid is ever read or written; the
  values \<open>0, 1, 2\<close> are \<open>None, Some P1, Some P2\<close>. The operations are those of
  the class; \<open>final_state\<close> is modelled without its \<open>show\<close> drawing code.
\<close>

section \<open>Data\<close>

datatype player = P1 | P2

type_synonym sq = "player option"
type_synonym pos = "nat \<times> nat"

record board =
  squares :: "pos \<Rightarrow> sq"
  marked_sqrs :: nat

text \<open>\<open>ROW\<close> and \<open>COL\<close> come from the module \<open>constants\<close>, which is not part of
  the sources; the programs draw and play a 3 \<open>\<times>\<close> 3 board.\<close>

definition ROW :: nat where "ROW = 3"
definition COL :: nat where "COL = 3"

definition new_board :: board where
  "new_board = \<lparr>squares = (\<lambda>_. None), marked_sqrs = 0\<rparr>"

section \<open>Operations\<close>

text \<open>Python's chained comparison \<open>a == b == c != 0\<close>.\<close>

definition line3 :: "sq \<Rightarrow> sq \<Rightarrow> sq \<Rightarrow> bool" where
  "line3 x y z \<longleftrightarrow> x = y \<and> y = z \<and> z \<noteq> None"

definition final_state :: "board \<Rightarrow> sq" where
  "final_state b =
    (let s = squares b in
     case find (\<lambda>col. line3 (s (0, col)) (s (1, col)) (s (2, col))) [0..<COL] of
       Some col \<Rightarrow> s (0, col)
     | None \<Rightarrow>
       (case find (\<lambda>row. line3 (s (row, 0)) (s (row, 1)) (s (row, 2))) [0..<ROW] of
          Some row \<Rightarrow> s (row, 0)
        | None \<Rightarrow>
            if line3 (s (0, 0)) (s (1, 1)) (s (2, 2)) then s (1, 1)
            else if line3 (s (2, 0)) (s (1, 1)) (s (0, 2)) then s (1, 1)
            else None))"

definition mark_sqr :: "board \<Rightarrow> nat \<Rightarrow> nat \<Rightarrow> player \<Rightarrow> board" where
  "mark_sqr b row col p =
     b\<lparr>squares := (squares b)((row, col) := Some p), marked_sqrs := Suc (marked_sqrs b)\<rparr>"

definition empty_sqr :: "board \<Rightarrow> nat \<Rightarrow> nat \<Rightarrow> bool" where
  "empty_sqr b row col \<longleftrightarrow> squares b (row, col) = None"

text \<open>The positions of the \<open>R \<times> C\<close> grid in the order of the nested loops
  \<open>for row in range(R): for col in range(C)\<close>.\<close>

definition grid :: "nat \<Rightarrow> nat \<Rightarrow> pos list" where
  "grid R C = [(row, col). row \<leftarrow> [0..<R], col \<leftarrow> [0..<C]]"

text \<open>\<open>get_empty_sqrs\<close> reads the module's \<open>ROW\<close> and \<open>COL\<close>; they are its first two
  arguments here, since \<open>distance_improve.py\<close> has the same method on a 5 \<open>\<times>\<close> 5
  array.\<close>

definition get_empty_sqrs :: "nat \<Rightarrow> nat \<Rightarrow> board \<Rightarrow> pos list" where
  "get_empty_sqrs R C b = filter (\<lambda>(row, col). empty_sqr b row col) (grid R C)"

definition isfull :: "board \<Rightarrow> bool" where
  "isfull b \<longleftrightarrow> marked_sqrs b = 9"

definition isempty :: "board \<Rightarrow> bool" where
  "isempty b \<longleftrightarrow> marked_sqrs b = 0"

section \<open>Invariant\<close>

text \<open>
  The counter agrees with the array: every square of the grid is either counted by
  \<open>marked_sqrs\<close> or returned by \<open>get_empty_sqrs\<close>.
\<close>

definition wf_board :: "nat \<Rightarrow> nat \<Rightarrow> board \<Rightarrow> bool" where
  "wf_board R C b \<longleftrightarrow> marked_sqrs b + length (get_empty_sqrs R C b) = R * C"

section \<open>Specification of a won position\<close>

text \<open>The eight lines of the 3 \<open>\<times>\<close> 3 board: columns, rows, the two diagonals.\<close>

definition win_lines :: "pos list list" where
  "win_lines =
     [[(0, 0), (1, 0), (2, 0)], [(0, 1), (1, 1), (2, 1)], [(0, 2), (1, 2), (2, 2)],
      [(0, 0), (0, 1), (0, 2)], [(1, 0), (1, 1), (1, 2)], [(2, 0), (2, 1), (2, 2)],
      [(0, 0), (1, 1), (2, 2)], [(2, 0), (1, 1), (0, 2)]]"

definition won :: "board \<Rightarrow> player \<Rightarrow> bool" where
  "won b p \<longleftrightarrow> list_ex (\<lambda>l. list_all (\<lambda>x. squares b x = Some p) l) win_lines"

text \<open>A line all of whose three squares hold the same mark.\<close>

definition line_full :: "board \<Rightarrow> pos list \<Rightarrow> bool" where
  "line_full b l \<longleftrightarrow> line3 (squares b (l ! 0)) (squares b (l ! 1)) (squares b (l ! 2))"

section \<open>Concrete positions\<close>

text \<open>
  A position written row by row, as the game displays it; the counter is the number
  of marked squares, as a game that started from \<open>Board()\<close> has it. Used to state
  the concrete scenarios below and in the search theories.
\<close>

definition board_of :: "sq list list \<Rightarrow> board" where
  "board_of rows =
     \<lparr>squares = (\<lambda>(r, c). if r < length rows \<and> c < length (rows ! r) then rows ! r ! c else None),
      marked_sqrs = length (filter (\<lambda>s. s \<noteq> None) (concat rows))\<rparr>"

abbreviation cross :: sq where "cross \<equiv> Some P1"
abbreviation circle :: sq where "circle \<equiv> Some P2"
abbreviation blank :: sq where "blank \<equiv> None"

section \<open>Lemmas\<close>

lemma set_grid [simp]: "set (grid R C) = {(r, c). r < R \<and> c < C}"
  by (auto simp: grid_def)

lemma grid_Suc: "grid (Suc R) C = grid R C @ map (Pair R) [0..<C]"
  by (simp add: grid_def)

lemma distinct_grid [simp]: "distinct (grid R C)"
  by (induction R) (auto simp: grid_Suc distinct_map inj_on_def, simp add: grid_def)

lemma length_grid [simp]: "length (grid R C) = R * C"
  by (induction R) (auto simp: grid_Suc, simp add: grid_def)

lemma mem_get_empty_sqrs [board_simps]:
  "(r, c) \<in> set (get_empty_sqrs R C b) \<longleftrightarrow> r < R \<and> c < C \<and> squares b (r, c) = None"
  by (auto simp: get_empty_sqrs_def empty_sqr_def)

lemma distinct_get_empty_sqrs [simp]: "distinct (get_empty_sqrs R C b)"
  by (simp add: get_empty_sqrs_def)

lemma squares_mark_sqr [simp, board_simps]:
  "squares (mark_sqr b r c p) = (squares b)((r, c) := Some p)"
  by (simp add: mark_sqr_def)

lemma marked_sqrs_mark_sqr [simp, board_simps]:
  "marked_sqrs (mark_sqr b r c p) = Suc (marked_sqrs b)"
  by (simp add: mark_sqr_def)

text \<open>Marking a square removes exactly that square from the open ones, in place.\<close>

lemma get_empty_sqrs_mark_sqr:
  "get_empty_sqrs R C (mark_sqr b r c p) = filter (\<lambda>x. x \<noteq> (r, c)) (get_empty_sqrs R C b)"
  by (auto simp: get_empty_sqrs_def empty_sqr_def intro!: filter_cong)

lemma length_get_empty_sqrs_mark_sqr:
  assumes "(r, c) \<in> set (get_empty_sqrs R C b)"
  shows "length (get_empty_sqrs R C (mark_sqr b r c p)) = length (get_empty_sqrs R C b) - 1"
proof -
  have "filter (\<lambda>x. x \<noteq> (r, c)) (get_empty_sqrs R C b) = remove1 (r, c) (get_empty_sqrs R C b)"
    by (auto simp: distinct_remove1_removeAll removeAll_filter_not_eq intro!: filter_cong)
  with assms show ?thesis
    by (simp add: get_empty_sqrs_mark_sqr length_remove1)
qed

text \<open>Marking an open square keeps the counter in step with the array.\<close>

lemma wf_board_mark_sqr:
  assumes "wf_board R C b" and "(r, c) \<in> set (get_empty_sqrs R C b)"
  shows "wf_board R C (mark_sqr b r c p)"
proof -
  from assms(2) have "length (get_empty_sqrs R C b) \<noteq> 0" by (cases "get_empty_sqrs R C b") auto
  then have "Suc (length (get_empty_sqrs R C (mark_sqr b r c p))) = length (get_empty_sqrs R C b)"
    using length_get_empty_sqrs_mark_sqr[OF assms(2), of p] by linarith
  with assms(1) show ?thesis
    by (simp add: wf_board_def)
qed

text \<open>On a well-formed 3 \<open>\<times>\<close> 3 board, \<open>isfull\<close> (nine marks) means no open square.\<close>

lemma isfull_iff_no_empty:
  assumes "wf_board ROW COL b"
  shows "isfull b \<longleftrightarrow> get_empty_sqrs ROW COL b = []"
  using assms by (auto simp: wf_board_def isfull_def ROW_def COL_def)

text \<open>The measure of the searches: marking an open square shrinks the open squares.\<close>

lemma get_empty_sqrs_mark_sqr_less:
  assumes "(r, c) \<in> set (get_empty_sqrs R C b)"
  shows "length (get_empty_sqrs R C (mark_sqr b r c p)) < length (get_empty_sqrs R C b)"
proof -
  from assms have "get_empty_sqrs R C b \<noteq> []" by auto
  with assms show ?thesis by (simp add: length_get_empty_sqrs_mark_sqr)
qed

lemma upt3: "[0..<3] = [0, 1, (2::nat)]" by code_simp

lemma line3_mid: "line3 x y z \<Longrightarrow> y = x"
  by (simp add: line3_def)

text \<open>\<open>final_state\<close> scans the columns, the rows and the two diagonals in this order
  and reports the mark of the first full line: it is a scan of \<open>win_lines\<close>.\<close>

lemma final_state_scan:
  "final_state b = (case find (line_full b) win_lines of Some l \<Rightarrow> squares b (l ! 0) | None \<Rightarrow> None)"
  unfolding final_state_def win_lines_def ROW_def COL_def upt3 line_full_def
  by (simp add: Let_def) (blast dest: line3_mid)

lemma win_lines_shape: "l \<in> set win_lines \<Longrightarrow> set l = {l ! 0, l ! 1, l ! 2}"
  by (auto simp: win_lines_def)

lemma line_full_iff: "l \<in> set win_lines \<Longrightarrow> line_full b l \<longleftrightarrow> (\<exists>p. \<forall>x \<in> set l. squares b x = Some p)"
  using win_lines_shape[of l] by (auto simp: line_full_def line3_def)

lemma won_iff: "won b p \<longleftrightarrow> (\<exists>l \<in> set win_lines. \<forall>x \<in> set l. squares b x = Some p)"
  by (simp add: won_def list_ex_iff list_all_iff)

lemma final_state_Some_won: "final_state b = Some p \<Longrightarrow> won b p"
proof -
  assume fs: "final_state b = Some p"
  then obtain l where l: "find (line_full b) win_lines = Some l" and v: "squares b (l ! 0) = Some p"
    by (auto simp: final_state_scan split: option.splits)
  from find_Some_mem[OF l] have "l \<in> set win_lines" "line_full b l" by auto
  then obtain q where "\<forall>x \<in> set l. squares b x = Some q" using line_full_iff by blast
  moreover have "l ! 0 \<in> set l" using win_lines_shape[OF \<open>l \<in> set win_lines\<close>] by auto
  ultimately show "won b p" using v \<open>l \<in> set win_lines\<close> by (auto simp: won_iff)
qed

lemma final_state_None_iff: "final_state b = None \<longleftrightarrow> \<not> won b P1 \<and> \<not> won b P2"
proof -
  have "final_state b = None \<longleftrightarrow> find (line_full b) win_lines = None"
  proof
    assume "final_state b = None"
    show "find (line_full b) win_lines = None"
    proof (rule ccontr)
      assume "find (line_full b) win_lines \<noteq> None"
      then obtain l where l: "find (line_full b) win_lines = Some l" by auto
      from find_Some_mem[OF l] have "l \<in> set win_lines" "line_full b l" by auto
      then have "squares b (l ! 0) \<noteq> None" by (simp add: line_full_def line3_def)
      with l \<open>final_state b = None\<close> show False by (simp add: final_state_scan)
    qed
  qed (simp add: final_state_scan)
  also have "\<dots> \<longleftrightarrow> \<not> (\<exists>l \<in> set win_lines. line_full b l)"
    by (auto simp: find_None_iff)
  also have "(\<exists>l \<in> set win_lines. line_full b l) \<longleftrightarrow> won b P1 \<or> won b P2"
  proof
    assume "\<exists>l \<in> set win_lines. line_full b l"
    then obtain l where l: "l \<in> set win_lines" "line_full b l" by blast
    then obtain q where "\<forall>x \<in> set l. squares b x = Some q" using line_full_iff by blast
    with l(1) show "won b P1 \<or> won b P2" by (cases q) (auto simp: won_iff)
  next
    assume "won b P1 \<or> won b P2"
    then show "\<exists>l \<in> set win_lines. line_full b l" by (auto simp: won_iff line_full_iff)
  qed
  finally show ?thesis by simp
qed

section \<open>Properties\<close>

text \<open>
  C5. Terminal detection: \<open>final_state\<close> reports a player only if that player owns a
  whole line, reports no one exactly when neither player owns a line, and reports
  the player who owns a line whenever only that player does (on every one of the
  eight lines).
\<close>

theorem final_state_spec:
  "(final_state b = Some p \<longrightarrow> won b p)
   \<and> (final_state b = None \<longleftrightarrow> \<not> won b P1 \<and> \<not> won b P2)
   \<and> (won b p \<and> (\<forall>q. won b q \<longrightarrow> q = p) \<longrightarrow> final_state b = Some p)"
proof (intro conjI impI)
  show "won b p" if "final_state b = Some p" using that by (rule final_state_Some_won)
  show "final_state b = None \<longleftrightarrow> \<not> won b P1 \<and> \<not> won b P2" by (rule final_state_None_iff)
  assume w: "won b p \<and> (\<forall>q. won b q \<longrightarrow> q = p)"
  then have "final_state b \<noteq> None" using final_state_None_iff by (cases p) auto
  then obtain q where q: "final_state b = Some q" by auto
  with w show "final_state b = Some p" using final_state_Some_won by blast
qed

theorem final_state_spec_witness:
  "final_state (board_of [[cross, cross, cross], [blank, blank, blank], [blank, blank, blank]]) = Some P1 \<and> won (board_of [[cross, cross, cross], [blank, blank, blank], [blank, blank, blank]]) P1 \<and> final_state (board_of [[circle, blank, blank], [blank, circle, blank], [blank, blank, circle]]) = Some P2 \<and> won (board_of [[circle, blank, blank], [blank, circle, blank], [blank, blank, circle]]) P2"
proof -
  have h1: "final_state (board_of [[cross, cross, cross], [blank, blank, blank], [blank, blank, blank]]) = Some P1" and h2: "final_state (board_of [[circle, blank, blank], [blank, circle, blank], [blank, blank, circle]]) = Some P2"
    by code_simp+
  show ?thesis using h1 h2 final_state_spec[of "(board_of [[cross, cross, cross], [blank, blank, blank], [blank, blank, blank]])" P1] final_state_spec[of "(board_of [[circle, blank, blank], [blank, circle, blank], [blank, blank, circle]])" P2] by blast
qed

text \<open>
  C10. \<open>mark_sqr\<close> does not check that the square is open: marking an occupied square
  overwrites its mark and still increments \<open>marked_sqrs\<close>, so the counter no longer
  agrees with the array (and \<open>isfull\<close> can report a full board too early).
\<close>

theorem mark_sqr_occupied_breaks_count:
  assumes "wf_board R C b" and "r < R" and "c < C" and "\<not> empty_sqr b r c"
  shows "\<not> wf_board R C (mark_sqr b r c p) \<and> squares (mark_sqr b r c p) (r, c) = Some p"
proof -
  have "(r, c) \<notin> set (get_empty_sqrs R C b)"
    using assms(4) by (simp add: mem_get_empty_sqrs empty_sqr_def)
  then have "get_empty_sqrs R C (mark_sqr b r c p) = get_empty_sqrs R C b"
    by (auto simp: get_empty_sqrs_mark_sqr intro: filter_True)
  with assms(1) show ?thesis by (simp add: wf_board_def)
qed


theorem mark_sqr_occupied_breaks_count_witness:
  "wf_board ROW COL (board_of [[cross, blank, blank], [blank, blank, blank], [blank, blank, blank]]) \<and> \<not> empty_sqr (board_of [[cross, blank, blank], [blank, blank, blank], [blank, blank, blank]]) 0 0
   \<and> \<not> wf_board ROW COL (mark_sqr (board_of [[cross, blank, blank], [blank, blank, blank], [blank, blank, blank]]) 0 0 P2) \<and> squares (mark_sqr (board_of [[cross, blank, blank], [blank, blank, blank], [blank, blank, blank]]) 0 0 P2) (0, 0) = Some P2"
proof -
  have h: "wf_board ROW COL (board_of [[cross, blank, blank], [blank, blank, blank], [blank, blank, blank]])" "0 < ROW" "0 < COL" "\<not> empty_sqr (board_of [[cross, blank, blank], [blank, blank, blank], [blank, blank, blank]]) 0 0"
    by (code_simp, simp add: ROW_def, simp add: COL_def, code_simp)
  show ?thesis using h mark_sqr_occupied_breaks_count[OF h, of P2] by blast
qed

end
