(* ===== verification/Minimax.thy ===== *)
theory Minimax
  imports Board
begin

text \<open>
  The computer player of \<open>src/AI/tictactoe.py\<close> (class \<open>AI\<close>): exhaustive minimax
  over the board of theory \<open>Board\<close>, the random player of level 0, and the entry
  point \<open>eval\<close>. Player 1 (crosses) maximizes, the computer (\<open>self.player\<close>,
  always 2) minimizes; a position won by player 1 scores 1, one won by player 2
  scores -1, a full board 0. The search copies the board before each trial move
  (\<open>copy.deepcopy\<close>), so the caller's board is never changed; the model passes boards
  by value. The counter \<open>self.nodes_expanded\<close> is threaded through the search as
  explicit state: it grows by one for each trial move of the maximizer and by one
  for each node of the minimizer.
\<close>

section \<open>Data\<close>

text \<open>\<open>random.randrange(0, 0)\<close> raises \<open>ValueError\<close>.\<close>

datatype py_error = ValueError

text \<open>\<open>eval\<close> reports the string \<open>'random'\<close> at level 0 and the minimax score
  otherwise.\<close>

datatype eval_score = Random | Score int

record ai =
  level :: nat
  player :: player
  nodes_expanded :: nat
  total_nodes_expanded :: nat

definition new_ai :: ai where
  "new_ai = \<lparr>level = 1, player = P2, nodes_expanded = 0, total_nodes_expanded = 0\<rparr>"

section \<open>Operations\<close>

text \<open>
  \<open>rnd\<close> picks \<open>empty_sqrs[random.randrange(0, len(empty_sqrs))]\<close>. The random
  number is an input \<open>k\<close> of the model: \<open>k mod len\<close> ranges over exactly the
  indices \<open>randrange\<close> may return.
\<close>

definition rnd :: "board \<Rightarrow> nat \<Rightarrow> py_error + pos" where
  "rnd b k =
     (let empty_sqrs = get_empty_sqrs ROW COL b
      in if empty_sqrs = [] then Inl ValueError
         else Inr (empty_sqrs ! (k mod length empty_sqrs)))"

text \<open>
  \<open>minimax p b maximizing n\<close> is \<open>self.minimax(board, maximizing)\<close> with
  \<open>self.player = p\<close> and \<open>self.nodes_expanded = n\<close> on entry; it returns
  \<open>(eval, move)\<close> and the counter on exit. Each \<open>for\<close> loop over the open squares
  is a \<open>fold\<close> whose state is \<open>((max_eval, best_move), nodes_expanded)\<close>.
\<close>

function minimax :: "player \<Rightarrow> board \<Rightarrow> bool \<Rightarrow> nat \<Rightarrow> (int \<times> pos option) \<times> nat" where
  "minimax p b maximizing n =
    (let outcome = final_state b in
     if outcome = Some P1 then ((1, None), n)
     else if outcome = Some P2 then ((-1, None), n)
     else if isfull b then ((0, None), n)
     else if maximizing then
       fold (\<lambda>(row, col) ((max_eval, best_move), n).
               let ((eval, _), n') = minimax p (mark_sqr b row col P1) False (Suc n)
               in if eval > max_eval then ((eval, Some (row, col)), n')
                  else ((max_eval, best_move), n'))
            (get_empty_sqrs ROW COL b) ((-100, None), n)
     else
       fold (\<lambda>(row, col) ((min_eval, best_move), n).
               let ((eval, _), n') = minimax p (mark_sqr b row col p) True n
               in if eval < min_eval then ((eval, Some (row, col)), n')
                  else ((min_eval, best_move), n'))
            (get_empty_sqrs ROW COL b) ((100, None), Suc n))"
  by pat_completeness auto
termination
  by (relation "measure (\<lambda>(p, b, m, n). length (get_empty_sqrs ROW COL b))")
     (auto simp: get_empty_sqrs_mark_sqr_less)

text \<open>\<open>total_expanded =+ self.nodes_expanded\<close> assigns (it is \<open>= +x\<close>, not
  \<open>+=\<close>): the method returns the current count and clears it.\<close>

definition reset_expanded_nodes :: "ai \<Rightarrow> nat \<times> ai" where
  "reset_expanded_nodes a = (nodes_expanded a, a\<lparr>nodes_expanded := 0\<rparr>)"

text \<open>\<open>eval(main_board)\<close>, with the random number \<open>k\<close> of level 0; it returns the
  reported score, the move, and the object with its updated counter.\<close>

definition ai_eval :: "ai \<Rightarrow> board \<Rightarrow> nat \<Rightarrow> py_error + (eval_score \<times> pos option) \<times> ai" where
  "ai_eval a main_board k =
     (if level a = 0 then
        (case rnd main_board k of
           Inl e \<Rightarrow> Inl e
         | Inr move \<Rightarrow> Inr ((Random, Some move), a))
      else
        (case minimax (player a) main_board False (nodes_expanded a) of
           ((e, move), n) \<Rightarrow> Inr ((Score e, move), a\<lparr>nodes_expanded := n\<rparr>)))"

section \<open>Specification: the score of a trial move\<close>

text \<open>The score the search gives the open square \<open>x\<close>: the value of the position
  after the side to move marks it.\<close>

definition child_value :: "player \<Rightarrow> board \<Rightarrow> bool \<Rightarrow> pos \<Rightarrow> int" where
  "child_value p b mx x =
     fst (fst (minimax p (mark_sqr b (fst x) (snd x) (if mx then P1 else p)) (\<not> mx) 0))"

section \<open>Lemmas\<close>

declare minimax.simps [simp del]

lemma minimax_terminal:
  "final_state b = Some P1 \<Longrightarrow> minimax p b mx n = ((1, None), n)"
  "final_state b = Some P2 \<Longrightarrow> minimax p b mx n = ((-1, None), n)"
  "final_state b = None \<Longrightarrow> isfull b \<Longrightarrow> minimax p b mx n = ((0, None), n)"
  by (simp_all add: minimax.simps[of p b mx n])

text \<open>The counter only accumulates: starting it \<open>k\<close> higher ends it \<open>k\<close> higher,
  with the same score and move.\<close>

lemma minimax_shift: "minimax p b mx (n + k) = apsnd (\<lambda>m. m + k) (minimax p b mx n)"
proof (induction p b mx n rule: minimax.induct)
  case (1 p b mx n)
  show ?case
  proof (cases "final_state b = Some P1 \<or> final_state b = Some P2 \<or> isfull b")
    case True
    then show ?thesis by (subst (1 2) minimax.simps) (auto simp: Let_def)
  next
    case False
    then have nt: "final_state b \<noteq> Some P1" "final_state b \<noteq> Some P2" "\<not> isfull b" by auto
    show ?thesis
    proof (cases mx)
      case True
      have IH: "\<And>r c m. (r, c) \<in> set (get_empty_sqrs ROW COL b) \<Longrightarrow>
          minimax p (mark_sqr b r c P1) False (Suc (m + k)) =
          apsnd (\<lambda>m. m + k) (minimax p (mark_sqr b r c P1) False (Suc m))"
        using "1.IH"(1)[OF refl nt True] by simp
      show ?thesis using nt True
        by (subst (1 2) minimax.simps)
           (auto simp: Let_def IH intro!: fold_counter_shift split: prod.splits)
    next
      case False
      have IH: "\<And>r c m. (r, c) \<in> set (get_empty_sqrs ROW COL b) \<Longrightarrow>
          minimax p (mark_sqr b r c p) True (m + k) =
          apsnd (\<lambda>m. m + k) (minimax p (mark_sqr b r c p) True m)"
        using "1.IH"(2)[OF refl nt False] by simp
      show ?thesis using nt False
        by (subst (1 2) minimax.simps)
           (auto simp: Let_def IH intro!: fold_counter_shift[where n = "Suc n", simplified]
                 split: prod.splits)
    qed
  qed
qed

lemma minimax_fst_indep: "fst (minimax p b mx n) = fst (minimax p b mx 0)"
  using minimax_shift[of p b mx 0 n] by simp

lemma minimax_counter: "snd (minimax p b mx n) = n + snd (minimax p b mx 0)"
  using minimax_shift[of p b mx 0 n] by simp

text \<open>At a node that is neither won nor full, the search is the loop that keeps the
  first square of best score.\<close>

lemma minimax_node:
  assumes "final_state b = None" and "\<not> isfull b"
  shows "fst (minimax p b mx n) =
    (if mx then fold (argmax_step (child_value p b True)) (get_empty_sqrs ROW COL b) (-100, None)
     else fold (argmin_step (child_value p b False)) (get_empty_sqrs ROW COL b) (100, None))"
proof -
  have cv_max: "child_value p b True (r, c) = e"
    if "minimax p (mark_sqr b r c P1) False m = ((e, mv), m')" for r c m e mv m'
    using that minimax_fst_indep[of p "mark_sqr b r c P1" False m]
    unfolding child_value_def by (metis fst_conv snd_conv)
  have cv_min: "child_value p b False (r, c) = e"
    if "minimax p (mark_sqr b r c p) True m = ((e, mv), m')" for r c m e mv m'
    using that minimax_fst_indep[of p "mark_sqr b r c p" True m]
    unfolding child_value_def by (metis fst_conv snd_conv)
  show ?thesis
    using assms
    by (subst minimax.simps)
       (auto simp: Let_def argmax_step_def argmin_step_def
             dest: cv_max cv_min intro!: fold_fst_state split: prod.splits)
qed

lemma final_state_cases:
  obtains "final_state b = Some P1" | "final_state b = Some P2" | "final_state b = None"
  by (metis option.exhaust player.exhaust)

text \<open>On a well-formed board every score is a game outcome: -1, 0 or 1. In
  particular the initial \<open>max_eval = -100\<close> and \<open>min_eval = 100\<close> are never
  returned.\<close>

lemma minimax_value_range:
  "wf_board ROW COL b \<Longrightarrow> -1 \<le> fst (fst (minimax p b mx n)) \<and> fst (fst (minimax p b mx n)) \<le> 1"
proof (induction p b mx n rule: minimax.induct)
  case (1 p b mx n)
  show ?case
  proof (cases "final_state b = None \<and> \<not> isfull b")
    case False
    then show ?thesis
      by (cases b rule: final_state_cases) (auto simp: minimax_terminal)
  next
    case True
    let ?es = "get_empty_sqrs ROW COL b"
    let ?cv = "child_value p b mx"
    have ne: "?es \<noteq> []" using True "1.prems" isfull_iff_no_empty by blast
    have cv: "-1 \<le> ?cv x \<and> ?cv x \<le> 1" if x: "x \<in> set ?es" for x
    proof (cases x)
      case (Pair r c)
      have wf: "wf_board ROW COL (mark_sqr b r c q)" for q
        using wf_board_mark_sqr "1.prems" x Pair by blast
      show ?thesis
      proof (cases mx)
        case mx: True
        have "-1 \<le> fst (fst (minimax p (mark_sqr b r c P1) False (Suc 0)))
              \<and> fst (fst (minimax p (mark_sqr b r c P1) False (Suc 0))) \<le> 1"
          by (rule "1.IH"(1)[of "final_state b" x r c 0]) (use True mx x Pair wf in auto)
        then show ?thesis
          using minimax_fst_indep[of p "mark_sqr b r c P1" False "Suc 0"] mx Pair
          by (simp add: child_value_def)
      next
        case mx: False
        have "-1 \<le> fst (fst (minimax p (mark_sqr b r c p) True 0))
              \<and> fst (fst (minimax p (mark_sqr b r c p) True 0)) \<le> 1"
          by (rule "1.IH"(2)[of "final_state b" x r c 0]) (use True mx x Pair wf in auto)
        then show ?thesis using mx Pair by (simp add: child_value_def)
      qed
    qed
    have fin: "finite (?cv ` set ?es)" and ne': "?cv ` set ?es \<noteq> {}"
      using ne by auto
    show ?thesis
    proof (cases mx)
      case mx: True
      have M: "Max (insert (-100) (?cv ` set ?es)) = Max (?cv ` set ?es)"
        using fin ne' cv by (intro Max_insert_below) force+
      obtain x where "x \<in> set ?es" "Max (?cv ` set ?es) = ?cv x"
        using Max_in[OF fin ne'] by auto
      with M cv True mx show ?thesis
        by (simp add: minimax_node fold_argmax_value)
    next
      case mx: False
      have M: "Min (insert 100 (?cv ` set ?es)) = Min (?cv ` set ?es)"
        using fin ne' cv by (intro Min_insert_above) force+
      obtain x where "x \<in> set ?es" "Min (?cv ` set ?es) = ?cv x"
        using Min_in[OF fin ne'] by auto
      with M cv True mx show ?thesis
        by (simp add: minimax_node fold_argmin_value)
    qed
  qed
qed

lemma child_value_range:
  assumes "wf_board ROW COL b" and "x \<in> set (get_empty_sqrs ROW COL b)"
  shows "-1 \<le> child_value p b mx x \<and> child_value p b mx x \<le> 1"
proof (cases x)
  case (Pair r c)
  with assms have "wf_board ROW COL (mark_sqr b r c (if mx then P1 else p))"
    using wf_board_mark_sqr by blast
  with Pair show ?thesis by (simp add: child_value_def minimax_value_range)
qed

lemma child_values_not_initial:
  assumes "wf_board ROW COL b" and "get_empty_sqrs ROW COL b \<noteq> []"
  shows "\<not> (\<forall>x \<in> set (get_empty_sqrs ROW COL b). child_value p b True x \<le> -100)"
    and "\<not> (\<forall>x \<in> set (get_empty_sqrs ROW COL b). 100 \<le> child_value p b False x)"
proof -
  obtain x where x: "x \<in> set (get_empty_sqrs ROW COL b)" using assms(2) by (cases "get_empty_sqrs ROW COL b") auto
  show "\<not> (\<forall>x \<in> set (get_empty_sqrs ROW COL b). child_value p b True x \<le> -100)"
    using child_value_range[OF assms(1) x, of p True] x by force
  show "\<not> (\<forall>x \<in> set (get_empty_sqrs ROW COL b). 100 \<le> child_value p b False x)"
    using child_value_range[OF assms(1) x, of p False] x by force
qed

text \<open>The search returns the best score over the open squares and the first open
  square, in the order of \<open>get_empty_sqrs\<close>, that attains it.\<close>

lemma minimax_best_first:
  assumes "wf_board ROW COL b" and "final_state b = None" and "\<not> isfull b"
  shows "fst (minimax p b mx n) =
    (let es = get_empty_sqrs ROW COL b;
         v = (if mx then Max else Min) (child_value p b mx ` set es)
     in (v, find (\<lambda>x. child_value p b mx x = v) es))"
proof -
  let ?es = "get_empty_sqrs ROW COL b"
  let ?cv = "child_value p b mx"
  have ne: "?es \<noteq> []" using assms isfull_iff_no_empty by blast
  have fin: "finite (?cv ` set ?es)" and ne': "?cv ` set ?es \<noteq> {}"
    using ne by auto
  have cv: "-1 \<le> ?cv x \<and> ?cv x \<le> 1" if "x \<in> set ?es" for x
    using child_value_range[OF assms(1) that] .
  show ?thesis
  proof (cases mx)
    case True
    have "-100 \<le> y" if "y \<in> ?cv ` set ?es" for y
    proof -
      from that obtain x where "x \<in> set ?es" "y = ?cv x" by blast
      with cv[of x] show ?thesis by simp
    qed
    then have M: "Max (insert (-100) (?cv ` set ?es)) = Max (?cv ` set ?es)"
      using fin ne' by (intro Max_insert_below) auto
    have "fst (minimax p b mx n) = fold (argmax_step ?cv) ?es (-100, None)"
      using True assms(2,3) by (simp add: minimax_node)
    also have "\<dots> = (Max (?cv ` set ?es), find (\<lambda>x. ?cv x = Max (?cv ` set ?es)) ?es)"
      using M True child_values_not_initial(1)[OF assms(1) ne, of p]
      by (intro prod_eqI) (simp_all only: fold_argmax_value fold_argmax_move if_False fst_conv snd_conv)
    finally show ?thesis using True by (simp add: Let_def)
  next
    case False
    have "y \<le> 100" if "y \<in> ?cv ` set ?es" for y
    proof -
      from that obtain x where "x \<in> set ?es" "y = ?cv x" by blast
      with cv[of x] show ?thesis by simp
    qed
    then have M: "Min (insert 100 (?cv ` set ?es)) = Min (?cv ` set ?es)"
      using fin ne' by (intro Min_insert_above) auto
    have "fst (minimax p b mx n) = fold (argmin_step ?cv) ?es (100, None)"
      using False assms(2,3) by (simp add: minimax_node)
    also have "\<dots> = (Min (?cv ` set ?es), find (\<lambda>x. ?cv x = Min (?cv ` set ?es)) ?es)"
      using M False child_values_not_initial(2)[OF assms(1) ne, of p]
      by (intro prod_eqI) (simp_all only: fold_argmin_value fold_argmin_move if_False fst_conv snd_conv)
    finally show ?thesis using False by (simp add: Let_def)
  qed
qed

lemma minimax_move_open:
  assumes "wf_board ROW COL b" and "final_state b = None" and "\<not> isfull b"
  shows "\<exists>x. snd (fst (minimax p b mx n)) = Some x \<and> x \<in> set (get_empty_sqrs ROW COL b)
             \<and> child_value p b mx x = fst (fst (minimax p b mx n))"
proof -
  let ?es = "get_empty_sqrs ROW COL b"
  let ?cv = "child_value p b mx"
  define v where "v = (if mx then Max else Min) (?cv ` set ?es)"
  have ne: "?es \<noteq> []" using assms isfull_iff_no_empty by blast
  have fin: "finite (?cv ` set ?es)" and ne': "?cv ` set ?es \<noteq> {}"
    using ne by auto
  have "v \<in> ?cv ` set ?es"
    using Max_in[OF fin ne'] Min_in[OF fin ne'] unfolding v_def by (cases mx) simp_all
  then obtain x0 where "x0 \<in> set ?es" and "?cv x0 = v" by blast
  then obtain x where fx: "find (\<lambda>x. ?cv x = v) ?es = Some x"
    using find_exists[of x0 ?es "\<lambda>x. ?cv x = v"] by blast
  have res: "fst (minimax p b mx n) = (v, find (\<lambda>x. ?cv x = v) ?es)"
    using minimax_best_first[OF assms, of p mx n] unfolding v_def Let_def .
  show ?thesis
    using find_Some_mem[OF fx] fx res by simp
qed

section \<open>Properties\<close>

text \<open>
  C1. Move selection of the exhaustive search: on a well-formed board where the game
  is not over, \<open>minimax\<close> returns an open square \<open>x\<close> and the score of playing it;
  that score is the best over all open squares for the side to move (the largest for
  the maximizer, the smallest for the minimizer), and every open square before \<open>x\<close>
  in row-major order scores differently, i.e. ties go to the first square found.
\<close>

theorem minimax_chooses_first_best:
  assumes "wf_board ROW COL b" and "final_state b = None" and "\<not> isfull b"
  shows "\<exists>x. snd (fst (minimax p b mx n)) = Some x \<and> x \<in> set (get_empty_sqrs ROW COL b)
     \<and> fst (fst (minimax p b mx n)) = child_value p b mx x
     \<and> (\<forall>y \<in> set (get_empty_sqrs ROW COL b).
          if mx then child_value p b mx y \<le> child_value p b mx x
          else child_value p b mx x \<le> child_value p b mx y)
     \<and> (\<forall>y \<in> set (takeWhile (\<lambda>y. y \<noteq> x) (get_empty_sqrs ROW COL b)).
          child_value p b mx y \<noteq> child_value p b mx x)"
proof -
  let ?es = "get_empty_sqrs ROW COL b"
  let ?cv = "child_value p b mx"
  define v where "v = (if mx then Max else Min) (?cv ` set ?es)"
  obtain x where x: "snd (fst (minimax p b mx n)) = Some x" "x \<in> set ?es"
      "?cv x = fst (fst (minimax p b mx n))"
    using minimax_move_open[OF assms] by blast
  have res: "fst (minimax p b mx n) = (v, find (\<lambda>x. ?cv x = v) ?es)"
    using minimax_best_first[OF assms, of p mx n] unfolding v_def Let_def .
  with x have fx: "find (\<lambda>y. ?cv y = v) ?es = Some x" and "?cv x = v" by simp_all
  have "if mx then ?cv y \<le> ?cv x else ?cv x \<le> ?cv y" if "y \<in> set ?es" for y
    using that \<open>?cv x = v\<close> unfolding v_def by (cases mx) simp_all
  with x \<open>?cv x = v\<close> find_Some_before[OF fx] show ?thesis
    by auto
qed

theorem minimax_chooses_first_best_witness:
  "wf_board ROW COL (board_of [[cross, cross, blank], [circle, circle, blank], [cross, circle, blank]])
   \<and> final_state (board_of [[cross, cross, blank], [circle, circle, blank], [cross, circle, blank]]) = None
   \<and> \<not> isfull (board_of [[cross, cross, blank], [circle, circle, blank], [cross, circle, blank]])
   \<and> (\<exists>x. snd (fst (minimax P2 (board_of [[cross, cross, blank], [circle, circle, blank], [cross, circle, blank]]) True 0)) = Some x
          \<and> x \<in> set (get_empty_sqrs ROW COL (board_of [[cross, cross, blank], [circle, circle, blank], [cross, circle, blank]])))"
proof -
  have h: "wf_board ROW COL (board_of [[cross, cross, blank], [circle, circle, blank], [cross, circle, blank]])"
    "final_state (board_of [[cross, cross, blank], [circle, circle, blank], [cross, circle, blank]]) = None"
    "\<not> isfull (board_of [[cross, cross, blank], [circle, circle, blank], [cross, circle, blank]])"
    by code_simp+
  show ?thesis using h minimax_chooses_first_best[OF h, of P2 True 0] by blast
qed

text \<open>
  C6. On a well-formed board the score the exhaustive search returns is a game
  outcome, -1, 0 or 1, from player 1's point of view.
\<close>

theorem minimax_score_is_outcome:
  assumes "wf_board ROW COL b"
  shows "fst (fst (minimax p b mx n)) \<in> {-1, 0, 1}"
  using minimax_value_range[OF assms, of p mx n] by auto

theorem minimax_score_is_outcome_witness:
  "wf_board ROW COL (board_of [[cross, blank, blank], [blank, circle, blank], [blank, blank, blank]])
   \<and> fst (fst (minimax P2 (board_of [[cross, blank, blank], [blank, circle, blank], [blank, blank, blank]]) True 0)) \<in> {-1, 0, 1}"
proof -
  have h: "wf_board ROW COL (board_of [[cross, blank, blank], [blank, circle, blank], [blank, blank, blank]])"
    by code_simp
  show ?thesis using h minimax_score_is_outcome[OF h] by blast
qed

text \<open>
  C7. \<open>eval\<close> at a level other than 0, on a well-formed board where the game is not
  over, plays an open square, the one the minimizing search scores best for the
  computer, and reports that score, which is -1, 0 or 1.
\<close>

theorem ai_eval_plays_best_open_square:
  assumes "wf_board ROW COL b" and "final_state b = None" and "\<not> isfull b" and "level a \<noteq> 0"
  shows "\<exists>v x a'. ai_eval a b k = Inr ((Score v, Some x), a')
           \<and> x \<in> set (get_empty_sqrs ROW COL b) \<and> v = child_value (player a) b False x
           \<and> -1 \<le> v \<and> v \<le> 1"
proof -
  obtain x where x: "snd (fst (minimax (player a) b False (nodes_expanded a))) = Some x"
      "x \<in> set (get_empty_sqrs ROW COL b)"
      "child_value (player a) b False x = fst (fst (minimax (player a) b False (nodes_expanded a)))"
    using minimax_move_open[OF assms(1-3)] by blast
  obtain n' where m: "minimax (player a) b False (nodes_expanded a) =
      ((child_value (player a) b False x, Some x), n')"
    using x(1,3) by (metis prod.collapse)
  have "ai_eval a b k = Inr ((Score (child_value (player a) b False x), Some x), a\<lparr>nodes_expanded := n'\<rparr>)"
    using m assms(4) by (simp add: ai_eval_def)
  moreover have "-1 \<le> child_value (player a) b False x \<and> child_value (player a) b False x \<le> 1"
    using child_value_range[OF assms(1) x(2)] .
  ultimately show ?thesis
    using x(2) by blast
qed


theorem ai_eval_plays_best_open_square_witness:
  "wf_board ROW COL (board_of [[cross, cross, circle], [circle, circle, cross], [cross, blank, blank]]) \<and> final_state (board_of [[cross, cross, circle], [circle, circle, cross], [cross, blank, blank]]) = None \<and> \<not> isfull (board_of [[cross, cross, circle], [circle, circle, cross], [cross, blank, blank]]) \<and> level new_ai \<noteq> 0
   \<and> (\<exists>v x a'. ai_eval new_ai (board_of [[cross, cross, circle], [circle, circle, cross], [cross, blank, blank]]) 0 = Inr ((Score v, Some x), a')
        \<and> x \<in> set (get_empty_sqrs ROW COL (board_of [[cross, cross, circle], [circle, circle, cross], [cross, blank, blank]])))"
proof -
  have h: "wf_board ROW COL (board_of [[cross, cross, circle], [circle, circle, cross], [cross, blank, blank]])" "final_state (board_of [[cross, cross, circle], [circle, circle, cross], [cross, blank, blank]]) = None" "\<not> isfull (board_of [[cross, cross, circle], [circle, circle, cross], [cross, blank, blank]])" "level new_ai \<noteq> 0"
    by (code_simp, code_simp, code_simp, simp add: new_ai_def)
  show ?thesis using h ai_eval_plays_best_open_square[OF h, of 0] by blast
qed

text \<open>
  C8. At level 0 \<open>eval\<close> plays a random open square and leaves the object unchanged;
  \<open>random.randrange\<close> raises \<open>ValueError\<close> exactly when no square is open.
\<close>

theorem ai_eval_random_move:
  assumes "level a = 0"
  shows "(ai_eval a b k = Inl ValueError \<longleftrightarrow> get_empty_sqrs ROW COL b = [])
       \<and> (get_empty_sqrs ROW COL b \<noteq> [] \<longrightarrow>
            (\<exists>x. ai_eval a b k = Inr ((Random, Some x), a) \<and> x \<in> set (get_empty_sqrs ROW COL b)))"
  using assms by (auto simp: ai_eval_def rnd_def Let_def)


theorem ai_eval_random_move_witness:
  "level (new_ai\<lparr>level := 0\<rparr>) = 0
   \<and> (\<exists>x. ai_eval (new_ai\<lparr>level := 0\<rparr>) (board_of [[cross, cross, circle], [circle, circle, cross], [cross, blank, blank]]) 7 = Inr ((Random, Some x), new_ai\<lparr>level := 0\<rparr>)
        \<and> x \<in> set (get_empty_sqrs ROW COL (board_of [[cross, cross, circle], [circle, circle, cross], [cross, blank, blank]])))"
proof -
  have h: "level (new_ai\<lparr>level := 0\<rparr>) = 0" by simp
  have ne: "get_empty_sqrs ROW COL (board_of [[cross, cross, circle], [circle, circle, cross], [cross, blank, blank]]) \<noteq> []" by code_simp
  show ?thesis using h ne ai_eval_random_move[OF h, of "(board_of [[cross, cross, circle], [circle, circle, cross], [cross, blank, blank]])" 7] by blast
qed

text \<open>
  C9. \<open>eval\<close> does not reset \<open>nodes_expanded\<close>: a search adds its expansions to
  whatever earlier searches of the same game left in the counter.
\<close>

theorem ai_eval_counter_accumulates:
  assumes "level a \<noteq> 0" and "ai_eval a b k = Inr (r, a')"
  shows "nodes_expanded a' = nodes_expanded a + snd (minimax (player a) b False 0)"
  using assms minimax_counter[of "player a" b False "nodes_expanded a"]
  by (auto simp: ai_eval_def split: prod.splits)


theorem ai_eval_counter_accumulates_witness:
  "level (new_ai\<lparr>nodes_expanded := 5\<rparr>) \<noteq> 0
   \<and> ai_eval (new_ai\<lparr>nodes_expanded := 5\<rparr>) (board_of [[cross, cross, circle], [circle, circle, cross], [cross, blank, blank]]) 0
       = Inr ((Score 0, Some (2, 1)), new_ai\<lparr>nodes_expanded := 8\<rparr>)
   \<and> nodes_expanded (new_ai\<lparr>nodes_expanded := 8\<rparr>) = 5 + snd (minimax P2 (board_of [[cross, cross, circle], [circle, circle, cross], [cross, blank, blank]]) False 0)"
proof -
  have h: "level (new_ai\<lparr>nodes_expanded := 5\<rparr>) \<noteq> 0" by (simp add: new_ai_def)
  have e: "ai_eval (new_ai\<lparr>nodes_expanded := 5\<rparr>) (board_of [[cross, cross, circle], [circle, circle, cross], [cross, blank, blank]]) 0
       = Inr ((Score 0, Some (2, 1)), new_ai\<lparr>nodes_expanded := 8\<rparr>)"
    by (simp add: new_ai_def) code_simp
  show ?thesis using h e ai_eval_counter_accumulates[OF h e] by (simp add: new_ai_def)
qed

end
