(* ===== verification/AlphaBeta.thy ===== *)
theory AlphaBeta
  imports Minimax
begin

text \<open>
  The computer player of \<open>src/AI/Alpha_beta.py\<close> (class \<open>AI\<close>): minimax with
  alpha-beta pruning. The board class of that file is the one of theory \<open>Board\<close>
  line for line, and \<open>rnd\<close> is the one of theory \<open>Minimax\<close>. The bounds
  \<open>alpha\<close> and \<open>beta\<close> start at \<open>-float('inf')\<close> and \<open>float('inf')\<close> and
  are compared with integer scores: they are \<open>xint\<close>. Each loop over the open
  squares is a \<open>for_break\<close> whose state is \<open>(((best_eval, best_move),
  nodes_expanded), bound)\<close>, where the bound is the local \<open>alpha\<close> of the maximizer
  and the local \<open>beta\<close> of the minimizer, updated after each child and tested for
  the cut-off.

  The search is fail-soft (it returns the best score it saw, not the bound), and
  the lemmas prove its correctness in Fishburn's form, with the technique of the
  AFP entry \<open>Alpha_Beta_Pruning\<close> transferred to the code's loops: for any window
  \<open>alpha < beta\<close>, the result is bounded by the exhaustive minimax value \<open>v\<close> as
  \<open>min v beta \<le> ab \<le> max v alpha\<close>. At the window \<open>(-inf, inf)\<close> of
  \<open>eval\<close> no cut-off happens at the root, and the search returns the same score
  and the same move as the exhaustive search of \<open>tictactoe.py\<close>; in every window
  it expands no more nodes.
\<close>

section \<open>Data and operations\<close>

text \<open>\<open>AI\<close> of \<open>Alpha_beta.py\<close>: no \<open>total_nodes_expanded\<close> here. The field
  names carry a prefix to stay apart from those of \<open>tictactoe.py\<close>'s \<open>AI\<close>.\<close>

record ab_ai =
  ab_level :: nat
  ab_player :: player
  ab_nodes_expanded :: nat

definition new_ab_ai :: ab_ai where
  "new_ab_ai = \<lparr>ab_level = 1, ab_player = P2, ab_nodes_expanded = 0\<rparr>"

text \<open>
  \<open>minimax_alpha_beta p b maximizing alpha beta n\<close> is
  \<open>self.minimax_alpha_beta(board, maximizing, alpha, beta)\<close> with
  \<open>self.player = p\<close> and \<open>self.nodes_expanded = n\<close> on entry.
\<close>

function minimax_alpha_beta ::
  "player \<Rightarrow> board \<Rightarrow> bool \<Rightarrow> xint \<Rightarrow> xint \<Rightarrow> nat \<Rightarrow> (int \<times> pos option) \<times> nat" where
  "minimax_alpha_beta p b maximizing alpha beta n =
    (let outcome = final_state b in
     if outcome = Some P1 then ((1, None), n)
     else if outcome = Some P2 then ((-1, None), n)
     else if isfull b then ((0, None), n)
     else if maximizing then
       fst (for_break
         (\<lambda>state (row, col). case state of (((max_eval, best_move), n), alpha) \<Rightarrow>
            let ((eval, _), n') = minimax_alpha_beta p (mark_sqr b row col P1) False alpha beta (Suc n);
                (max_eval, best_move) =
                  (if eval > max_eval then (eval, Some (row, col)) else (max_eval, best_move));
                alpha = max alpha (Fin eval)
            in ((((max_eval, best_move), n'), alpha), beta \<le> alpha))
         (((-100, None), n), alpha) (get_empty_sqrs ROW COL b))
     else
       fst (for_break
         (\<lambda>state (row, col). case state of (((min_eval, best_move), n), beta) \<Rightarrow>
            let ((eval, _), n') = minimax_alpha_beta p (mark_sqr b row col p) True alpha beta n;
                (min_eval, best_move) =
                  (if eval < min_eval then (eval, Some (row, col)) else (min_eval, best_move));
                beta = min beta (Fin eval)
            in ((((min_eval, best_move), n'), beta), beta \<le> alpha))
         (((100, None), Suc n), beta) (get_empty_sqrs ROW COL b)))"
  by pat_completeness auto
termination
  by (relation "measure (\<lambda>(p, b, m, a, be, n). length (get_empty_sqrs ROW COL b))")
     (auto simp: get_empty_sqrs_mark_sqr_less)

text \<open>\<open>eval(main_board)\<close> of \<open>Alpha_beta.py\<close>.\<close>

definition ab_eval :: "ab_ai \<Rightarrow> board \<Rightarrow> nat \<Rightarrow> py_error + (eval_score \<times> pos option) \<times> ab_ai" where
  "ab_eval a main_board k =
     (if ab_level a = 0 then
        (case rnd main_board k of
           Inl e \<Rightarrow> Inl e
         | Inr move \<Rightarrow> Inr ((Random, Some move), a))
      else
        (case minimax_alpha_beta (ab_player a) main_board False NegInf PosInf (ab_nodes_expanded a) of
           ((e, move), n) \<Rightarrow> Inr ((Score e, move), a\<lparr>ab_nodes_expanded := n\<rparr>)))"

section \<open>Lemmas\<close>

declare minimax_alpha_beta.simps [simp del]

lemma ab_terminal:
  "final_state b = Some P1 \<Longrightarrow> minimax_alpha_beta p b mx a be n = ((1, None), n)"
  "final_state b = Some P2 \<Longrightarrow> minimax_alpha_beta p b mx a be n = ((-1, None), n)"
  "final_state b = None \<Longrightarrow> isfull b \<Longrightarrow> minimax_alpha_beta p b mx a be n = ((0, None), n)"
  by (simp_all add: minimax_alpha_beta.simps[of p b mx a be n])

lemma ab_shift:
  "minimax_alpha_beta p b mx a be (n + k) = apsnd (\<lambda>m. m + k) (minimax_alpha_beta p b mx a be n)"
proof (induction p b mx a be n rule: minimax_alpha_beta.induct)
  case (1 p b mx a be n)
  show ?case
  proof (cases "final_state b = Some P1 \<or> final_state b = Some P2 \<or> isfull b")
    case True
    then show ?thesis by (subst (1 2) minimax_alpha_beta.simps) (auto simp: Let_def)
  next
    case False
    then have nt: "final_state b \<noteq> Some P1" "final_state b \<noteq> Some P2" "\<not> isfull b" by auto
    show ?thesis
    proof (cases mx)
      case True
      have IH: "\<And>r c a' m. (r, c) \<in> set (get_empty_sqrs ROW COL b) \<Longrightarrow>
          minimax_alpha_beta p (mark_sqr b r c P1) False a' be (Suc (m + k)) =
          apsnd (\<lambda>m. m + k) (minimax_alpha_beta p (mark_sqr b r c P1) False a' be (Suc m))"
        using "1.IH"(1)[OF refl nt True] by fastforce
      show ?thesis using nt True
        by (subst (1 2) minimax_alpha_beta.simps)
           (simp add: Let_def, subst for_break_counter_shift, auto simp: IH split: prod.splits)
    next
      case False
      have IH: "\<And>r c b' m. (r, c) \<in> set (get_empty_sqrs ROW COL b) \<Longrightarrow>
          minimax_alpha_beta p (mark_sqr b r c p) True a b' (m + k) =
          apsnd (\<lambda>m. m + k) (minimax_alpha_beta p (mark_sqr b r c p) True a b' m)"
        using "1.IH"(2)[OF refl nt False] by fastforce
      show ?thesis using nt False
        by (subst (1 2) minimax_alpha_beta.simps)
           (simp add: Let_def, subst for_break_counter_shift[where n = "Suc n", simplified],
            auto simp: IH split: prod.splits)
    qed
  qed
qed

text \<open>
  Fishburn's bound for one loop of the maximizer, by induction over the squares
  still to scan: \<open>m\<close> is the best score so far, \<open>al\<close> the current \<open>alpha\<close>,
  and \<open>g\<close> the search of a child, assumed to satisfy the bound in every window
  it is called with. The initial \<open>m\<close> and \<open>al\<close> need not be related.
\<close>

lemma ab_max_loop:
  assumes body: "\<And>m mv n al x. x \<in> set xs \<Longrightarrow> f (((m, mv), n), al) x =
      (let e = fst (fst (g al n x)); al' = max al (Fin e)
       in (((((if m < e then e else m), (if m < e then Some x else mv)), snd (g al n x)), al'), be \<le> al'))"
    and child: "\<And>x al n. x \<in> set xs \<Longrightarrow> al < be \<Longrightarrow>
      min (Fin (v x)) be \<le> Fin (fst (fst (g al n x))) \<and> Fin (fst (fst (g al n x))) \<le> max (Fin (v x)) al"
    and "al < be"
  shows "min (Fin (Max (insert m (v ` set xs)))) be \<le> Fin (fst (fst (fst (for_break f (((m, mv), n), al) xs))))
       \<and> Fin (fst (fst (fst (for_break f (((m, mv), n), al) xs)))) \<le> max (Fin (Max (insert m (v ` set xs)))) al"
  using assms
proof (induction xs arbitrary: m mv n al)
  case Nil
  then show ?case by simp
next
  case (Cons x xs)
  define e where "e = fst (fst (g al n x))"
  define al' where "al' = max al (Fin e)"
  define M where "M = Max (insert m (v ` set xs))"
  have step: "f (((m, mv), n), al) x =
      (((((max m e), (if m < e then Some x else mv)), snd (g al n x)), al'), be \<le> al')"
    using Cons.prems(1)[of x m mv n al] unfolding e_def al'_def Let_def by (simp add: max_def)
  have ce: "min (Fin (v x)) be \<le> Fin e" "Fin e \<le> max (Fin (v x)) al"
    using Cons.prems(2)[of x al n] Cons.prems(3) unfolding e_def by auto
  have V: "Max (insert m (v ` set (x # xs))) = max (v x) M"
    unfolding M_def using Max_insert2[of "v ` set xs" m "v x"] by simp
  have M': "Max (insert (max m e) (v ` set xs)) = max e M"
    unfolding M_def by (simp add: Max_insert_max)
  have "m \<le> M" unfolding M_def by simp
  show ?case
  proof (cases "be \<le> al'")
    case True
    then have "be \<le> Fin e" using Cons.prems(3) unfolding al'_def by (auto simp: le_max_iff_disj)
    have r: "fst (fst (fst (for_break f (((m, mv), n), al) (x # xs)))) = max m e"
      using step True by simp
    have lo: "min (Fin (max (v x) M)) be \<le> Fin (max m e)"
      using \<open>be \<le> Fin e\<close> by (meson min.cobounded2 order_trans Fin_le_Fin max.cobounded2)
    have "max (Fin (v x)) al \<le> max (Fin (max (v x) M)) al"
      by (rule max.mono) simp_all
    with ce(2) have "Fin e \<le> max (Fin (max (v x) M)) al"
      by (rule order_trans)
    moreover have "Fin m \<le> max (Fin (max (v x) M)) al"
      using \<open>m \<le> M\<close> by (simp add: le_max_iff_disj)
    ultimately have hi: "Fin (max m e) \<le> max (Fin (max (v x) M)) al"
      by (simp flip: max_Fin)
    show ?thesis using r lo hi V by simp
  next
    case False
    then have "al' < be" by simp
    have r: "for_break f (((m, mv), n), al) (x # xs) =
        for_break f (((max m e, if m < e then Some x else mv), snd (g al n x)), al') xs"
      using step False by simp
    have IH: "min (Fin (max e M)) be \<le> Fin (fst (fst (fst (for_break f (((max m e, if m < e then Some x else mv), snd (g al n x)), al') xs))))
       \<and> Fin (fst (fst (fst (for_break f (((max m e, if m < e then Some x else mv), snd (g al n x)), al') xs)))) \<le> max (Fin (max e M)) al'"
      using Cons.IH[where m = "max m e" and mv = "if m < e then Some x else mv" and n = "snd (g al n x)" and al = al'] Cons.prems(1,2) \<open>al' < be\<close> M'
      by auto
    have "Fin e < be" using \<open>al' < be\<close> unfolding al'_def by simp
    then have "v x \<le> e" using ce(1) by (auto simp: min_def split: if_splits)
    then have lo: "min (Fin (max (v x) M)) be \<le> min (Fin (max e M)) be"
      by (intro min.mono) (simp_all add: max.mono)
    have "max (Fin (v x)) al \<le> max (Fin (max (v x) M)) al"
      by (rule max.mono) simp_all
    with ce(2) have "Fin e \<le> max (Fin (max (v x) M)) al"
      by (rule order_trans)
    moreover have "Fin M \<le> max (Fin (max (v x) M)) al" and "al \<le> max (Fin (max (v x) M)) al"
      by (simp_all add: le_max_iff_disj)
    ultimately have hi: "max (Fin (max e M)) al' \<le> max (Fin (max (v x) M)) al"
      unfolding al'_def by (simp flip: max_Fin)
    show ?thesis unfolding r V using IH lo hi by (meson order_trans)
  qed
qed

lemma ab_min_loop:
  assumes body: "\<And>m mv n be x. x \<in> set xs \<Longrightarrow> f (((m, mv), n), be) x =
      (let e = fst (fst (g be n x)); be' = min be (Fin e)
       in (((((if e < m then e else m), (if e < m then Some x else mv)), snd (g be n x)), be'), be' \<le> al))"
    and child: "\<And>x be n. x \<in> set xs \<Longrightarrow> al < be \<Longrightarrow>
      min (Fin (v x)) be \<le> Fin (fst (fst (g be n x))) \<and> Fin (fst (fst (g be n x))) \<le> max (Fin (v x)) al"
    and "al < be"
  shows "min (Fin (Min (insert m (v ` set xs)))) be \<le> Fin (fst (fst (fst (for_break f (((m, mv), n), be) xs))))
       \<and> Fin (fst (fst (fst (for_break f (((m, mv), n), be) xs)))) \<le> max (Fin (Min (insert m (v ` set xs)))) al"
  using assms
proof (induction xs arbitrary: m mv n be)
  case Nil
  then show ?case by simp
next
  case (Cons x xs)
  define e where "e = fst (fst (g be n x))"
  define be' where "be' = min be (Fin e)"
  define M where "M = Min (insert m (v ` set xs))"
  have step: "f (((m, mv), n), be) x =
      (((((min m e), (if e < m then Some x else mv)), snd (g be n x)), be'), be' \<le> al)"
    using Cons.prems(1)[of x m mv n be] unfolding e_def be'_def Let_def by (simp add: min_def)
  have ce: "min (Fin (v x)) be \<le> Fin e" "Fin e \<le> max (Fin (v x)) al"
    using Cons.prems(2)[of x be n] Cons.prems(3) unfolding e_def by auto
  have V: "Min (insert m (v ` set (x # xs))) = min (v x) M"
    unfolding M_def using Min_insert2[of "v ` set xs" m "v x"] by simp
  have M': "Min (insert (min m e) (v ` set xs)) = min e M"
    unfolding M_def by (simp add: Min_insert_min)
  have "M \<le> m" unfolding M_def by simp
  have "min (Fin (min (v x) M)) be \<le> min (Fin (v x)) be"
    by (rule min.mono) simp_all
  with ce(1) have "min (Fin (min (v x) M)) be \<le> Fin e"
    by (rule order_trans[rotated])
  show ?case
  proof (cases "be' \<le> al")
    case True
    then have "Fin e \<le> al" using Cons.prems(3) unfolding be'_def by (auto simp: min_le_iff_disj)
    have r: "fst (fst (fst (for_break f (((m, mv), n), be) (x # xs)))) = min m e"
      using step True by simp
    have "min (Fin (min (v x) M)) be \<le> Fin m"
      using \<open>M \<le> m\<close> by (simp add: min_le_iff_disj)
    with \<open>min (Fin (min (v x) M)) be \<le> Fin e\<close>
    have lo: "min (Fin (min (v x) M)) be \<le> Fin (min m e)"
      by (simp flip: min_Fin)
    have hi: "Fin (min m e) \<le> max (Fin (min (v x) M)) al"
      using \<open>Fin e \<le> al\<close> by (meson Fin_le_Fin max.cobounded2 min.cobounded2 order_trans)
    show ?thesis using r lo hi V by simp
  next
    case False
    then have "al < be'" by simp
    have r: "for_break f (((m, mv), n), be) (x # xs) =
        for_break f (((min m e, if e < m then Some x else mv), snd (g be n x)), be') xs"
      using step False by simp
    have IH: "min (Fin (min e M)) be' \<le> Fin (fst (fst (fst (for_break f (((min m e, if e < m then Some x else mv), snd (g be n x)), be') xs))))
       \<and> Fin (fst (fst (fst (for_break f (((min m e, if e < m then Some x else mv), snd (g be n x)), be') xs)))) \<le> max (Fin (min e M)) al"
      using Cons.IH[where m = "min m e" and mv = "if e < m then Some x else mv" and n = "snd (g be n x)" and be = be'] Cons.prems(1,2) \<open>al < be'\<close> M'
      by auto
    have "al < Fin e" using \<open>al < be'\<close> unfolding be'_def by simp
    then have "e \<le> v x" using ce(2) by (auto simp: max_def split: if_splits)
    then have hi: "max (Fin (min e M)) al \<le> max (Fin (min (v x) M)) al"
      by (intro max.mono) (simp_all add: min.mono)
    have "min (Fin (min (v x) M)) be \<le> Fin M" and "min (Fin (min (v x) M)) be \<le> be"
      by (simp_all add: min_le_iff_disj)
    with \<open>min (Fin (min (v x) M)) be \<le> Fin e\<close>
    have lo: "min (Fin (min (v x) M)) be \<le> min (Fin (min e M)) be'"
      unfolding be'_def by (simp flip: min_Fin)
    show ?thesis unfolding r V using IH lo hi by (meson order_trans)
  qed
qed

text \<open>The exhaustive search's value at an open node, as the loops' lemmas need it.\<close>

lemma minimax_max_value:
  "final_state b = None \<Longrightarrow> \<not> isfull b \<Longrightarrow>
   fst (fst (minimax p b True n)) = Max (insert (-100) (child_value p b True ` set (get_empty_sqrs ROW COL b)))"
  using minimax_node[of b p True n] by (simp add: fold_argmax_value)

lemma minimax_min_value:
  "final_state b = None \<Longrightarrow> \<not> isfull b \<Longrightarrow>
   fst (fst (minimax p b False n)) = Min (insert 100 (child_value p b False ` set (get_empty_sqrs ROW COL b)))"
  using minimax_node[of b p False n] by (simp add: fold_argmin_value)

text \<open>Fail-soft correctness: in any window, the result is bounded by the true value
  as \<open>min v beta \<le> ab \<le> max v alpha\<close>.\<close>

lemma ab_fishburn:
  "al < be \<Longrightarrow>
   min (Fin (fst (fst (minimax p b mx 0)))) be \<le> Fin (fst (fst (minimax_alpha_beta p b mx al be n)))
   \<and> Fin (fst (fst (minimax_alpha_beta p b mx al be n))) \<le> max (Fin (fst (fst (minimax p b mx 0)))) al"
proof (induction p b mx al be n rule: minimax_alpha_beta.induct)
  case (1 p b mx al be n)
  show ?case
  proof (cases "final_state b = None \<and> \<not> isfull b")
    case False
    then consider "final_state b = Some P1" | "final_state b = Some P2" | "final_state b = None" "isfull b"
      by (metis option.exhaust player.exhaust)
    then show ?thesis
      by cases (simp_all add: minimax_terminal ab_terminal min_le_iff_disj le_max_iff_disj)
  next
    case True
    then have nt: "final_state b \<noteq> Some P1" "final_state b \<noteq> Some P2" "\<not> isfull b" by auto
    show ?thesis
    proof (cases mx)
      case True
      have IH: "\<And>r c a' m. (r, c) \<in> set (get_empty_sqrs ROW COL b) \<Longrightarrow> a' < be \<Longrightarrow>
          min (Fin (child_value p b True (r, c))) be \<le> Fin (fst (fst (minimax_alpha_beta p (mark_sqr b r c P1) False a' be (Suc m))))
          \<and> Fin (fst (fst (minimax_alpha_beta p (mark_sqr b r c P1) False a' be (Suc m)))) \<le> max (Fin (child_value p b True (r, c))) a'"
        using "1.IH"(1)[OF refl nt \<open>mx\<close>] unfolding child_value_def by fastforce
      from True have mx: "mx = True" by simp
      show ?thesis
        unfolding mx minimax_max_value[OF conjunct1[OF \<open>final_state b = None \<and> \<not> isfull b\<close>] nt(3)]
        apply (simp only: minimax_alpha_beta.simps[of p b True al be n] Let_def nt if_False if_True)
        apply (rule ab_max_loop[where g = "\<lambda>a m x. minimax_alpha_beta p (mark_sqr b (fst x) (snd x) P1) False a be (Suc m)"
              and v = "child_value p b True"])
        using IH "1.prems" by (auto simp: Let_def split: prod.splits)
    next
      case False
      have IH: "\<And>r c b' m. (r, c) \<in> set (get_empty_sqrs ROW COL b) \<Longrightarrow> al < b' \<Longrightarrow>
          min (Fin (child_value p b False (r, c))) b' \<le> Fin (fst (fst (minimax_alpha_beta p (mark_sqr b r c p) True al b' m)))
          \<and> Fin (fst (fst (minimax_alpha_beta p (mark_sqr b r c p) True al b' m))) \<le> max (Fin (child_value p b False (r, c))) al"
        using "1.IH"(2)[OF refl nt False] unfolding child_value_def by fastforce
      from False have mx: "mx = False" by simp
      show ?thesis
        unfolding mx minimax_min_value[OF conjunct1[OF \<open>final_state b = None \<and> \<not> isfull b\<close>] nt(3)]
        apply (simp only: minimax_alpha_beta.simps[of p b False al be n] Let_def nt if_False if_True)
        apply (rule ab_min_loop[where g = "\<lambda>b' m x. minimax_alpha_beta p (mark_sqr b (fst x) (snd x) p) True al b' m"
              and v = "child_value p b False"])
        using IH "1.prems" by (auto simp: Let_def split: prod.splits)
    qed
  qed
qed


text \<open>At the top call the window is \<open>(-inf, inf)\<close>: the loop never breaks, and it
  keeps the same best score and move as the exhaustive search.\<close>

lemma ab_top_max_loop:
  assumes body: "\<And>m mv n al x. x \<in> set xs \<Longrightarrow> f (((m, mv), n), al) x =
      (let e = fst (fst (g al n x)); al' = max al (Fin e)
       in (((((if m < e then e else m), (if m < e then Some x else mv)), snd (g al n x)), al'), PosInf \<le> al'))"
    and child: "\<And>x al n. x \<in> set xs \<Longrightarrow> al < PosInf \<Longrightarrow>
      min (Fin (v x)) PosInf \<le> Fin (fst (fst (g al n x))) \<and> Fin (fst (fst (g al n x))) \<le> max (Fin (v x)) al"
    and "al \<le> Fin m"
  shows "fst (fst (for_break f (((m, mv), n), al) xs)) = fold (argmax_step v) xs (m, mv)"
  using assms
proof (induction xs arbitrary: m mv n al)
  case (Cons x xs)
  define e where "e = fst (fst (g al n x))"
  have "al < PosInf" using Cons.prems(3) by (cases al) simp_all
  then have ce: "v x \<le> e" "Fin e \<le> max (Fin (v x)) al"
    using Cons.prems(2)[of x al n] unfolding e_def by auto
  have nb: "\<not> PosInf \<le> max al (Fin e)"
    using Cons.prems(3) by (cases al) (simp_all add: max_def)
  have step: "f (((m, mv), n), al) x =
      (((((if m < e then e else m), (if m < e then Some x else mv)), snd (g al n x)), max al (Fin e)), False)"
    using Cons.prems(1)[of x m mv n al] nb unfolding e_def Let_def by simp
  have same: "(if m < e then (e, Some x) else (m, mv)) = argmax_step v x (m, mv)"
  proof (cases "m < v x")
    case True
    then have "al < Fin (v x)" using Cons.prems(3) by (meson Fin_less_Fin le_less_trans)
    then have "e = v x" using ce by (auto simp: max_def split: if_splits)
    then show ?thesis using True by (simp add: argmax_step_def)
  next
    case False
    then have "max (Fin (v x)) al \<le> Fin m" using Cons.prems(3) by simp
    then have "\<not> m < e" using ce(2) by (meson Fin_le_Fin order_trans not_less)
    then show ?thesis using False by (simp add: argmax_step_def)
  qed
  have inv: "max al (Fin e) \<le> Fin (if m < e then e else m)"
    using Cons.prems(3) order_trans[of al "Fin m" "Fin e"] by (auto simp: max_def)
  have "fst (fst (for_break f (((m, mv), n), al) (x # xs))) =
      fold (argmax_step v) xs (if m < e then e else m, if m < e then Some x else mv)"
    using step Cons.IH[OF Cons.prems(1,2) inv] by simp
  also have "\<dots> = fold (argmax_step v) (x # xs) (m, mv)"
    using same by (simp add: if_distrib[of fst] if_distrib[of snd] split: if_splits)
  finally show ?case .
qed simp

lemma ab_top_min_loop:
  assumes body: "\<And>m mv n be x. x \<in> set xs \<Longrightarrow> f (((m, mv), n), be) x =
      (let e = fst (fst (g be n x)); be' = min be (Fin e)
       in (((((if e < m then e else m), (if e < m then Some x else mv)), snd (g be n x)), be'), be' \<le> NegInf))"
    and child: "\<And>x be n. x \<in> set xs \<Longrightarrow> NegInf < be \<Longrightarrow>
      min (Fin (v x)) be \<le> Fin (fst (fst (g be n x))) \<and> Fin (fst (fst (g be n x))) \<le> max (Fin (v x)) NegInf"
    and "Fin m \<le> be"
  shows "fst (fst (for_break f (((m, mv), n), be) xs)) = fold (argmin_step v) xs (m, mv)"
  using assms
proof (induction xs arbitrary: m mv n be)
  case (Cons x xs)
  define e where "e = fst (fst (g be n x))"
  have "NegInf < be" using Cons.prems(3) by (cases be) simp_all
  then have ce: "min (Fin (v x)) be \<le> Fin e" "e \<le> v x"
    using Cons.prems(2)[of x be n] unfolding e_def by auto
  have nb: "\<not> min be (Fin e) \<le> NegInf"
    using Cons.prems(3) by (cases be) (simp_all add: min_def)
  have step: "f (((m, mv), n), be) x =
      (((((if e < m then e else m), (if e < m then Some x else mv)), snd (g be n x)), min be (Fin e)), False)"
    using Cons.prems(1)[of x m mv n be] nb unfolding e_def Let_def by simp
  have same: "(if e < m then (e, Some x) else (m, mv)) = argmin_step v x (m, mv)"
  proof (cases "v x < m")
    case True
    then have "Fin (v x) < be" using Cons.prems(3) by (meson Fin_less_Fin less_le_trans)
    then have "e = v x" using ce by (auto simp: min_def split: if_splits)
    then show ?thesis using True by (simp add: argmin_step_def)
  next
    case False
    then have "Fin m \<le> min (Fin (v x)) be" using Cons.prems(3) by simp
    then have "\<not> e < m" using ce(1) by (meson Fin_le_Fin order_trans not_less)
    then show ?thesis using False by (simp add: argmin_step_def)
  qed
  have inv: "Fin (if e < m then e else m) \<le> min be (Fin e)"
    using Cons.prems(3) order_trans[of "Fin e" "Fin m" be] by (auto simp: min_def)
  have "fst (fst (for_break f (((m, mv), n), be) (x # xs))) =
      fold (argmin_step v) xs (if e < m then e else m, if e < m then Some x else mv)"
    using step Cons.IH[OF Cons.prems(1,2) inv] by simp
  also have "\<dots> = fold (argmin_step v) (x # xs) (m, mv)"
    using same by (simp add: if_distrib[of fst] if_distrib[of snd] split: if_splits)
  finally show ?case .
qed simp

lemma ab_top_equiv:
  "fst (minimax_alpha_beta p b mx NegInf PosInf n) = fst (minimax p b mx n)"
proof (cases "final_state b = None \<and> \<not> isfull b")
  case False
  then consider "final_state b = Some P1" | "final_state b = Some P2" | "final_state b = None" "isfull b"
    by (metis option.exhaust player.exhaust)
  then show ?thesis
    by cases (simp_all add: minimax_terminal ab_terminal)
next
  case True
  then have nt: "final_state b \<noteq> Some P1" "final_state b \<noteq> Some P2" "\<not> isfull b" by auto
  have fb: "final_state b = None" using True by simp
  show ?thesis
  proof (cases mx)
    case True
    then have mx: "mx = True" by simp
    show ?thesis
      unfolding mx minimax_node[OF fb nt(3)] if_True
      apply (simp only: minimax_alpha_beta.simps[of p b True NegInf PosInf n] Let_def nt if_False if_True)
      apply (rule ab_top_max_loop[where g = "\<lambda>a m x. minimax_alpha_beta p (mark_sqr b (fst x) (snd x) P1) False a PosInf (Suc m)"
            and v = "child_value p b True"])
      using ab_fishburn[where be = PosInf and mx = False and p = p] unfolding child_value_def
      by (auto simp: Let_def split: prod.splits)
  next
    case False
    then have mx: "mx = False" by simp
    show ?thesis
      unfolding mx minimax_node[OF fb nt(3)] if_False
      apply (simp only: minimax_alpha_beta.simps[of p b False NegInf PosInf n] Let_def nt if_False if_True)
      apply (rule ab_top_min_loop[where g = "\<lambda>b' m x. minimax_alpha_beta p (mark_sqr b (fst x) (snd x) p) True NegInf b' m"
            and v = "child_value p b False"])
      using ab_fishburn[where al = NegInf and mx = True and p = p] unfolding child_value_def
      by (auto simp: Let_def split: prod.splits)
  qed
qed


lemma ab_counter: "snd (minimax_alpha_beta p b mx a be n) = n + snd (minimax_alpha_beta p b mx a be 0)"
  using ab_shift[of p b mx a be 0 n] by simp



section \<open>Properties\<close>

text \<open>
  C2. With a level other than 0, \<open>eval\<close> of the alpha-beta player returns the same
  score and the same move as the exhaustive minimax of \<open>tictactoe.py\<close> on the
  same board, and adds the nodes its own search expands to \<open>nodes_expanded\<close>.
\<close>

theorem ab_eval_plays_minimax_move:
  assumes "ab_level a \<noteq> 0"
  shows "\<exists>a'. ab_eval a b k =
           Inr ((Score (fst (fst (minimax (ab_player a) b False 0))), snd (fst (minimax (ab_player a) b False 0))), a')
         \<and> ab_nodes_expanded a' = ab_nodes_expanded a + snd (minimax_alpha_beta (ab_player a) b False NegInf PosInf 0)"
proof -
  obtain r n' where m: "minimax_alpha_beta (ab_player a) b False NegInf PosInf (ab_nodes_expanded a) = (r, n')"
    by fastforce
  have r: "r = fst (minimax (ab_player a) b False 0)"
    using ab_top_equiv[of "ab_player a" b False "ab_nodes_expanded a"] m
      minimax_fst_indep[of "ab_player a" b False "ab_nodes_expanded a"] by simp
  have n': "n' = ab_nodes_expanded a + snd (minimax_alpha_beta (ab_player a) b False NegInf PosInf 0)"
    using ab_counter[of "ab_player a" b False NegInf PosInf "ab_nodes_expanded a"] m by simp
  obtain e mv where emv: "fst (minimax (ab_player a) b False 0) = (e, mv)" by fastforce
  have "ab_eval a b k = Inr ((Score e, mv), a\<lparr>ab_nodes_expanded := n'\<rparr>)"
    using assms m r emv by (simp add: ab_eval_def)
  then show ?thesis using emv n' by simp
qed

theorem ab_eval_plays_minimax_move_witness:
  "ab_level new_ab_ai \<noteq> 0
   \<and> (\<exists>a'. ab_eval new_ab_ai (board_of [[cross, cross, circle], [circle, circle, cross], [cross, blank, blank]]) 0 =
        Inr ((Score (fst (fst (minimax P2 (board_of [[cross, cross, circle], [circle, circle, cross], [cross, blank, blank]]) False 0))),
              snd (fst (minimax P2 (board_of [[cross, cross, circle], [circle, circle, cross], [cross, blank, blank]]) False 0))), a'))"
proof -
  have h: "ab_level new_ab_ai \<noteq> 0" and P: "ab_player new_ab_ai = P2" by (simp_all add: new_ab_ai_def)
  show ?thesis
    using h ab_eval_plays_minimax_move[OF h, of "board_of [[cross, cross, circle], [circle, circle, cross], [cross, blank, blank]]" 0]
    unfolding P by blast
qed

text \<open>
  C3. The alpha-beta search is correct in Fishburn's sense, for every window
  \<open>alpha < beta\<close>: a result at most \<open>alpha\<close> is an upper bound of the true
  minimax value, a result at least \<open>beta\<close> a lower bound, and a result strictly
  inside the window is the true value.
\<close>

theorem minimax_alpha_beta_fail_soft:
  assumes "al < be"
  shows "(Fin (fst (fst (minimax_alpha_beta p b mx al be n))) \<le> al
            \<longrightarrow> fst (fst (minimax p b mx 0)) \<le> fst (fst (minimax_alpha_beta p b mx al be n)))
       \<and> (al < Fin (fst (fst (minimax_alpha_beta p b mx al be n))) \<and> Fin (fst (fst (minimax_alpha_beta p b mx al be n))) < be
            \<longrightarrow> fst (fst (minimax_alpha_beta p b mx al be n)) = fst (fst (minimax p b mx 0)))
       \<and> (be \<le> Fin (fst (fst (minimax_alpha_beta p b mx al be n)))
            \<longrightarrow> fst (fst (minimax_alpha_beta p b mx al be n)) \<le> fst (fst (minimax p b mx 0)))"
proof -
  define v where "v = fst (fst (minimax p b mx 0))"
  define r where "r = fst (fst (minimax_alpha_beta p b mx al be n))"
  have "min (Fin v) be \<le> Fin r" "Fin r \<le> max (Fin v) al"
    using ab_fishburn[OF assms, of p b mx n] unfolding v_def r_def by simp_all
  then have "(Fin r \<le> al \<longrightarrow> v \<le> r) \<and> (al < Fin r \<and> Fin r < be \<longrightarrow> r = v) \<and> (be \<le> Fin r \<longrightarrow> r \<le> v)"
    using assms by (metis Fin_le_Fin le_max_iff_disj linorder_not_le min_le_iff_disj nle_le order_trans)
  then show ?thesis unfolding v_def r_def .
qed

theorem minimax_alpha_beta_fail_soft_witness:
  "Fin 0 < Fin 1
   \<and> fst (fst (minimax_alpha_beta P2 (board_of [[cross, cross, blank], [circle, circle, blank], [cross, circle, blank]]) False (Fin 0) (Fin 1) 0)) = 0
   \<and> fst (fst (minimax P2 (board_of [[cross, cross, blank], [circle, circle, blank], [cross, circle, blank]]) False 0)) \<le> 0"
proof -
  have h: "Fin 0 < Fin (1::int)" by simp
  have r: "fst (fst (minimax_alpha_beta P2 (board_of [[cross, cross, blank], [circle, circle, blank], [cross, circle, blank]]) False (Fin 0) (Fin 1) 0)) = 0"
    by code_simp
  show ?thesis
    using h r minimax_alpha_beta_fail_soft[OF h, of P2 "board_of [[cross, cross, blank], [circle, circle, blank], [cross, circle, blank]]" False 0]
    by simp
qed

text \<open>
  C4. Pruning never costs nodes: in every window, the alpha-beta search counts at
  most as many expanded nodes as the exhaustive search from the same position.
\<close>

theorem minimax_alpha_beta_expands_no_more: "snd (minimax_alpha_beta p b mx al be n) \<le> snd (minimax p b mx n)"
proof (induction p b mx al be n rule: minimax_alpha_beta.induct)
  case (1 p b mx al be n)
  show ?case
  proof (cases "final_state b = None \<and> \<not> isfull b")
    case False
    then consider "final_state b = Some P1" | "final_state b = Some P2" | "final_state b = None" "isfull b"
      by (metis option.exhaust player.exhaust)
    then show ?thesis
      by cases (simp_all add: minimax_terminal ab_terminal)
  next
    case True
    then have nt: "final_state b \<noteq> Some P1" "final_state b \<noteq> Some P2" "\<not> isfull b" by auto
    show ?thesis
    proof (cases mx)
      case True
      have IH0: "\<And>r c a' m. (r, c) \<in> set (get_empty_sqrs ROW COL b) \<Longrightarrow>
          snd (minimax_alpha_beta p (mark_sqr b r c P1) False a' be (Suc m))
          \<le> snd (minimax p (mark_sqr b r c P1) False (Suc m))"
        using "1.IH"(1)[OF refl nt True] by fastforce
      have IH: "snd (minimax_alpha_beta p (mark_sqr b r c P1) False a' be (Suc m))
          \<le> Suc m + snd (minimax p (mark_sqr b r c P1) False 0)"
        if "(r, c) \<in> set (get_empty_sqrs ROW COL b)" for r c a' m
        using IH0[OF that, of a' m] minimax_counter[of p "mark_sqr b r c P1" False "Suc m"] by simp
      from True have mx: "mx = True" by simp
      show ?thesis
        unfolding mx
        apply (simp only: minimax_alpha_beta.simps[of p b True al be n] minimax.simps[of p b True n] Let_def nt if_False if_True)
        apply (rule for_break_counter_le[where cnt = "\<lambda>s. snd (fst s)" and cnt' = snd
              and d = "\<lambda>x. Suc (snd (minimax p (mark_sqr b (fst x) (snd x) P1) False 0))"])
        subgoal for s x
          using IH[of "fst x" "snd x" "snd s" "snd (fst s)"] by (auto simp: Let_def prod.case_eq_if)
        subgoal for t x
          using minimax_counter[of p "mark_sqr b (fst x) (snd x) P1" False "Suc (snd t)"]
          by (auto simp: Let_def prod.case_eq_if)
        by simp
    next
      case False
      have IH0: "\<And>r c b' m. (r, c) \<in> set (get_empty_sqrs ROW COL b) \<Longrightarrow>
          snd (minimax_alpha_beta p (mark_sqr b r c p) True al b' m)
          \<le> snd (minimax p (mark_sqr b r c p) True m)"
        using "1.IH"(2)[OF refl nt False] by fastforce
      have IH: "snd (minimax_alpha_beta p (mark_sqr b r c p) True al b' m)
          \<le> m + snd (minimax p (mark_sqr b r c p) True 0)"
        if "(r, c) \<in> set (get_empty_sqrs ROW COL b)" for r c b' m
        using IH0[OF that, of b' m] minimax_counter[of p "mark_sqr b r c p" True m] by simp
      from False have mx: "mx = False" by simp
      show ?thesis
        unfolding mx
        apply (simp only: minimax_alpha_beta.simps[of p b False al be n] minimax.simps[of p b False n] Let_def nt if_False if_True)
        apply (rule for_break_counter_le[where cnt = "\<lambda>s. snd (fst s)" and cnt' = snd
              and d = "\<lambda>x. snd (minimax p (mark_sqr b (fst x) (snd x) p) True 0)"])
        subgoal for s x
          using IH[of "fst x" "snd x" "snd s" "snd (fst s)"] by (auto simp: Let_def prod.case_eq_if)
        subgoal for t x
          using minimax_counter[of p "mark_sqr b (fst x) (snd x) p" True "snd t"]
          by (auto simp: Let_def prod.case_eq_if)
        by simp
    qed
  qed
qed

end
