(* ===== verification/Game.thy ===== *)
theory Game
  imports Minimax
begin

text \<open>
  The class \<open>Game\<close> of \<open>src/AI/tictactoe.py\<close> and one iteration of the game loop of
  its \<open>main\<close>: the pygame events of the iteration are handled in order (keys \<open>g\<close>,
  \<open>r\<close>, \<open>0\<close>, \<open>1\<close>, \<open>2\<close>, mouse clicks, quit), then the computer moves if the mode
  is \<open>'ai'\<close>, it is its turn and the game is running. Drawing is left out; the
  loop's local names \<open>board\<close> and \<open>ai\<close> always alias \<open>game.board\<close> and
  \<open>game.ai\<close> (they are rebound after a reset), so the model reads the game's fields.
\<close>

section \<open>Data\<close>

datatype gamemode = PvP | AI_mode

record game =
  game_board :: board
  game_ai :: ai
  game_player :: player
  gamemode :: gamemode
  running :: bool
  game_total_nodes_expanded :: nat
  nodes_expanded_printed :: bool

definition new_game :: game where
  "new_game = \<lparr>game_board = new_board, game_ai = new_ai, game_player = P1, gamemode = AI_mode,
               running = True, game_total_nodes_expanded = 0, nodes_expanded_printed = False\<rparr>"

text \<open>The events the loop reacts to; a click carries the pixel position.\<close>

datatype event = Quit | Key_g | Key_r | Key_0 | Key_1 | Key_2 | Click nat nat

text \<open>What ends an iteration abnormally: an exception of \<open>eval\<close>, or unpacking
  \<open>row, col = None\<close> (a \<open>TypeError\<close>).\<close>

datatype loop_error = Eval_error py_error | Unpack_none

section \<open>Operations\<close>

text \<open>\<open>self.player = self.player % 2 + 1\<close>.\<close>

definition next_turn :: "game \<Rightarrow> game" where
  "next_turn g = g\<lparr>game_player := (case game_player g of P1 \<Rightarrow> P2 | P2 \<Rightarrow> P1)\<rparr>"

definition make_move :: "game \<Rightarrow> nat \<Rightarrow> nat \<Rightarrow> game" where
  "make_move g row col = next_turn (g\<lparr>game_board := mark_sqr (game_board g) row col (game_player g)\<rparr>)"

definition change_gamemode :: "game \<Rightarrow> game" where
  "change_gamemode g = g\<lparr>gamemode := (if gamemode g = PvP then AI_mode else PvP)\<rparr>"

definition isover :: "game \<Rightarrow> bool" where
  "isover g \<longleftrightarrow> final_state (game_board g) \<noteq> None \<or> isfull (game_board g)"

text \<open>\<open>reset\<close> reports the AI's count and re-initialises the whole object.\<close>

definition game_reset :: "game \<Rightarrow> nat \<times> game" where
  "game_reset g = (fst (reset_expanded_nodes (game_ai g)), new_game)"

text \<open>A move, then \<open>if game.isover(): game.running = False\<close>.\<close>

definition move_and_check :: "game \<Rightarrow> nat \<Rightarrow> nat \<Rightarrow> game" where
  "move_and_check g row col =
     (let g' = make_move g row col in if isover g' then g'\<lparr>running := False\<rparr> else g')"

text \<open>
  The \<open>for event in pygame.event.get()\<close> loop, with the square size \<open>sq\<close>
  (\<open>SQSIZE\<close>); \<open>None\<close> is \<open>sys.exit()\<close> after a quit event.
\<close>

fun handle_events :: "nat \<Rightarrow> game \<Rightarrow> event list \<Rightarrow> game option" where
  "handle_events sq g [] = Some g"
| "handle_events sq g (Quit # es) = None"
| "handle_events sq g (Key_g # es) = handle_events sq (change_gamemode g) es"
| "handle_events sq g (Key_r # es) = handle_events sq (snd (game_reset g)) es"
| "handle_events sq g (Key_0 # es) = handle_events sq (g\<lparr>game_ai := (game_ai g)\<lparr>level := 0\<rparr>\<rparr>) es"
| "handle_events sq g (Key_1 # es) = handle_events sq (g\<lparr>game_ai := (game_ai g)\<lparr>level := 1\<rparr>\<rparr>) es"
| "handle_events sq g (Key_2 # es) = handle_events sq (g\<lparr>game_ai := (game_ai g)\<lparr>level := 2\<rparr>\<rparr>) es"
| "handle_events sq g (Click x y # es) =
     (let row = y div sq; col = x div sq
      in handle_events sq
           (if empty_sqr (game_board g) row col \<and> running g then move_and_check g row col else g) es)"

text \<open>The computer's turn after the events, with the random number \<open>k\<close> of level 0.\<close>

definition ai_turn :: "game \<Rightarrow> nat \<Rightarrow> loop_error + game" where
  "ai_turn g k =
     (if gamemode g = AI_mode \<and> game_player g = player (game_ai g) \<and> running g then
        (case ai_eval (game_ai g) (game_board g) k of
           Inl e \<Rightarrow> Inl (Eval_error e)
         | Inr ((_, None), a') \<Rightarrow> Inl Unpack_none
         | Inr ((_, Some (row, col)), a') \<Rightarrow> Inr (move_and_check (g\<lparr>game_ai := a'\<rparr>) row col))
      else Inr g)"

definition loop_iteration :: "nat \<Rightarrow> game \<Rightarrow> event list \<Rightarrow> nat \<Rightarrow> (loop_error + game) option" where
  "loop_iteration sq g es k = map_option (\<lambda>g'. ai_turn g' k) (handle_events sq g es)"

text \<open>Clicks inside the window of \<open>COL \<times> ROW\<close> squares of \<open>sq\<close> pixels.\<close>

definition in_window :: "nat \<Rightarrow> event \<Rightarrow> bool" where
  "in_window sq e = (case e of Click x y \<Rightarrow> x < COL * sq \<and> y < ROW * sq | _ \<Rightarrow> True)"

text \<open>
  The states of a round: a new game, and whatever an iteration of
  \<open>while not game.isover()\<close> makes of a reachable state that is not over.
\<close>

inductive reachable :: "game \<Rightarrow> bool" where
  init: "reachable new_game"
| iter: "reachable g \<Longrightarrow> \<not> isover g \<Longrightarrow> 0 < sq \<Longrightarrow> list_all (in_window sq) es \<Longrightarrow>
         loop_iteration sq g es k = Some (Inr g') \<Longrightarrow> reachable g'"

section \<open>Specification: the invariant of a round\<close>

text \<open>How many squares of the board hold player \<open>p\<close>'s mark.\<close>

definition count_marks :: "board \<Rightarrow> player \<Rightarrow> nat" where
  "count_marks b p = length (filter (\<lambda>x. squares b x = Some p) (grid ROW COL))"

text \<open>
  The board's counter agrees with its squares; a running game is not over; the
  players have marked in turn, player 1 first, so player 1 has one mark more
  exactly when it is player 2's turn; the computer plays player 2.
\<close>

definition game_inv :: "game \<Rightarrow> bool" where
  "game_inv g \<longleftrightarrow> wf_board ROW COL (game_board g) \<and> (running g \<longrightarrow> \<not> isover g)
     \<and> count_marks (game_board g) P1 = count_marks (game_board g) P2 + (if game_player g = P2 then 1 else 0)
     \<and> player (game_ai g) = P2"

section \<open>Lemmas\<close>

lemma length_filter_fun_upd:
  assumes "distinct xs" and "a \<in> set xs" and "f a \<noteq> w"
  shows "length (filter (\<lambda>x. (f(a := v)) x = w) xs) = length (filter (\<lambda>x. f x = w) xs) + (if v = w then 1 else 0)"
  using assms
proof (induction xs)
  case (Cons y ys)
  show ?case
  proof (cases "y = a")
    case True
    with Cons.prems(1) have "a \<notin> set ys" by simp
    then have "filter (\<lambda>x. (f(a := v)) x = w) ys = filter (\<lambda>x. f x = w) ys"
      by (intro filter_cong) auto
    with True Cons.prems(3) show ?thesis by simp
  next
    case False
    with Cons show ?thesis by simp
  qed
qed simp

lemma count_marks_mark_sqr:
  assumes "(r, c) \<in> set (get_empty_sqrs ROW COL b)"
  shows "count_marks (mark_sqr b r c p) q = count_marks b q + (if p = q then 1 else 0)"
  using assms length_filter_fun_upd[of "grid ROW COL" "(r, c)" "squares b" "Some q" "Some p"]
  by (simp add: count_marks_def mem_get_empty_sqrs)

lemma click_in_grid:
  assumes "0 < sq" and "x < COL * sq" and "y < ROW * sq"
  shows "y div sq < ROW" and "x div sq < COL"
  using assms by (simp_all add: div_less_iff_less_mult mult.commute)

lemma empty_sqr_open:
  "r < ROW \<Longrightarrow> c < COL \<Longrightarrow> empty_sqr b r c \<Longrightarrow> (r, c) \<in> set (get_empty_sqrs ROW COL b)"
  by (simp add: mem_get_empty_sqrs empty_sqr_def)

text \<open>A move on an open square keeps the invariant, whoever is to move.\<close>

lemma move_and_check_inv:
  assumes "game_inv g" and "(r, c) \<in> set (get_empty_sqrs ROW COL (game_board g))"
  shows "game_inv (move_and_check g r c)"
proof -
  have wf: "wf_board ROW COL (mark_sqr (game_board g) r c (game_player g))"
    using assms wf_board_mark_sqr unfolding game_inv_def by blast
  have cnt: "count_marks (mark_sqr (game_board g) r c (game_player g)) P1 =
        count_marks (mark_sqr (game_board g) r c (game_player g)) P2
        + (if game_player g = P1 then 1 else 0)"
    using assms count_marks_mark_sqr[OF assms(2)] unfolding game_inv_def
    by (cases "game_player g") simp_all
  show ?thesis
    using wf cnt assms(1)
    by (cases "game_player g")
       (auto simp: game_inv_def move_and_check_def make_move_def next_turn_def isover_def Let_def)
qed

lemma new_game_inv: "game_inv new_game"
  unfolding game_inv_def new_game_def isover_def count_marks_def by code_simp

lemma handle_events_inv:
  assumes "game_inv g" and "0 < sq" and "list_all (in_window sq) es" and "handle_events sq g es = Some g'"
  shows "game_inv g'"
  using assms
proof (induction sq g es rule: handle_events.induct)
  case (8 sq g x y es)
  let ?g1 = "if empty_sqr (game_board g) (y div sq) (x div sq) \<and> running g
             then move_and_check g (y div sq) (x div sq) else g"
  have "x < COL * sq" "y < ROW * sq" using "8.prems"(3) by (simp_all add: in_window_def)
  then have "(y div sq, x div sq) \<in> set (get_empty_sqrs ROW COL (game_board g))"
    if "empty_sqr (game_board g) (y div sq) (x div sq)"
    using that click_in_grid[OF "8.prems"(2)] empty_sqr_open by blast
  then have "game_inv ?g1" using "8.prems"(1) move_and_check_inv by auto
  then show ?case using "8.IH"[of "y div sq" "x div sq"] "8.prems"(2-4) by (simp add: Let_def)
next
  case (4 sq g es)
  then show ?case using new_game_inv by (simp add: game_reset_def)
qed (auto simp: game_inv_def change_gamemode_def isover_def)


text \<open>On a well-formed board where the game is not over, \<open>eval\<close> returns an open
  square at every level and leaves \<open>self.player\<close> alone.\<close>

lemma ai_eval_open_move:
  assumes "wf_board ROW COL b" and "final_state b = None" and "\<not> isfull b"
  shows "\<exists>s x a'. ai_eval a b k = Inr ((s, Some x), a') \<and> x \<in> set (get_empty_sqrs ROW COL b)
           \<and> player a' = player a"
proof (cases "level a = 0")
  case True
  let ?es = "get_empty_sqrs ROW COL b"
  have ne: "?es \<noteq> []" using assms(1,3) isfull_iff_no_empty by blast
  then have mem: "?es ! (k mod length ?es) \<in> set ?es" by simp
  have "ai_eval a b k = Inr ((Random, Some (?es ! (k mod length ?es))), a)"
    using True ne by (simp add: ai_eval_def rnd_def Let_def)
  with mem show ?thesis by blast
next
  case False
  obtain x where x: "snd (fst (minimax (player a) b False (nodes_expanded a))) = Some x"
      "x \<in> set (get_empty_sqrs ROW COL b)"
    using minimax_move_open[OF assms] by blast
  obtain v n where "minimax (player a) b False (nodes_expanded a) = ((v, Some x), n)"
    using x(1) by (metis prod.collapse)
  then have "ai_eval a b k = Inr ((Score v, Some x), a\<lparr>nodes_expanded := n\<rparr>)"
    using False by (simp add: ai_eval_def)
  with x(2) show ?thesis by fastforce
qed

lemma ai_turn_inv:
  assumes "game_inv g"
  shows "\<exists>g'. ai_turn g k = Inr g' \<and> game_inv g'"
proof (cases "gamemode g = AI_mode \<and> game_player g = player (game_ai g) \<and> running g")
  case True
  then have "wf_board ROW COL (game_board g)" "final_state (game_board g) = None" "\<not> isfull (game_board g)"
    using assms by (auto simp: game_inv_def isover_def)
  from ai_eval_open_move[OF this, of "game_ai g" k]
  obtain s r c a' where e: "ai_eval (game_ai g) (game_board g) k = Inr ((s, Some (r, c)), a')"
      and rc: "(r, c) \<in> set (get_empty_sqrs ROW COL (game_board g))" and pl: "player a' = player (game_ai g)"
    by auto
  have "game_inv (g\<lparr>game_ai := a'\<rparr>)" using assms pl by (simp add: game_inv_def isover_def)
  then have "game_inv (move_and_check (g\<lparr>game_ai := a'\<rparr>) r c)"
    using move_and_check_inv rc by simp
  then show ?thesis using True e by (simp add: ai_turn_def)
next
  case False
  then have "ai_turn g k = Inr g" unfolding ai_turn_def by (rule if_not_P)
  then show ?thesis using assms by simp
qed

lemma loop_iteration_inv:
  assumes "game_inv g" and "0 < sq" and "list_all (in_window sq) es"
    and "handle_events sq g es = Some g1"
  shows "\<exists>g'. loop_iteration sq g es k = Some (Inr g') \<and> game_inv g'"
  using ai_turn_inv[OF handle_events_inv[OF assms], of k] assms(4)
  by (simp add: loop_iteration_def)

lemma reachable_game_inv: "reachable g \<Longrightarrow> game_inv g"
proof (induction rule: reachable.induct)
  case init
  then show ?case by (rule new_game_inv)
next
  case (iter g sq es k g')
  obtain g1 where h: "handle_events sq g es = Some g1"
    using iter.hyps(5) by (cases "handle_events sq g es") (simp_all add: loop_iteration_def)
  from loop_iteration_inv[OF iter.IH iter.hyps(3,4) h, of k] iter.hyps(5) show ?case by simp
qed


lemma game_player_move_and_check [simp]:
  "game_player (move_and_check g r c) = (case game_player g of P1 \<Rightarrow> P2 | P2 \<Rightarrow> P1)"
  by (simp add: move_and_check_def make_move_def next_turn_def Let_def)

section \<open>Properties\<close>

text \<open>
  C11. In every state a round of \<open>main\<close> can reach, the board's counter agrees
  with its squares, the players have marked in turn with player 1 first (player 1
  has one mark more exactly when player 2 is to move), and a running game is not
  over: the click handler's \<open>empty_sqr\<close> test and \<open>eval\<close>'s choice of an open
  square keep \<open>mark_sqr\<close> off occupied squares.
\<close>

theorem reachable_game_consistent:
  assumes "reachable g"
  shows "wf_board ROW COL (game_board g)
       \<and> count_marks (game_board g) P1 = count_marks (game_board g) P2 + (if game_player g = P2 then 1 else 0)
       \<and> (running g \<longrightarrow> \<not> isover g)"
  using reachable_game_inv[OF assms] by (simp add: game_inv_def)

text \<open>The state after one iteration with the events \<open>0\<close> (random level) and a
  click on the top-left square, and the computer's random reply.\<close>

lemma sample_iteration:
  "0 < (1::nat)" "list_all (in_window 1) [Key_0, Click 0 0]" "\<not> isover new_game"
  "\<exists>g'. loop_iteration 1 new_game [Key_0, Click 0 0] 0 = Some (Inr g')"
proof -
  show "0 < (1::nat)" by simp
  show "list_all (in_window 1) [Key_0, Click 0 0]" by (simp add: in_window_def ROW_def COL_def)
  show "\<not> isover new_game" unfolding isover_def new_game_def by code_simp
  have "\<not> Option.is_none (handle_events 1 new_game [Key_0, Click 0 0])" by code_simp
  then obtain g1 where "handle_events 1 new_game [Key_0, Click 0 0] = Some g1" by (cases "handle_events 1 new_game [Key_0, Click 0 0]") auto
  with loop_iteration_inv[OF new_game_inv \<open>0 < 1\<close> \<open>list_all (in_window 1) [Key_0, Click 0 0]\<close>]
  show "\<exists>g'. loop_iteration 1 new_game [Key_0, Click 0 0] 0 = Some (Inr g')" by blast
qed

theorem reachable_game_consistent_witness:
  "\<exists>g'. loop_iteration 1 new_game [Key_0, Click 0 0] 0 = Some (Inr g') \<and> reachable g'
        \<and> wf_board ROW COL (game_board g')
        \<and> count_marks (game_board g') P1 = count_marks (game_board g') P2 + (if game_player g' = P2 then 1 else 0)"
proof -
  obtain g' where e: "loop_iteration 1 new_game [Key_0, Click 0 0] 0 = Some (Inr g')"
    using sample_iteration(4) by blast
  have r: "reachable g'"
    using reachable.iter[OF reachable.init sample_iteration(3,1,2) e] .
  show ?thesis using e r reachable_game_consistent[OF r] by blast
qed

text \<open>
  C12. An iteration of the game loop from a reachable state never ends in an
  exception: the computer is asked to move only while the game runs, and then
  \<open>eval\<close> neither raises (\<open>randrange\<close> on an empty range) nor returns \<open>None\<close>.
\<close>

theorem loop_iteration_never_fails:
  assumes "reachable g" and "0 < sq" and "list_all (in_window sq) es"
  shows "loop_iteration sq g es k \<noteq> Some (Inl e)"
proof (cases "handle_events sq g es")
  case None
  then show ?thesis by (simp add: loop_iteration_def)
next
  case (Some g1)
  from loop_iteration_inv[OF reachable_game_inv[OF assms(1)] assms(2,3) Some, of k] show ?thesis by auto
qed

theorem loop_iteration_never_fails_witness:
  "reachable new_game \<and> 0 < (1::nat) \<and> list_all (in_window 1) [Key_0, Click 0 0]
   \<and> loop_iteration 1 new_game [Key_0, Click 0 0] 0 \<noteq> Some (Inl (Eval_error ValueError))"
  using loop_iteration_never_fails[OF reachable.init sample_iteration(1,2)] reachable.init sample_iteration(1,2)
  by blast

text \<open>
  C13. Against the computer the human always has the move between iterations: after
  an iteration in \<open>'ai'\<close> mode that leaves the game running, player 1 is to move,
  because the computer (player 2) answers within the same iteration.
\<close>

theorem ai_mode_human_to_move:
  assumes "reachable g" and "0 < sq" and "list_all (in_window sq) es"
    and "loop_iteration sq g es k = Some (Inr g')" and "gamemode g' = AI_mode" and "running g'"
  shows "game_player g' = P1"
proof -
  obtain g1 where h: "handle_events sq g es = Some g1" and t: "ai_turn g1 k = Inr g'"
    using assms(4) by (cases "handle_events sq g es") (auto simp: loop_iteration_def)
  have P2: "player (game_ai g1) = P2"
    using handle_events_inv[OF reachable_game_inv[OF assms(1)] assms(2,3) h] by (simp add: game_inv_def)
  show ?thesis
  proof (cases "gamemode g1 = AI_mode \<and> game_player g1 = player (game_ai g1) \<and> running g1")
    case True
    then have p: "game_player g1 = P2" using P2 by simp
    from t True have "\<exists>s r c a'. g' = move_and_check (g1\<lparr>game_ai := a'\<rparr>) r c"
      by (auto simp: ai_turn_def split: sum.splits prod.splits option.splits)
    then show ?thesis using p by auto
  next
    case False
    then have "ai_turn g1 k = Inr g1" unfolding ai_turn_def by (rule if_not_P)
    with t have "g' = g1" by simp
    with False assms(5,6) P2 show ?thesis by (cases "game_player g1") simp_all
  qed
qed

theorem ai_mode_human_to_move_witness:
  "\<exists>g'. reachable new_game \<and> 0 < (1::nat) \<and> list_all (in_window 1) [Key_0, Click 0 0]
        \<and> loop_iteration 1 new_game [Key_0, Click 0 0] 0 = Some (Inr g')
        \<and> gamemode g' = AI_mode \<and> running g' \<and> game_player g' = P1"
proof -
  obtain g' where e: "loop_iteration 1 new_game [Key_0, Click 0 0] 0 = Some (Inr g')"
    using sample_iteration(4) by blast
  have "gamemode (projr (the (loop_iteration 1 new_game [Key_0, Click 0 0] 0))) = AI_mode"
    "running (projr (the (loop_iteration 1 new_game [Key_0, Click 0 0] 0)))"
    by code_simp+
  then have m: "gamemode g' = AI_mode" "running g'" using e by simp_all
  show ?thesis
    using ai_mode_human_to_move[OF reachable.init sample_iteration(1,2) e m] reachable.init sample_iteration(1,2) e m
    by blast
qed

end
