(* ===== verification/ABGame.thy ===== *)
theory ABGame
  imports AlphaBeta Game
begin

text \<open>
  The class \<open>Game\<close> of \<open>src/AI/Alpha_beta.py\<close> and its \<open>main\<close>: five rounds,
  each a fresh \<open>Game()\<close> played by \<open>while not game.isover()\<close>, whose iterations
  handle the pygame events (keys \<open>g\<close>, \<open>r\<close>, \<open>0\<close>, \<open>1\<close>, \<open>2\<close>, clicks,
  quit) and then let the alpha-beta \<open>AI\<close> move. The events, the game modes, the
  errors of an iteration and the clicks inside the window are those of theory
  \<open>Game\<close>; this game has no node statistics of its own (\<open>reset\<close> is just
  \<open>__init__\<close>). The rounds of \<open>main\<close> are in theory \<open>Rounds\<close>.
\<close>

section \<open>Data and operations\<close>

record ab_game =
  abg_board :: board
  abg_ai :: ab_ai
  abg_player :: player
  abg_gamemode :: gamemode
  abg_running :: bool

definition new_ab_game :: ab_game where
  "new_ab_game = \<lparr>abg_board = new_board, abg_ai = new_ab_ai, abg_player = P1, abg_gamemode = AI_mode,
                  abg_running = True\<rparr>"

definition ab_next_turn :: "ab_game \<Rightarrow> ab_game" where
  "ab_next_turn g = g\<lparr>abg_player := (case abg_player g of P1 \<Rightarrow> P2 | P2 \<Rightarrow> P1)\<rparr>"

definition ab_make_move :: "ab_game \<Rightarrow> nat \<Rightarrow> nat \<Rightarrow> ab_game" where
  "ab_make_move g row col = ab_next_turn (g\<lparr>abg_board := mark_sqr (abg_board g) row col (abg_player g)\<rparr>)"

definition ab_change_gamemode :: "ab_game \<Rightarrow> ab_game" where
  "ab_change_gamemode g = g\<lparr>abg_gamemode := (if abg_gamemode g = PvP then AI_mode else PvP)\<rparr>"

definition ab_isover :: "ab_game \<Rightarrow> bool" where
  "ab_isover g \<longleftrightarrow> final_state (abg_board g) \<noteq> None \<or> isfull (abg_board g)"

text \<open>A move, then \<open>if game.isover(): game.running = False\<close>.\<close>

definition ab_move_and_check :: "ab_game \<Rightarrow> nat \<Rightarrow> nat \<Rightarrow> ab_game" where
  "ab_move_and_check g row col =
     (let g' = ab_make_move g row col in if ab_isover g' then g'\<lparr>abg_running := False\<rparr> else g')"

text \<open>The \<open>for event in pygame.event.get()\<close> loop; \<open>reset\<close> is
  \<open>self.__init__()\<close>, after which the loop's \<open>board\<close> and \<open>ai\<close> are rebound to
  the new game's.\<close>

fun ab_handle_events :: "nat \<Rightarrow> ab_game \<Rightarrow> event list \<Rightarrow> ab_game option" where
  "ab_handle_events sq g [] = Some g"
| "ab_handle_events sq g (Quit # es) = None"
| "ab_handle_events sq g (Key_g # es) = ab_handle_events sq (ab_change_gamemode g) es"
| "ab_handle_events sq g (Key_r # es) = ab_handle_events sq new_ab_game es"
| "ab_handle_events sq g (Key_0 # es) = ab_handle_events sq (g\<lparr>abg_ai := (abg_ai g)\<lparr>ab_level := 0\<rparr>\<rparr>) es"
| "ab_handle_events sq g (Key_1 # es) = ab_handle_events sq (g\<lparr>abg_ai := (abg_ai g)\<lparr>ab_level := 1\<rparr>\<rparr>) es"
| "ab_handle_events sq g (Key_2 # es) = ab_handle_events sq (g\<lparr>abg_ai := (abg_ai g)\<lparr>ab_level := 2\<rparr>\<rparr>) es"
| "ab_handle_events sq g (Click x y # es) =
     (let row = y div sq; col = x div sq
      in ab_handle_events sq
           (if empty_sqr (abg_board g) row col \<and> abg_running g then ab_move_and_check g row col else g) es)"

text \<open>The computer's turn, with the random number \<open>k\<close> of level 0.\<close>

definition ab_ai_turn :: "ab_game \<Rightarrow> nat \<Rightarrow> loop_error + ab_game" where
  "ab_ai_turn g k =
     (if abg_gamemode g = AI_mode \<and> abg_player g = ab_player (abg_ai g) \<and> abg_running g then
        (case ab_eval (abg_ai g) (abg_board g) k of
           Inl e \<Rightarrow> Inl (Eval_error e)
         | Inr ((_, None), a') \<Rightarrow> Inl Unpack_none
         | Inr ((_, Some (row, col)), a') \<Rightarrow> Inr (ab_move_and_check (g\<lparr>abg_ai := a'\<rparr>) row col))
      else Inr g)"

definition ab_loop_iteration :: "nat \<Rightarrow> ab_game \<Rightarrow> event list \<Rightarrow> nat \<Rightarrow> (loop_error + ab_game) option" where
  "ab_loop_iteration sq g es k = map_option (\<lambda>g'. ab_ai_turn g' k) (ab_handle_events sq g es)"

text \<open>The states of a round: a fresh game, and what an iteration of
  \<open>while not game.isover()\<close> makes of a reachable state that is not over.\<close>

inductive ab_reachable :: "ab_game \<Rightarrow> bool" where
  init: "ab_reachable new_ab_game"
| iter: "ab_reachable g \<Longrightarrow> \<not> ab_isover g \<Longrightarrow> 0 < sq \<Longrightarrow> list_all (in_window sq) es \<Longrightarrow>
         ab_loop_iteration sq g es k = Some (Inr g') \<Longrightarrow> ab_reachable g'"

text \<open>The invariant of a round, as in theory \<open>Game\<close>.\<close>

definition ab_game_inv :: "ab_game \<Rightarrow> bool" where
  "ab_game_inv g \<longleftrightarrow> wf_board ROW COL (abg_board g) \<and> (abg_running g \<longrightarrow> \<not> ab_isover g)
     \<and> count_marks (abg_board g) P1 = count_marks (abg_board g) P2 + (if abg_player g = P2 then 1 else 0)
     \<and> ab_player (abg_ai g) = P2"


section \<open>Lemmas\<close>

lemma ab_move_and_check_inv:
  assumes "ab_game_inv g" and "(r, c) \<in> set (get_empty_sqrs ROW COL (abg_board g))"
  shows "ab_game_inv (ab_move_and_check g r c)"
proof -
  have wf: "wf_board ROW COL (mark_sqr (abg_board g) r c (abg_player g))"
    using assms wf_board_mark_sqr unfolding ab_game_inv_def by blast
  have cnt: "count_marks (mark_sqr (abg_board g) r c (abg_player g)) P1 =
        count_marks (mark_sqr (abg_board g) r c (abg_player g)) P2
        + (if abg_player g = P1 then 1 else 0)"
    using assms count_marks_mark_sqr[OF assms(2)] unfolding ab_game_inv_def
    by (cases "abg_player g") simp_all
  show ?thesis
    using wf cnt assms(1)
    by (cases "abg_player g")
       (auto simp: ab_game_inv_def ab_move_and_check_def ab_make_move_def ab_next_turn_def ab_isover_def Let_def)
qed

lemma new_ab_game_inv: "ab_game_inv new_ab_game"
  unfolding ab_game_inv_def new_ab_game_def ab_isover_def count_marks_def new_ab_ai_def by code_simp

lemma ab_handle_events_inv:
  assumes "ab_game_inv g" and "0 < sq" and "list_all (in_window sq) es" and "ab_handle_events sq g es = Some g'"
  shows "ab_game_inv g'"
  using assms
proof (induction sq g es rule: ab_handle_events.induct)
  case (8 sq g x y es)
  let ?g1 = "if empty_sqr (abg_board g) (y div sq) (x div sq) \<and> abg_running g
             then ab_move_and_check g (y div sq) (x div sq) else g"
  have "x < COL * sq" "y < ROW * sq" using "8.prems"(3) by (simp_all add: in_window_def)
  then have "(y div sq, x div sq) \<in> set (get_empty_sqrs ROW COL (abg_board g))"
    if "empty_sqr (abg_board g) (y div sq) (x div sq)"
    using that click_in_grid[OF "8.prems"(2)] empty_sqr_open by blast
  then have "ab_game_inv ?g1" using "8.prems"(1) ab_move_and_check_inv by auto
  then show ?case using "8.IH"[of "y div sq" "x div sq"] "8.prems"(2-4) by (simp add: Let_def)
next
  case (4 sq g es)
  then show ?case using new_ab_game_inv by simp
qed (auto simp: ab_game_inv_def ab_change_gamemode_def ab_isover_def)

text \<open>On a well-formed board where the game is not over, \<open>eval\<close> returns an open
  square at every level and leaves \<open>self.player\<close> alone.\<close>

lemma ab_eval_open_move:
  assumes "wf_board ROW COL b" and "final_state b = None" and "\<not> isfull b"
  shows "\<exists>s x a'. ab_eval a b k = Inr ((s, Some x), a') \<and> x \<in> set (get_empty_sqrs ROW COL b)
           \<and> ab_player a' = ab_player a"
proof (cases "ab_level a = 0")
  case True
  let ?es = "get_empty_sqrs ROW COL b"
  have ne: "?es \<noteq> []" using assms(1,3) isfull_iff_no_empty by blast
  then have mem: "?es ! (k mod length ?es) \<in> set ?es" by simp
  have "ab_eval a b k = Inr ((Random, Some (?es ! (k mod length ?es))), a)"
    using True ne by (simp add: ab_eval_def rnd_def Let_def)
  with mem show ?thesis by blast
next
  case False
  obtain x where x: "snd (fst (minimax (ab_player a) b False (ab_nodes_expanded a))) = Some x"
      "x \<in> set (get_empty_sqrs ROW COL b)"
    using minimax_move_open[OF assms] by blast
  then have "snd (fst (minimax_alpha_beta (ab_player a) b False NegInf PosInf (ab_nodes_expanded a))) = Some x"
    using ab_top_equiv by simp
  then obtain v n where "minimax_alpha_beta (ab_player a) b False NegInf PosInf (ab_nodes_expanded a) = ((v, Some x), n)"
    by (metis prod.collapse)
  then have "ab_eval a b k = Inr ((Score v, Some x), a\<lparr>ab_nodes_expanded := n\<rparr>)"
    using False by (simp add: ab_eval_def)
  with x(2) show ?thesis by fastforce
qed

lemma ab_ai_turn_inv:
  assumes "ab_game_inv g"
  shows "\<exists>g'. ab_ai_turn g k = Inr g' \<and> ab_game_inv g'"
proof (cases "abg_gamemode g = AI_mode \<and> abg_player g = ab_player (abg_ai g) \<and> abg_running g")
  case True
  then have "wf_board ROW COL (abg_board g)" "final_state (abg_board g) = None" "\<not> isfull (abg_board g)"
    using assms by (auto simp: ab_game_inv_def ab_isover_def)
  from ab_eval_open_move[OF this, of "abg_ai g" k]
  obtain s r c a' where e: "ab_eval (abg_ai g) (abg_board g) k = Inr ((s, Some (r, c)), a')"
      and rc: "(r, c) \<in> set (get_empty_sqrs ROW COL (abg_board g))" and pl: "ab_player a' = ab_player (abg_ai g)"
    by auto
  have "ab_game_inv (g\<lparr>abg_ai := a'\<rparr>)" using assms pl by (simp add: ab_game_inv_def ab_isover_def)
  then have "ab_game_inv (ab_move_and_check (g\<lparr>abg_ai := a'\<rparr>) r c)"
    using ab_move_and_check_inv rc by simp
  then show ?thesis using True e by (simp add: ab_ai_turn_def)
next
  case False
  then have "ab_ai_turn g k = Inr g" unfolding ab_ai_turn_def by (rule if_not_P)
  then show ?thesis using assms by simp
qed

lemma ab_loop_iteration_inv:
  assumes "ab_game_inv g" and "0 < sq" and "list_all (in_window sq) es"
    and "ab_handle_events sq g es = Some g1"
  shows "\<exists>g'. ab_loop_iteration sq g es k = Some (Inr g') \<and> ab_game_inv g'"
  using ab_ai_turn_inv[OF ab_handle_events_inv[OF assms], of k] assms(4)
  by (simp add: ab_loop_iteration_def)

lemma ab_reachable_inv: "ab_reachable g \<Longrightarrow> ab_game_inv g"
proof (induction rule: ab_reachable.induct)
  case init
  then show ?case by (rule new_ab_game_inv)
next
  case (iter g sq es k g')
  obtain g1 where h: "ab_handle_events sq g es = Some g1"
    using iter.hyps(5) by (cases "ab_handle_events sq g es") (simp_all add: ab_loop_iteration_def)
  from ab_loop_iteration_inv[OF iter.IH iter.hyps(3,4) h, of k] iter.hyps(5) show ?case by simp
qed


section \<open>Properties\<close>

text \<open>In every state a round of \<open>Alpha_beta.py\<close>'s \<open>main\<close> can reach, the
  board's counter agrees with its squares, the players have marked in turn with
  player 1 first, and a running game is not over.\<close>

theorem ab_reachable_consistent:
  assumes "ab_reachable g"
  shows "wf_board ROW COL (abg_board g)
       \<and> count_marks (abg_board g) P1 = count_marks (abg_board g) P2 + (if abg_player g = P2 then 1 else 0)
       \<and> (abg_running g \<longrightarrow> \<not> ab_isover g)"
  using ab_reachable_inv[OF assms] by (simp add: ab_game_inv_def)

theorem ab_reachable_consistent_witness:
  "ab_reachable new_ab_game
   \<and> wf_board ROW COL (abg_board new_ab_game)
   \<and> count_marks (abg_board new_ab_game) P1 = count_marks (abg_board new_ab_game) P2 + (if abg_player new_ab_game = P2 then 1 else 0)
   \<and> abg_running new_ab_game \<and> \<not> ab_isover new_ab_game"
proof -
  have "abg_running new_ab_game" by (simp add: new_ab_game_def)
  then show ?thesis using ab_reachable.init ab_reachable_consistent[OF ab_reachable.init] by blast
qed

text \<open>In a round, an iteration of the loop on a game that is not over, with
  clicks inside the window, never raises: \<open>eval\<close> at every level returns an open
  square, so neither \<open>rnd\<close>'s \<open>randrange\<close> nor \<open>row, col = ...\<close> fails; only a
  quit event ends the program.\<close>

theorem ab_loop_iteration_never_fails:
  assumes "ab_reachable g" and "0 < sq" and "list_all (in_window sq) es"
  shows "ab_loop_iteration sq g es k = None \<or> (\<exists>g'. ab_loop_iteration sq g es k = Some (Inr g'))"
proof (cases "ab_handle_events sq g es")
  case None
  then show ?thesis by (simp add: ab_loop_iteration_def)
next
  case (Some g1)
  then show ?thesis using ab_loop_iteration_inv[OF ab_reachable_inv[OF assms(1)] assms(2,3) Some] by blast
qed

theorem ab_loop_iteration_never_fails_witness:
  "ab_reachable new_ab_game \<and> (0::nat) < 100 \<and> list_all (in_window 100) [Key_0, Click 150 150] \<and>
   (ab_loop_iteration 100 new_ab_game [Key_0, Click 150 150] 3 = None \<or>
    (\<exists>g'. ab_loop_iteration 100 new_ab_game [Key_0, Click 150 150] 3 = Some (Inr g')))"
proof -
  have w: "list_all (in_window 100) [Key_0, Click 150 150]" by (simp add: in_window_def ROW_def COL_def)
  show ?thesis using ab_reachable.init w ab_loop_iteration_never_fails[OF ab_reachable.init _ w, of 3] by simp
qed

text \<open>The instructions at the top of \<open>Alpha_beta.py\<close> say that key \<open>1\<close>
  selects the minimax algorithm and key \<open>2\<close> alpha-beta, but \<open>eval\<close> only
  distinguishes level 0: at levels 1 and 2 it runs the same alpha-beta search,
  with the same move, score and node count.\<close>

theorem ab_eval_levels_1_2_same:
  "ab_eval (a\<lparr>ab_level := 1\<rparr>) b k =
   map_sum id (\<lambda>(r, a'). (r, a'\<lparr>ab_level := 1\<rparr>)) (ab_eval (a\<lparr>ab_level := 2\<rparr>) b k)"
  by (simp add: ab_eval_def split: prod.split)

end
