(* ===== verification/Rounds.thy ===== *)
theory Rounds
  imports Complex_Main ABGame
begin

text \<open>
  The function \<open>main\<close> of \<open>src/AI/tictactoe.py\<close> and of \<open>src/AI/Alpha_beta.py\<close>:
  \<open>num_rounds\<close> rounds, each a fresh \<open>Game()\<close> played by
  \<open>while not game.isover()\<close>; after a round the AI's \<open>nodes_expanded\<close> is added to
  \<open>total_nodes_expanded\<close> and the winner is printed; at the end the average of the
  nodes over the rounds is printed. The two functions are the same code over
  different games, so they are one definition, \<open>main_loop\<close>, over the record
  \<open>loop_ops\<close> of what \<open>main\<close> uses of a game, instantiated by \<open>tt_ops\<close> and
  \<open>ab_ops\<close>.

  The pygame events come as one stream: a list of iterations, each the batch of
  events of \<open>pygame.event.get()\<close> and the random number of that iteration's
  \<open>eval\<close>. A round that ends leaves the rest of the stream to the next round; a
  stream that runs out inside a round leaves the program waiting for events. The
  elapsed time (of a busy loop) and the memory reading are clock and operating
  system values that nothing else reads; they are not modelled.
\<close>

section \<open>The round loop over a game interface\<close>

record 'g loop_ops =
  new_op :: 'g
  over_op :: "'g \<Rightarrow> bool"
  iter_op :: "'g \<Rightarrow> event list \<Rightarrow> nat \<Rightarrow> (loop_error + 'g) option"
  nodes_op :: "'g \<Rightarrow> nat"
  winner_op :: "'g \<Rightarrow> sq"

type_synonym iterations = "(event list \<times> nat) list"

text \<open>How a round ends: the game is over (with the events left for the next round),
  the events ran out before, \<open>sys.exit()\<close> after a quit event, or an exception.\<close>

datatype 'g round_end = Over 'g iterations | Waiting 'g | Exited | Raised loop_error

fun run_round :: "'g loop_ops \<Rightarrow> 'g \<Rightarrow> iterations \<Rightarrow> 'g round_end" where
  "run_round ops g [] = (if over_op ops g then Over g [] else Waiting g)"
| "run_round ops g ((es, k) # its) =
     (if over_op ops g then Over g ((es, k) # its)
      else case iter_op ops g es k of
             None \<Rightarrow> Exited
           | Some (Inl e) \<Rightarrow> Raised e
           | Some (Inr g') \<Rightarrow> run_round ops g' its)"

text \<open>The message printed for \<open>winner = game.board.final_state(show=True)\<close>.\<close>

definition winner_message :: "sq \<Rightarrow> string" where
  "winner_message w =
     (if w = Some P1 then ''Player 1 wins!''
      else if w = Some P2 then ''Player 2 (or AI) wins!''
      else ''It's a draw!'')"

text \<open>How \<open>main\<close> ends: after all rounds with the total of the nodes and the
  printed lines, or inside a round.\<close>

datatype main_end = Main_done nat "string list" | Main_wait "string list" | Main_exit "string list"
  | Main_raise loop_error

text \<open>\<open>for _ in range(num_rounds)\<close>, with the total and the printed lines as
  accumulators; \<open>ai.nodes_expanded = 0\<close> after a round is not modelled, as the
  next round builds a new \<open>Game()\<close> and the old AI is never read again.\<close>

fun main_loop :: "'g loop_ops \<Rightarrow> nat \<Rightarrow> iterations \<Rightarrow> nat \<Rightarrow> string list \<Rightarrow> main_end" where
  "main_loop ops 0 its tot out = Main_done tot out"
| "main_loop ops (Suc n) its tot out =
     (case run_round ops (new_op ops) its of
        Over g rest \<Rightarrow>
          main_loop ops n rest (tot + nodes_op ops g) (out @ [''Game Over!'', winner_message (winner_op ops g)])
      | Waiting g \<Rightarrow> Main_wait out
      | Exited \<Rightarrow> Main_exit out
      | Raised e \<Rightarrow> Main_raise e)"

text \<open>\<open>avg_nodes_expanded = total_nodes_expanded / num_rounds\<close>: Python's true
  division, printed as the nearest float to this rational.\<close>

definition avg_nodes :: "nat \<Rightarrow> nat \<Rightarrow> rat" where
  "avg_nodes tot num_rounds = of_nat tot / of_nat num_rounds"

section \<open>The contract of a game\<close>

text \<open>
  What \<open>main\<close> needs of a game: an invariant \<open>I\<close> of the states of a round that
  every iteration on a game that is not over keeps, for batches of events
  satisfying \<open>ok\<close>. Then a round only ends in a state of \<open>I\<close>, and the rounds of
  \<open>main\<close> are a sequence of such states.
\<close>

definition keeps :: "'g loop_ops \<Rightarrow> ('g \<Rightarrow> bool) \<Rightarrow> (event list \<Rightarrow> bool) \<Rightarrow> bool" where
  "keeps ops I ok \<longleftrightarrow> (\<forall>g es k g'. I g \<and> \<not> over_op ops g \<and> ok es \<and> iter_op ops g es k = Some (Inr g') \<longrightarrow> I g')"

definition never_raises :: "'g loop_ops \<Rightarrow> ('g \<Rightarrow> bool) \<Rightarrow> (event list \<Rightarrow> bool) \<Rightarrow> bool" where
  "never_raises ops I ok \<longleftrightarrow> (\<forall>g es k e. I g \<and> \<not> over_op ops g \<and> ok es \<longrightarrow> iter_op ops g es k \<noteq> Some (Inl e))"

abbreviation ok_its :: "(event list \<Rightarrow> bool) \<Rightarrow> iterations \<Rightarrow> bool" where
  "ok_its ok its \<equiv> list_all (\<lambda>(es, k). ok es) its"

text \<open>The rounds played on a stream: \<open>rounds_played ops its gs rest\<close> when the
  rounds started one after the other on \<open>its\<close> end in the games \<open>gs\<close>, in
  order, and leave the events \<open>rest\<close>. It says nothing of totals or output.\<close>

inductive rounds_played :: "'g loop_ops \<Rightarrow> iterations \<Rightarrow> 'g list \<Rightarrow> iterations \<Rightarrow> bool" for ops where
  none: "rounds_played ops its [] its"
| round: "run_round ops (new_op ops) its = Over g its' \<Longrightarrow> rounds_played ops its' gs rest \<Longrightarrow>
          rounds_played ops its (g # gs) rest"

section \<open>The two programs\<close>

definition tt_ops :: "nat \<Rightarrow> game loop_ops" where
  "tt_ops sq = \<lparr>new_op = new_game, over_op = isover, iter_op = loop_iteration sq,
                nodes_op = \<lambda>g. nodes_expanded (game_ai g), winner_op = \<lambda>g. final_state (game_board g)\<rparr>"

definition tt_main :: "nat \<Rightarrow> iterations \<Rightarrow> main_end" where
  "tt_main sq its = main_loop (tt_ops sq) 2 its 0 []"

definition ab_ops :: "nat \<Rightarrow> ab_game loop_ops" where
  "ab_ops sq = \<lparr>new_op = new_ab_game, over_op = ab_isover, iter_op = ab_loop_iteration sq,
                nodes_op = \<lambda>g. ab_nodes_expanded (abg_ai g), winner_op = \<lambda>g. final_state (abg_board g)\<rparr>"

definition ab_main :: "nat \<Rightarrow> iterations \<Rightarrow> main_end" where
  "ab_main sq its = main_loop (ab_ops sq) 5 its 0 []"


text \<open>A stream of iterations for \<open>sq = 100\<close>: in each round the human clicks
  (0,0), (1,0), (0,1), (1,1), (0,2) in one batch, marking for both players, and
  player 1 completes the top row before the computer's turn.\<close>

definition top_row_round :: "event list" where
  "top_row_round = [Click 0 0, Click 0 100, Click 100 0, Click 100 100, Click 200 0]"

section \<open>Lemmas on the round loop\<close>

lemma keepsD:
  "keeps ops I ok \<Longrightarrow> I g \<Longrightarrow> \<not> over_op ops g \<Longrightarrow> ok es \<Longrightarrow> iter_op ops g es k = Some (Inr g') \<Longrightarrow> I g'"
  unfolding keeps_def by blast

lemma never_raisesD:
  "never_raises ops I ok \<Longrightarrow> I g \<Longrightarrow> \<not> over_op ops g \<Longrightarrow> ok es \<Longrightarrow> iter_op ops g es k \<noteq> Some (Inl e)"
  unfolding never_raises_def by blast

lemma run_round_Over:
  assumes "keeps ops I ok" and "I g" and "ok_its ok its" and "run_round ops g its = Over g' rest"
  shows "I g' \<and> over_op ops g' \<and> ok_its ok rest"
  using assms(2-)
proof (induction its arbitrary: g)
  case (Cons it its)
  obtain es k where it: "it = (es, k)" by (cases it)
  show ?case
  proof (cases "over_op ops g")
    case False
    then obtain g1 where i: "iter_op ops g es k = Some (Inr g1)" and r: "run_round ops g1 its = Over g' rest"
      using Cons.prems(3) it by (auto split: option.splits sum.splits)
    have "I g1" using keepsD[OF assms(1) Cons.prems(1) False _ i] Cons.prems(2) it by simp
    then show ?thesis using Cons.IH r Cons.prems(2) it by simp
  qed (use Cons.prems it in auto)
qed (auto split: if_splits)

lemma run_round_not_Raised:
  assumes "keeps ops I ok" and "never_raises ops I ok" and "I g" and "ok_its ok its"
  shows "run_round ops g its \<noteq> Raised e"
  using assms(3,4)
proof (induction its arbitrary: g)
  case (Cons it its)
  obtain es k where it: "it = (es, k)" by (cases it)
  have oes: "ok es" using Cons.prems(2) it by simp
  show ?case
  proof (cases "over_op ops g")
    case False
    show ?thesis
    proof (cases "iter_op ops g es k")
      case (Some r)
      show ?thesis
      proof (cases r)
        case (Inl e')
        then show ?thesis using never_raisesD[OF assms(2) Cons.prems(1) False oes] Some by simp
      next
        case (Inr g1)
        have "I g1" using keepsD[OF assms(1) Cons.prems(1) False oes] Some Inr by simp
        then show ?thesis using Cons.IH Cons.prems(2) False Some Inr it by simp
      qed
    qed (use False it in simp)
  qed (use it in simp)
qed simp

text \<open>The rounds of \<open>main\<close>: when it gets through all of them, its total and its
  printed lines are those of the games the rounds played on the stream ended in,
  which are final states of the invariant; and it never raises.\<close>

lemma main_loop_Main_done:
  assumes "keeps ops I ok" and "I (new_op ops)" and "ok_its ok its"
    and "main_loop ops n its tot out = Main_done t out'"
  shows "\<exists>gs rest. rounds_played ops its gs rest \<and> length gs = n \<and> list_all (\<lambda>g. I g \<and> over_op ops g) gs
           \<and> t = tot + sum_list (map (nodes_op ops) gs)
           \<and> out' = out @ concat (map (\<lambda>g. [''Game Over!'', winner_message (winner_op ops g)]) gs)"
  using assms(3,4)
proof (induction n arbitrary: its tot out)
  case 0
  then show ?case by (auto intro: rounds_played.none)
next
  case (Suc n)
  obtain g rest where r: "run_round ops (new_op ops) its = Over g rest"
    using Suc.prems(2) by (auto split: round_end.splits)
  have g: "I g \<and> over_op ops g \<and> ok_its ok rest" using run_round_Over[OF assms(1,2) Suc.prems(1) r] .
  have m: "main_loop ops n rest (tot + nodes_op ops g) (out @ [''Game Over!'', winner_message (winner_op ops g)])
           = Main_done t out'"
    using Suc.prems(2) r by simp
  obtain gs rest' where gs: "rounds_played ops rest gs rest'" "length gs = n" "list_all (\<lambda>g. I g \<and> over_op ops g) gs"
      "t = (tot + nodes_op ops g) + sum_list (map (nodes_op ops) gs)"
      "out' = (out @ [''Game Over!'', winner_message (winner_op ops g)])
               @ concat (map (\<lambda>g. [''Game Over!'', winner_message (winner_op ops g)]) gs)"
    using Suc.IH[of rest, OF _ m] g by blast
  show ?case using gs g rounds_played.round[OF r gs(1)] by (intro exI[of _ "g # gs"] exI[of _ rest']) simp
qed

lemma main_loop_not_raise:
  assumes "keeps ops I ok" and "never_raises ops I ok" and "I (new_op ops)" and "ok_its ok its"
  shows "main_loop ops n its tot out \<noteq> Main_raise e"
  using assms(4)
proof (induction n arbitrary: its tot out)
  case (Suc n)
  have nr: "run_round ops (new_op ops) its \<noteq> Raised e"
    using run_round_not_Raised[OF assms(1-3) Suc.prems] .
  show ?case
  proof (cases "run_round ops (new_op ops) its")
    case (Over g rest)
    then have "ok_its ok rest" using run_round_Over[OF assms(1,3) Suc.prems] by blast
    then show ?thesis using Suc.IH Over by simp
  qed (use nr in simp_all)
qed simp



text \<open>A round can always be finished: if from every state of the invariant that is
  not over some batch of events leads to a state of smaller measure, then
  iterations, at most as many as the measure, end the round.\<close>

lemma run_round_finishes:
  assumes "keeps ops I ok"
    and prog: "\<And>g. I g \<Longrightarrow> \<not> over_op ops g \<Longrightarrow> \<exists>es k g'. ok es \<and> iter_op ops g es k = Some (Inr g') \<and> \<mu> g' < \<mu> g"
    and "I g"
  shows "\<exists>its g'. ok_its ok its \<and> length its \<le> \<mu> g \<and> run_round ops g its = Over g' []"
  using assms(3)
proof (induction "\<mu> g" arbitrary: g rule: less_induct)
  case less
  show ?case
  proof (cases "over_op ops g")
    case True
    then show ?thesis by (intro exI[of _ "[]"] exI[of _ g]) simp
  next
    case False
    obtain es k g1 where s: "ok es" "iter_op ops g es k = Some (Inr g1)" "\<mu> g1 < \<mu> g"
      using prog[OF less.prems False] by blast
    have "I g1" using keepsD[OF assms(1) less.prems False s(1,2)] .
    then obtain its g' where "ok_its ok its" "length its \<le> \<mu> g1" "run_round ops g1 its = Over g' []"
      using less.hyps[OF s(3)] by blast
    then show ?thesis using s False by (intro exI[of _ "(es, k) # its"] exI[of _ g']) simp
  qed
qed

section \<open>The two programs' rounds\<close>

lemma tt_keeps: "0 < sq \<Longrightarrow> keeps (tt_ops sq) reachable (list_all (in_window sq))"
  unfolding keeps_def tt_ops_def by (auto intro: reachable.iter)

lemma tt_never_raises: "0 < sq \<Longrightarrow> never_raises (tt_ops sq) reachable (list_all (in_window sq))"
  unfolding never_raises_def tt_ops_def
proof (clarsimp)
  fix g es k e
  assume "0 < sq" "reachable g" "list_all (in_window sq) es" "loop_iteration sq g es k = Some (Inl e)"
  then show False
    using loop_iteration_inv[OF reachable_game_inv[of g], of sq es _ k]
    by (cases "handle_events sq g es") (auto simp: loop_iteration_def)
qed

lemma ab_keeps: "0 < sq \<Longrightarrow> keeps (ab_ops sq) ab_reachable (list_all (in_window sq))"
  unfolding keeps_def ab_ops_def by (auto intro: ab_reachable.iter)

lemma ab_never_raises: "0 < sq \<Longrightarrow> never_raises (ab_ops sq) ab_reachable (list_all (in_window sq))"
  unfolding never_raises_def ab_ops_def
proof (clarsimp)
  fix g es k e
  assume "0 < sq" "ab_reachable g" "list_all (in_window sq) es" "ab_loop_iteration sq g es k = Some (Inl e)"
  then show False
    using ab_loop_iteration_inv[OF ab_reachable_inv[of g], of sq es _ k]
    by (cases "ab_handle_events sq g es") (auto simp: ab_loop_iteration_def)
qed

text \<open>A game of a round that has stopped running is over: \<open>running\<close> is only
  cleared by a move that ends the game, and \<open>reset\<close> starts a running game.\<close>

lemma move_and_check_stopped:
  "running g \<Longrightarrow> \<not> running (move_and_check g r c) \<Longrightarrow> isover (move_and_check g r c)"
  by (auto simp: move_and_check_def make_move_def next_turn_def Let_def isover_def split: if_splits)

lemma handle_events_stopped:
  "(\<not> running g \<longrightarrow> isover g) \<Longrightarrow> handle_events sq g es = Some g' \<Longrightarrow> \<not> running g' \<longrightarrow> isover g'"
proof (induction sq g es rule: handle_events.induct)
  case (8 sq g x y es)
  then show ?case
    using move_and_check_stopped[of g "y div sq" "x div sq"] by (simp add: Let_def split: if_splits)
qed (auto simp: change_gamemode_def isover_def game_reset_def new_game_def)

lemma reachable_stopped: "reachable g \<Longrightarrow> \<not> running g \<Longrightarrow> isover g"
proof (induction rule: reachable.induct)
  case init
  then show ?case by (simp add: new_game_def)
next
  case (iter g sq es k g')
  obtain g1 where h: "handle_events sq g es = Some g1" and t: "ai_turn g1 k = Inr g'"
    using iter.hyps(5) by (cases "handle_events sq g es") (auto simp: loop_iteration_def)
  have s1: "\<not> running g1 \<longrightarrow> isover g1" using handle_events_stopped[OF _ h] iter.IH by blast
  show ?case
  proof (cases "gamemode g1 = AI_mode \<and> game_player g1 = player (game_ai g1) \<and> running g1")
    case True
    then obtain a' r c where "g' = move_and_check (g1\<lparr>game_ai := a'\<rparr>) r c"
      using t by (auto simp: ai_turn_def split: sum.splits prod.splits option.splits)
    then show ?thesis using move_and_check_stopped[of "g1\<lparr>game_ai := a'\<rparr>" r c] True iter.prems by simp
  next
    case False
    then have "ai_turn g1 k = Inr g1" unfolding ai_turn_def by (rule if_not_P)
    then have "g' = g1" using t by simp
    then show ?thesis using s1 iter.prems by simp
  qed
qed

lemma ai_turn_marks:
  "ai_turn g k = Inr g' \<Longrightarrow> marked_sqrs (game_board g) \<le> marked_sqrs (game_board g')"
  by (auto simp: ai_turn_def move_and_check_def make_move_def next_turn_def Let_def
           split: if_splits sum.splits prod.splits option.splits)

text \<open>A well-formed board that is not full has an open square and fewer than nine
  marks.\<close>

lemma open_square_exists:
  assumes "wf_board ROW COL b" and "\<not> isfull b"
  obtains r c where "(r, c) \<in> set (get_empty_sqrs ROW COL b)" "r < ROW" "c < COL" "empty_sqr b r c"
    "marked_sqrs b < 9"
proof -
  have ne: "get_empty_sqrs ROW COL b \<noteq> []" using assms isfull_iff_no_empty by blast
  then obtain r c where rc: "(r, c) \<in> set (get_empty_sqrs ROW COL b)"
    by (metis list.set_intros(1) neq_Nil_conv surj_pair)
  have m: "marked_sqrs b < 9"
    using assms(1) ne by (cases "get_empty_sqrs ROW COL b") (simp_all add: wf_board_def ROW_def COL_def)
  have "r < ROW" "c < COL" "empty_sqr b r c" using rc by (simp_all add: mem_get_empty_sqrs empty_sqr_def)
  then show ?thesis using that[OF rc _ _ _ m] by blast
qed

text \<open>The human can always make progress: on a reachable game that is not over,
  a click on an open square is a move, and the iteration adds at least one mark.\<close>

lemma tt_progress:
  assumes "0 < sq" and "reachable g" and "\<not> isover g"
  shows "\<exists>es k g'. list_all (in_window sq) es \<and> loop_iteration sq g es k = Some (Inr g')
           \<and> 9 - marked_sqrs (game_board g') < 9 - marked_sqrs (game_board g)"
proof -
  have inv: "game_inv g" using reachable_game_inv[OF assms(2)] .
  have run: "running g" using reachable_stopped[OF assms(2)] assms(3) by blast
  have wf: "wf_board ROW COL (game_board g)" using inv by (simp add: game_inv_def)
  have nf: "\<not> isfull (game_board g)" using assms(3) by (simp add: isover_def)
  obtain r c where "(r, c) \<in> set (get_empty_sqrs ROW COL (game_board g))"
    and b: "r < ROW" "c < COL" "empty_sqr (game_board g) r c" and m9: "marked_sqrs (game_board g) < 9"
    by (rule open_square_exists[OF wf nf])
  let ?es = "[Click (c * sq) (r * sq)]"
  have w: "list_all (in_window sq) ?es" using b assms(1) by (simp add: in_window_def)
  have h: "handle_events sq g ?es = Some (move_and_check g r c)" using b run assms(1) by simp
  obtain g' where g': "loop_iteration sq g ?es 0 = Some (Inr g')"
    using loop_iteration_inv[OF inv assms(1) w h, of 0] by blast
  then have "ai_turn (move_and_check g r c) 0 = Inr g'" using h by (simp add: loop_iteration_def)
  moreover have "marked_sqrs (game_board (move_and_check g r c)) = Suc (marked_sqrs (game_board g))"
    by (simp add: move_and_check_def make_move_def next_turn_def Let_def)
  ultimately have "Suc (marked_sqrs (game_board g)) \<le> marked_sqrs (game_board g')"
    using ai_turn_marks by metis
  then show ?thesis using w g' m9 by (intro exI[of _ ?es] exI[of _ 0] exI[of _ g']) simp
qed

text \<open>The same for the rounds of \<open>Alpha_beta.py\<close>.\<close>

lemma ab_move_and_check_stopped:
  "abg_running g \<Longrightarrow> \<not> abg_running (ab_move_and_check g r c) \<Longrightarrow> ab_isover (ab_move_and_check g r c)"
  by (auto simp: ab_move_and_check_def ab_make_move_def ab_next_turn_def Let_def ab_isover_def split: if_splits)

lemma ab_handle_events_stopped:
  "(\<not> abg_running g \<longrightarrow> ab_isover g) \<Longrightarrow> ab_handle_events sq g es = Some g' \<Longrightarrow> \<not> abg_running g' \<longrightarrow> ab_isover g'"
proof (induction sq g es rule: ab_handle_events.induct)
  case (8 sq g x y es)
  then show ?case
    using ab_move_and_check_stopped[of g "y div sq" "x div sq"] by (simp add: Let_def split: if_splits)
qed (auto simp: ab_change_gamemode_def ab_isover_def new_ab_game_def)

lemma ab_reachable_stopped: "ab_reachable g \<Longrightarrow> \<not> abg_running g \<Longrightarrow> ab_isover g"
proof (induction rule: ab_reachable.induct)
  case init
  then show ?case by (simp add: new_ab_game_def)
next
  case (iter g sq es k g')
  obtain g1 where h: "ab_handle_events sq g es = Some g1" and t: "ab_ai_turn g1 k = Inr g'"
    using iter.hyps(5) by (cases "ab_handle_events sq g es") (auto simp: ab_loop_iteration_def)
  have s1: "\<not> abg_running g1 \<longrightarrow> ab_isover g1" using ab_handle_events_stopped[OF _ h] iter.IH by blast
  show ?case
  proof (cases "abg_gamemode g1 = AI_mode \<and> abg_player g1 = ab_player (abg_ai g1) \<and> abg_running g1")
    case True
    then obtain a' r c where "g' = ab_move_and_check (g1\<lparr>abg_ai := a'\<rparr>) r c"
      using t by (auto simp: ab_ai_turn_def split: sum.splits prod.splits option.splits)
    then show ?thesis using ab_move_and_check_stopped[of "g1\<lparr>abg_ai := a'\<rparr>" r c] True iter.prems by simp
  next
    case False
    then have "ab_ai_turn g1 k = Inr g1" unfolding ab_ai_turn_def by (rule if_not_P)
    then have "g' = g1" using t by simp
    then show ?thesis using s1 iter.prems by simp
  qed
qed

lemma ab_ai_turn_marks:
  "ab_ai_turn g k = Inr g' \<Longrightarrow> marked_sqrs (abg_board g) \<le> marked_sqrs (abg_board g')"
  by (auto simp: ab_ai_turn_def ab_move_and_check_def ab_make_move_def ab_next_turn_def Let_def
           split: if_splits sum.splits prod.splits option.splits)

lemma ab_progress:
  assumes "0 < sq" and "ab_reachable g" and "\<not> ab_isover g"
  shows "\<exists>es k g'. list_all (in_window sq) es \<and> ab_loop_iteration sq g es k = Some (Inr g')
           \<and> 9 - marked_sqrs (abg_board g') < 9 - marked_sqrs (abg_board g)"
proof -
  have inv: "ab_game_inv g" using ab_reachable_inv[OF assms(2)] .
  have run: "abg_running g" using ab_reachable_stopped[OF assms(2)] assms(3) by blast
  have wf: "wf_board ROW COL (abg_board g)" using inv by (simp add: ab_game_inv_def)
  have nf: "\<not> isfull (abg_board g)" using assms(3) by (simp add: ab_isover_def)
  obtain r c where "(r, c) \<in> set (get_empty_sqrs ROW COL (abg_board g))"
    and b: "r < ROW" "c < COL" "empty_sqr (abg_board g) r c" and m9: "marked_sqrs (abg_board g) < 9"
    by (rule open_square_exists[OF wf nf])
  let ?es = "[Click (c * sq) (r * sq)]"
  have w: "list_all (in_window sq) ?es" using b assms(1) by (simp add: in_window_def)
  have h: "ab_handle_events sq g ?es = Some (ab_move_and_check g r c)" using b run assms(1) by simp
  obtain g' where g': "ab_loop_iteration sq g ?es 0 = Some (Inr g')"
    using ab_loop_iteration_inv[OF inv assms(1) w h, of 0] by blast
  then have "ab_ai_turn (ab_move_and_check g r c) 0 = Inr g'" using h by (simp add: ab_loop_iteration_def)
  moreover have "marked_sqrs (abg_board (ab_move_and_check g r c)) = Suc (marked_sqrs (abg_board g))"
    by (simp add: ab_move_and_check_def ab_make_move_def ab_next_turn_def Let_def)
  ultimately have "Suc (marked_sqrs (abg_board g)) \<le> marked_sqrs (abg_board g')"
    using ab_ai_turn_marks by metis
  then show ?thesis using w g' m9 by (intro exI[of _ ?es] exI[of _ 0] exI[of _ g']) simp
qed

lemma five_top_row_rounds:
  "ab_main 100 (replicate 5 (top_row_round, 0)) =
   Main_done 0 (concat (replicate 5 [''Game Over!'', ''Player 1 wins!'']))"
  unfolding ab_main_def top_row_round_def by code_simp


section \<open>Properties\<close>

text \<open>
  C36. The rounds of \<open>Alpha_beta.py\<close>'s \<open>main\<close>, with clicks inside the window,
  never raise; and when \<open>main\<close> gets through its five rounds, its total of
  expanded nodes and its printed lines are those of the five games its rounds
  played on the event stream ended in (each a finished reachable game): the sum
  of their AI counters, and for each \<open>Game Over!\<close> followed by the message of
  its \<open>final_state\<close>.
\<close>

theorem ab_main_rounds:
  assumes "0 < sq" and "list_all (\<lambda>(es, k). list_all (in_window sq) es) its"
  shows "ab_main sq its \<noteq> Main_raise e
       \<and> (ab_main sq its = Main_done t out \<longrightarrow>
          (\<exists>gs rest. rounds_played (ab_ops sq) its gs rest \<and> length gs = 5
               \<and> list_all (\<lambda>g. ab_reachable g \<and> ab_isover g) gs
               \<and> t = sum_list (map (\<lambda>g. ab_nodes_expanded (abg_ai g)) gs)
               \<and> out = concat (map (\<lambda>g. [''Game Over!'', winner_message (final_state (abg_board g))]) gs)))"
proof
  show "ab_main sq its \<noteq> Main_raise e"
    using main_loop_not_raise[OF ab_keeps[OF assms(1)] ab_never_raises[OF assms(1)] _ assms(2)]
    by (simp add: ab_main_def ab_ops_def ab_reachable.init)
  show "ab_main sq its = Main_done t out \<longrightarrow> (\<exists>gs rest. rounds_played (ab_ops sq) its gs rest \<and> length gs = 5
               \<and> list_all (\<lambda>g. ab_reachable g \<and> ab_isover g) gs
               \<and> t = sum_list (map (\<lambda>g. ab_nodes_expanded (abg_ai g)) gs)
               \<and> out = concat (map (\<lambda>g. [''Game Over!'', winner_message (final_state (abg_board g))]) gs))"
    using main_loop_Main_done[OF ab_keeps[OF assms(1)] _ assms(2), of 5 0 "[]" t out]
    by (simp add: ab_main_def ab_ops_def ab_reachable.init comp_def)
qed

theorem ab_main_rounds_witness:
  "ab_main 100 (replicate 5 (top_row_round, 0)) \<noteq> Main_raise Unpack_none
   \<and> (\<exists>gs rest. rounds_played (ab_ops 100) (replicate 5 (top_row_round, 0)) gs rest \<and> length gs = 5
          \<and> list_all (\<lambda>g. ab_reachable g \<and> ab_isover g) gs
          \<and> 0 = sum_list (map (\<lambda>g. ab_nodes_expanded (abg_ai g)) gs)
          \<and> concat (replicate 5 [''Game Over!'', ''Player 1 wins!''])
            = concat (map (\<lambda>g. [''Game Over!'', winner_message (final_state (abg_board g))]) gs))"
proof -
  have ok: "list_all (\<lambda>(es, k). list_all (in_window 100) es) (replicate 5 (top_row_round, 0::nat))"
    by (simp add: top_row_round_def in_window_def ROW_def COL_def list_all_iff)
  show ?thesis
    using ab_main_rounds[OF _ ok, of Unpack_none 0 "concat (replicate 5 [''Game Over!'', ''Player 1 wins!''])"]
      five_top_row_rounds by simp
qed

text \<open>
  C37. When \<open>tictactoe.py\<close>'s \<open>main\<close>, with clicks inside the window, gets
  through its two rounds, the total it has added up is the sum of the AI counters
  of the two games its rounds played on the event stream ended in, each a
  finished reachable game, and its printed lines are their results.
\<close>

theorem tt_main_rounds:
  assumes "0 < sq" and "list_all (\<lambda>(es, k). list_all (in_window sq) es) its"
    and "tt_main sq its = Main_done t out"
  shows "\<exists>gs rest. rounds_played (tt_ops sq) its gs rest \<and> length gs = 2
           \<and> list_all (\<lambda>g. reachable g \<and> isover g) gs
           \<and> t = sum_list (map (\<lambda>g. nodes_expanded (game_ai g)) gs)
           \<and> out = concat (map (\<lambda>g. [''Game Over!'', winner_message (final_state (game_board g))]) gs)"
  using main_loop_Main_done[OF tt_keeps[OF assms(1)] _ assms(2), of 2 0 "[]" t out] assms(3)
  by (simp add: tt_main_def tt_ops_def reachable.init comp_def)

theorem tt_main_rounds_witness:
  "\<exists>gs rest. rounds_played (tt_ops 100) (replicate 2 (top_row_round, 0)) gs rest \<and> length gs = 2
     \<and> list_all (\<lambda>g. reachable g \<and> isover g) gs
     \<and> 0 = sum_list (map (\<lambda>g. nodes_expanded (game_ai g)) gs)
     \<and> concat (replicate 2 [''Game Over!'', ''Player 1 wins!''])
       = concat (map (\<lambda>g. [''Game Over!'', winner_message (final_state (game_board g))]) gs)"
proof -
  have ok: "list_all (\<lambda>(es, k). list_all (in_window 100) es) (replicate 2 (top_row_round, 0::nat))"
    by (simp add: top_row_round_def in_window_def ROW_def COL_def list_all_iff)
  have run: "tt_main 100 (replicate 2 (top_row_round, 0)) = Main_done 0 (concat (replicate 2 [''Game Over!'', ''Player 1 wins!'']))"
    unfolding tt_main_def top_row_round_def by code_simp
  show ?thesis using tt_main_rounds[OF _ ok run] by simp
qed


text \<open>
  C38. A round of \<open>tictactoe.py\<close>'s \<open>main\<close> can always be finished by the human:
  from every state a round can reach, clicks inside the window, in at most as
  many iterations as there are open squares, end the \<open>while not game.isover()\<close>
  loop, whatever the mode and the level of the computer.
\<close>

theorem tt_round_finishes:
  assumes "0 < sq" and "reachable g"
  shows "\<exists>its g'. list_all (\<lambda>(es, k). list_all (in_window sq) es) its
           \<and> length its \<le> 9 - marked_sqrs (game_board g) \<and> run_round (tt_ops sq) g its = Over g' []"
proof -
  have prog: "\<And>g. reachable g \<Longrightarrow> \<not> over_op (tt_ops sq) g \<Longrightarrow>
      \<exists>es k g'. list_all (in_window sq) es \<and> iter_op (tt_ops sq) g es k = Some (Inr g')
        \<and> 9 - marked_sqrs (game_board g') < 9 - marked_sqrs (game_board g)"
    using tt_progress[OF assms(1)] by (simp add: tt_ops_def)
  show ?thesis using run_round_finishes[OF tt_keeps[OF assms(1)] prog assms(2)] by simp
qed

theorem tt_round_finishes_witness:
  "reachable new_game \<and> (\<exists>its g'. list_all (\<lambda>(es, k). list_all (in_window 1) es) its
     \<and> length its \<le> 9 - marked_sqrs (game_board new_game) \<and> run_round (tt_ops 1) new_game its = Over g' [])"
  using reachable.init tt_round_finishes[OF _ reachable.init, of 1] by simp


text \<open>
  C35. A round of \<open>Alpha_beta.py\<close>'s \<open>main\<close> can always be finished by the
  human: from every state a round can reach, clicks inside the window, in at most
  as many iterations as there are open squares, end the
  \<open>while not game.isover()\<close> loop, whatever the mode and the level of the computer.
\<close>

theorem ab_round_finishes:
  assumes "0 < sq" and "ab_reachable g"
  shows "\<exists>its g'. list_all (\<lambda>(es, k). list_all (in_window sq) es) its
           \<and> length its \<le> 9 - marked_sqrs (abg_board g) \<and> run_round (ab_ops sq) g its = Over g' []"
proof -
  have prog: "\<And>g. ab_reachable g \<Longrightarrow> \<not> over_op (ab_ops sq) g \<Longrightarrow>
      \<exists>es k g'. list_all (in_window sq) es \<and> iter_op (ab_ops sq) g es k = Some (Inr g')
        \<and> 9 - marked_sqrs (abg_board g') < 9 - marked_sqrs (abg_board g)"
    using ab_progress[OF assms(1)] by (simp add: ab_ops_def)
  show ?thesis using run_round_finishes[OF ab_keeps[OF assms(1)] prog assms(2)] by simp
qed

theorem ab_round_finishes_witness:
  "ab_reachable new_ab_game \<and> (\<exists>its g'. list_all (\<lambda>(es, k). list_all (in_window 1) es) its
     \<and> length its \<le> 9 - marked_sqrs (abg_board new_ab_game) \<and> run_round (ab_ops 1) new_ab_game its = Over g' [])"
  using ab_reachable.init ab_round_finishes[OF _ ab_reachable.init, of 1] by simp

end
