(* ===== verification/Distance.thy ===== *)
theory Distance
  imports Minimax
begin

text \<open>
  The 5 \<open>\<times>\<close> 5 program \<open>src/AI/distance_improve.py\<close>. Its \<open>Board\<close> is the 3 \<open>\<times>\<close> 3
  board of theory \<open>Board\<close> with \<open>ROW = COL = 5\<close> (\<open>mark_sqr\<close>, \<open>empty_sqr\<close>,
  \<open>get_empty_sqrs\<close> and \<open>isfull\<close> are the same code), except \<open>final_state\<close>,
  which scans the table \<open>WINNING_LINES\<close> of indices into the flattened array.
  The computer searches with alpha-beta pruning, scores a win found at depth
  \<open>d\<close> as \<open>\<plusminus>(10 - d)\<close>, and adds (maximizer) or subtracts (minimizer) the
  Manhattan distance of the trial square to the centre after each recursive call.
  The file itself does not parse (line 169 of \<open>draw_fig\<close> starts with a stray
  \<open>+\<close>); the model is the code as written around that line.
\<close>

section \<open>Data\<close>

definition ROW_D :: nat where "ROW_D = 5"
definition COL_D :: nat where "COL_D = 5"

definition WINNING_LINES :: "(nat \<times> nat \<times> nat) list" where
  "WINNING_LINES =
     [(0, 1, 2), (3, 4, 5), (6, 7, 8),
      (0, 3, 6), (1, 4, 7), (2, 5, 8),
      (0, 4, 8), (2, 4, 6)]"

record d_ai =
  d_level :: nat
  d_player :: player
  d_nodes_expanded :: nat

definition new_d_ai :: d_ai where
  "new_d_ai = \<lparr>d_level = 1, d_player = P2, d_nodes_expanded = 0\<rparr>"

section \<open>Operations\<close>

text \<open>The methods of the file's own \<open>Board\<close>, from its lines: they are those of
  theory \<open>Board\<close> at \<open>ROW = COL = 5\<close> (lemma \<open>d_board_eq\<close>), which the search
  below uses. \<open>Board.__init__\<close> also sets \<open>self.player = 1\<close>, which nothing
  reads.\<close>

definition d_new_board :: board where
  "d_new_board = \<lparr>squares = (\<lambda>_. None), marked_sqrs = 0\<rparr>"

definition d_mark_sqr :: "board \<Rightarrow> nat \<Rightarrow> nat \<Rightarrow> player \<Rightarrow> board" where
  "d_mark_sqr b row col p =
     b\<lparr>squares := (squares b)((row, col) := Some p), marked_sqrs := Suc (marked_sqrs b)\<rparr>"

definition d_empty_sqr :: "board \<Rightarrow> nat \<Rightarrow> nat \<Rightarrow> bool" where
  "d_empty_sqr b row col \<longleftrightarrow> squares b (row, col) = None"

definition d_get_empty_sqrs :: "board \<Rightarrow> pos list" where
  "d_get_empty_sqrs b =
     fold (\<lambda>row acc. fold (\<lambda>col acc. if d_empty_sqr b row col then acc @ [(row, col)] else acc) [0..<COL_D] acc)
          [0..<ROW_D] []"

definition d_isfull :: "board \<Rightarrow> bool" where
  "d_isfull b \<longleftrightarrow> marked_sqrs b = 9"

text \<open>\<open>self.squares.flatten()[i]\<close>: row-major index into the 5 \<open>\<times>\<close> 5 array.\<close>

definition flat_sq :: "board \<Rightarrow> nat \<Rightarrow> sq" where
  "flat_sq b i = squares b (i div COL_D, i mod COL_D)"

text \<open>The \<open>for line in WINNING_LINES\<close> loop: all three cells 1, else all three 2.\<close>

fun scan_lines :: "board \<Rightarrow> (nat \<times> nat \<times> nat) list \<Rightarrow> sq" where
  "scan_lines b [] = None"
| "scan_lines b ((i, j, k) # lines) =
     (if flat_sq b i = Some P1 \<and> flat_sq b j = Some P1 \<and> flat_sq b k = Some P1 then Some P1
      else if flat_sq b i = Some P2 \<and> flat_sq b j = Some P2 \<and> flat_sq b k = Some P2 then Some P2
      else scan_lines b lines)"

definition final_state_d :: "board \<Rightarrow> sq" where
  "final_state_d b = scan_lines b WINNING_LINES"

definition distance_heuristic :: "nat \<Rightarrow> nat \<Rightarrow> int" where
  "distance_heuristic row col = \<bar>int row - int (ROW_D div 2)\<bar> + \<bar>int col - int (COL_D div 2)\<bar>"

text \<open>
  \<open>minimax_heuristic p b maximizing depth alpha beta n\<close> is
  \<open>self.minimax_heuristic(board, maximizing, depth, alpha, beta)\<close> with
  \<open>self.player = p\<close> and \<open>self.nodes_expanded = n\<close> on entry. \<open>max_eval\<close> and
  \<open>min_eval\<close> start at \<open>\<plusminus>float('inf')\<close>, so scores are \<open>xint\<close>; \<open>eval += distance\<close>
  is \<open>xplus\<close>. Both players count one node per trial move.
\<close>

function minimax_heuristic ::
  "player \<Rightarrow> board \<Rightarrow> bool \<Rightarrow> nat \<Rightarrow> xint \<Rightarrow> xint \<Rightarrow> nat \<Rightarrow> (xint \<times> pos option) \<times> nat" where
  "minimax_heuristic p b maximizing depth alpha beta n =
    (let outcome = final_state_d b in
     if outcome = Some P1 then ((Fin (10 - int depth), None), n)
     else if outcome = Some P2 then ((Fin (int depth - 10), None), n)
     else if isfull b then ((Fin 0, None), n)
     else if maximizing then
       fst (for_break
         (\<lambda>state (row, col). case state of (((max_eval, best_move), n), alpha) \<Rightarrow>
            let ((eval, _), n') = minimax_heuristic p (mark_sqr b row col P1) False (Suc depth) alpha beta (Suc n);
                eval = xplus eval (distance_heuristic row col);
                (max_eval, best_move) =
                  (if eval > max_eval then (eval, Some (row, col)) else (max_eval, best_move));
                alpha = max alpha eval
            in ((((max_eval, best_move), n'), alpha), beta \<le> alpha))
         (((NegInf, None), n), alpha) (get_empty_sqrs ROW_D COL_D b))
     else
       fst (for_break
         (\<lambda>state (row, col). case state of (((min_eval, best_move), n), beta) \<Rightarrow>
            let ((eval, _), n') = minimax_heuristic p (mark_sqr b row col p) True (Suc depth) alpha beta (Suc n);
                eval = xplus eval (- distance_heuristic row col);
                (min_eval, best_move) =
                  (if eval < min_eval then (eval, Some (row, col)) else (min_eval, best_move));
                beta = min beta eval
            in ((((min_eval, best_move), n'), beta), beta \<le> alpha))
         (((PosInf, None), n), beta) (get_empty_sqrs ROW_D COL_D b)))"
  by pat_completeness auto
termination
  by (relation "measure (\<lambda>(p, b, m, d, a, be, n). length (get_empty_sqrs ROW_D COL_D b))")
     (auto simp: get_empty_sqrs_mark_sqr_less)

text \<open>\<open>np.random.choice(len(empty_sqrs))\<close> raises \<open>ValueError\<close> on an empty range.\<close>

definition rnd_d :: "board \<Rightarrow> nat \<Rightarrow> py_error + pos" where
  "rnd_d b k =
     (let empty_sqrs = get_empty_sqrs ROW_D COL_D b
      in if empty_sqrs = [] then Inl ValueError
         else Inr (empty_sqrs ! (k mod length empty_sqrs)))"

text \<open>\<open>eval(main_board)\<close> returns only the move.\<close>

definition d_eval :: "d_ai \<Rightarrow> board \<Rightarrow> nat \<Rightarrow> py_error + pos option \<times> d_ai" where
  "d_eval a main_board k =
     (if d_level a = 0 then
        (case rnd_d main_board k of
           Inl e \<Rightarrow> Inl e
         | Inr move \<Rightarrow> Inr (Some move, a))
      else
        (case minimax_heuristic (d_player a) main_board False 0 NegInf PosInf (d_nodes_expanded a) of
           ((e, move), n) \<Rightarrow> Inr (move, a\<lparr>d_nodes_expanded := n\<rparr>)))"

section \<open>Lemmas\<close>

lemma d_board_eq:
  "d_new_board = new_board" "d_mark_sqr = mark_sqr" "d_empty_sqr = empty_sqr" "d_isfull = isfull"
  "d_get_empty_sqrs b = get_empty_sqrs ROW_D COL_D b"
  by (simp_all add: fun_eq_iff d_new_board_def new_board_def d_mark_sqr_def mark_sqr_def d_empty_sqr_def
        empty_sqr_def d_isfull_def isfull_def d_get_empty_sqrs_def fold_grid_filter get_empty_sqrs_def grid_def)

declare minimax_heuristic.simps [simp del]

lemma scan_lines_cong:
  assumes "\<forall>(i, j, k) \<in> set ls. flat_sq b i = flat_sq b' i \<and> flat_sq b j = flat_sq b' j \<and> flat_sq b k = flat_sq b' k"
  shows "scan_lines b ls = scan_lines b' ls"
  using assms by (induction b ls rule: scan_lines.induct) auto

lemma wf_board_d_open:
  assumes "wf_board ROW_D COL_D b"
  shows "length (get_empty_sqrs ROW_D COL_D b) = 25 - marked_sqrs b"
  using assms by (simp add: wf_board_def ROW_D_def COL_D_def)

text \<open>On a board of a game, which stops at nine marks, every score is finite: a
  position that is neither won nor full always has open squares.\<close>

lemma minimax_heuristic_finite:
  "wf_board ROW_D COL_D b \<Longrightarrow> marked_sqrs b \<le> 9 \<Longrightarrow>
   \<exists>v. fst (fst (minimax_heuristic p b mx d al be n)) = Fin v"
proof (induction p b mx d al be n rule: minimax_heuristic.induct)
  case (1 p b mx d al be n)
  show ?case
  proof (cases "final_state_d b = None \<and> \<not> isfull b")
    case False
    then show ?thesis
      by (cases "final_state_d b" rule: option.exhaust; cases "the (final_state_d b)")
         (auto simp: minimax_heuristic.simps[of p b mx d al be n])
  next
    case True
    then have nt: "final_state_d b \<noteq> Some P1" "final_state_d b \<noteq> Some P2" "\<not> isfull b" by auto
    have "marked_sqrs b < 9" using "1.prems"(2) nt(3) by (simp add: isfull_def)
    then have "get_empty_sqrs ROW_D COL_D b \<noteq> []" using wf_board_d_open[OF "1.prems"(1)] by auto
    then obtain r0 c0 rest where es: "get_empty_sqrs ROW_D COL_D b = (r0, c0) # rest"
      by (cases "get_empty_sqrs ROW_D COL_D b") auto
    have wfc: "wf_board ROW_D COL_D (mark_sqr b r c q)" "marked_sqrs (mark_sqr b r c q) \<le> 9"
      if "(r, c) \<in> set (get_empty_sqrs ROW_D COL_D b)" for r c q
      using wf_board_mark_sqr[OF "1.prems"(1) that] \<open>marked_sqrs b < 9\<close> by simp_all
    have childT: "\<exists>v. fst (fst (minimax_heuristic p (mark_sqr b r c P1) False (Suc d) a' be (Suc m))) = Fin v"
      if "(r, c) \<in> set (get_empty_sqrs ROW_D COL_D b)" and mx for r c a' m
      by (rule "1.IH"(1)[OF refl nt \<open>mx\<close>]) (use that wfc[OF that(1)] in auto)
    have childF: "\<exists>v. fst (fst (minimax_heuristic p (mark_sqr b r c p) True (Suc d) al b' (Suc m))) = Fin v"
      if "(r, c) \<in> set (get_empty_sqrs ROW_D COL_D b)" and "\<not> mx" for r c b' m
      by (rule "1.IH"(2)[OF refl nt \<open>\<not> mx\<close>]) (use that wfc[OF that(1)] in auto)
    have mem: "(r0, c0) \<in> set (get_empty_sqrs ROW_D COL_D b)" "\<And>r c. (r, c) \<in> set rest \<Longrightarrow> (r, c) \<in> set (get_empty_sqrs ROW_D COL_D b)"
      using es by auto
    show ?thesis
    proof (cases mx)
      case True
      show ?thesis
        unfolding minimax_heuristic.simps[of p b mx d al be n] Let_def es using nt True
        apply (simp only: if_False if_True)
        apply (rule for_break_first_invariant[where I = "\<lambda>s. \<exists>v. fst (fst (fst s)) = Fin v"])
        subgoal
          using childT[OF mem(1) True, of al n] by (auto simp: prod.case_eq_if)
        subgoal for s y
        proof (cases y)
          case (Pair r c)
          assume "y \<in> set rest" "\<exists>v. fst (fst (fst s)) = Fin v"
          then show ?thesis
            using childT[OF mem(2) True, of r c "snd s" "snd (fst s)"] Pair by (auto simp: prod.case_eq_if)
        qed
        done
    next
      case False
      show ?thesis
        unfolding minimax_heuristic.simps[of p b mx d al be n] Let_def es using nt False
        apply (simp only: if_False if_True)
        apply (rule for_break_first_invariant[where I = "\<lambda>s. \<exists>v. fst (fst (fst s)) = Fin v"])
        subgoal
          using childF[OF mem(1) False, of be n] by (auto simp: prod.case_eq_if)
        subgoal for s y
        proof (cases y)
          case (Pair r c)
          assume "y \<in> set rest" "\<exists>v. fst (fst (fst s)) = Fin v"
          then show ?thesis
            using childF[OF mem(2) False, of r c "snd s" "snd (fst s)"] Pair by (auto simp: prod.case_eq_if)
        qed
        done
    qed
  qed
qed


text \<open>At a position that is neither won nor full, the search returns one of its open
  squares: the first trial's finite score always beats the initial infinity.\<close>

lemma minimax_heuristic_move_open:
  assumes "wf_board ROW_D COL_D b" and "marked_sqrs b \<le> 9" and "final_state_d b = None" and "\<not> isfull b"
  shows "\<exists>x. snd (fst (minimax_heuristic p b mx d al be n)) = Some x \<and> x \<in> set (get_empty_sqrs ROW_D COL_D b)"
proof -
  have nt: "final_state_d b \<noteq> Some P1" "final_state_d b \<noteq> Some P2" using assms(3) by simp_all
  have "marked_sqrs b < 9" using assms(2,4) by (simp add: isfull_def)
  then have "get_empty_sqrs ROW_D COL_D b \<noteq> []" using wf_board_d_open[OF assms(1)] by auto
  then obtain r0 c0 rest where es: "get_empty_sqrs ROW_D COL_D b = (r0, c0) # rest"
    by (cases "get_empty_sqrs ROW_D COL_D b") auto
  have fin: "\<exists>v. fst (fst (minimax_heuristic p (mark_sqr b r c q) mx' (Suc d) a' b' m)) = Fin v"
    if "(r, c) \<in> set (get_empty_sqrs ROW_D COL_D b)" for r c q mx' a' b' m
    using minimax_heuristic_finite wf_board_mark_sqr[OF assms(1) that] \<open>marked_sqrs b < 9\<close> by simp
  let ?I = "\<lambda>s. \<exists>x. snd (fst (fst s)) = Some x \<and> x \<in> set ((r0, c0) # rest)"
  show ?thesis
  proof (cases mx)
    case True
    show ?thesis
      unfolding minimax_heuristic.simps[of p b mx d al be n] Let_def es using nt assms(4) True
      apply (simp only: if_False if_True)
      apply (rule for_break_first_invariant[where I = ?I])
      subgoal
        using fin[of r0 c0 P1 False al be "Suc n"] es by (auto simp: prod.case_eq_if)
      subgoal for s y
        by (cases y) (auto simp: prod.case_eq_if)
      done
  next
    case False
    show ?thesis
      unfolding minimax_heuristic.simps[of p b mx d al be n] Let_def es using nt assms(4) False
      apply (simp only: if_False if_True)
      apply (rule for_break_first_invariant[where I = ?I])
      subgoal
        using fin[of r0 c0 p True al be "Suc n"] es by (auto simp: prod.case_eq_if)
      subgoal for s y
        by (cases y) (auto simp: prod.case_eq_if)
      done
  qed
qed

text \<open>\<open>eval\<close> on a game board that is neither won nor full: an open square at
  every level, and \<open>self.player\<close> unchanged.\<close>

lemma d_eval_open_move:
  assumes "wf_board ROW_D COL_D b" and "marked_sqrs b \<le> 9" and "final_state_d b = None" and "\<not> isfull b"
  shows "\<exists>x a'. d_eval a b k = Inr (Some x, a') \<and> x \<in> set (get_empty_sqrs ROW_D COL_D b) \<and> d_player a' = d_player a"
proof (cases "d_level a = 0")
  case True
  have "marked_sqrs b < 9" using assms(2,4) by (simp add: isfull_def)
  then have ne: "get_empty_sqrs ROW_D COL_D b \<noteq> []" using wf_board_d_open[OF assms(1)] by auto
  then have "get_empty_sqrs ROW_D COL_D b ! (k mod length (get_empty_sqrs ROW_D COL_D b)) \<in> set (get_empty_sqrs ROW_D COL_D b)"
    by simp
  then show ?thesis using True ne by (auto simp: d_eval_def rnd_d_def Let_def)
next
  case False
  obtain x where x: "snd (fst (minimax_heuristic (d_player a) b False 0 NegInf PosInf (d_nodes_expanded a))) = Some x"
      "x \<in> set (get_empty_sqrs ROW_D COL_D b)"
    using minimax_heuristic_move_open[OF assms] by blast
  obtain v n where "minimax_heuristic (d_player a) b False 0 NegInf PosInf (d_nodes_expanded a) = ((v, Some x), n)"
    using x(1) by (metis prod.collapse)
  then have "d_eval a b k = Inr (Some x, a\<lparr>d_nodes_expanded := n\<rparr>)" using False by (simp add: d_eval_def)
  with x(2) show ?thesis by auto
qed

section \<open>Properties\<close>

text \<open>
  \<open>final_state\<close> of the 5 \<open>\<times>\<close> 5 board reads only the first nine cells of the
  flattened array (row 0 and the first four squares of row 1): two boards that
  agree there have the same outcome, whatever else is marked.
\<close>

theorem final_state_d_reads_nine_cells:
  assumes "\<forall>i < 9. flat_sq b i = flat_sq b' i"
  shows "final_state_d b = final_state_d b'"
  unfolding final_state_d_def
  by (rule scan_lines_cong) (use assms in \<open>simp add: WINNING_LINES_def\<close>)

theorem final_state_d_reads_nine_cells_witness:
  "list_all (\<lambda>i. flat_sq (board_of [[blank, blank, blank, blank, blank], [blank, blank, blank, blank, blank], [cross, cross, cross, blank, blank]]) i = flat_sq new_board i) [0..<9]
   \<and> final_state_d (board_of [[blank, blank, blank, blank, blank], [blank, blank, blank, blank, blank], [cross, cross, cross, blank, blank]]) = None"
proof -
  have l: "list_all (\<lambda>i. flat_sq (board_of [[blank, blank, blank, blank, blank], [blank, blank, blank, blank, blank], [cross, cross, cross, blank, blank]]) i = flat_sq new_board i) [0..<9]"
    by code_simp
  then have h: "\<forall>i < 9. flat_sq (board_of [[blank, blank, blank, blank, blank], [blank, blank, blank, blank, blank], [cross, cross, cross, blank, blank]]) i = flat_sq new_board i"
    by (simp add: list_all_iff)
  have "final_state_d new_board = None" by code_simp
  then show ?thesis using l final_state_d_reads_nine_cells[OF h] by simp
qed

text \<open>
  On the 5 \<open>\<times>\<close> 5 board \<open>isfull\<close> means nine marks, so a board it calls full still
  has 16 open squares, and the search scores such a board, when no line is won, as a
  draw.
\<close>

theorem isfull_d_leaves_sixteen_open:
  assumes "wf_board ROW_D COL_D b" and "isfull b" and "final_state_d b = None"
  shows "length (get_empty_sqrs ROW_D COL_D b) = 16 \<and> minimax_heuristic p b mx d al be n = ((Fin 0, None), n)"
  using assms wf_board_d_open[OF assms(1)]
  by (simp add: isfull_def minimax_heuristic.simps[of p b mx d al be n])

theorem isfull_d_leaves_sixteen_open_witness:
  "wf_board ROW_D COL_D (board_of [[blank, blank, blank, blank, blank], [blank, blank, blank, blank, blank], [cross, circle, cross, circle, cross], [circle, cross, circle, cross, blank], [blank, blank, blank, blank, blank]]) \<and> isfull (board_of [[blank, blank, blank, blank, blank], [blank, blank, blank, blank, blank], [cross, circle, cross, circle, cross], [circle, cross, circle, cross, blank], [blank, blank, blank, blank, blank]]) \<and> final_state_d (board_of [[blank, blank, blank, blank, blank], [blank, blank, blank, blank, blank], [cross, circle, cross, circle, cross], [circle, cross, circle, cross, blank], [blank, blank, blank, blank, blank]]) = None
   \<and> length (get_empty_sqrs ROW_D COL_D (board_of [[blank, blank, blank, blank, blank], [blank, blank, blank, blank, blank], [cross, circle, cross, circle, cross], [circle, cross, circle, cross, blank], [blank, blank, blank, blank, blank]])) = 16"
proof -
  have h: "wf_board ROW_D COL_D (board_of [[blank, blank, blank, blank, blank], [blank, blank, blank, blank, blank], [cross, circle, cross, circle, cross], [circle, cross, circle, cross, blank], [blank, blank, blank, blank, blank]])" "isfull (board_of [[blank, blank, blank, blank, blank], [blank, blank, blank, blank, blank], [cross, circle, cross, circle, cross], [circle, cross, circle, cross, blank], [blank, blank, blank, blank, blank]])" "final_state_d (board_of [[blank, blank, blank, blank, blank], [blank, blank, blank, blank, blank], [cross, circle, cross, circle, cross], [circle, cross, circle, cross, blank], [blank, blank, blank, blank, blank]]) = None"
    by code_simp+
  show ?thesis using h isfull_d_leaves_sixteen_open[OF h, of P2 False 0 NegInf PosInf 0] by simp
qed

text \<open>
  C17. On a board of a game (at most nine marks, counter in step with the squares)
  that is neither won nor full, \<open>eval\<close> of the 5 \<open>\<times>\<close> 5 program returns an open
  square at every level.
\<close>

theorem d_eval_plays_open_square:
  assumes "wf_board ROW_D COL_D b" and "marked_sqrs b \<le> 9" and "final_state_d b = None" and "\<not> isfull b"
  shows "\<exists>x a'. d_eval a b k = Inr (Some x, a') \<and> x \<in> set (get_empty_sqrs ROW_D COL_D b)"
  using d_eval_open_move[OF assms, of a k] by blast

theorem d_eval_plays_open_square_witness:
  "wf_board ROW_D COL_D new_board \<and> marked_sqrs new_board \<le> 9 \<and> final_state_d new_board = None \<and> \<not> isfull new_board
   \<and> (\<exists>x a'. d_eval new_d_ai new_board 0 = Inr (Some x, a') \<and> x \<in> set (get_empty_sqrs ROW_D COL_D new_board))"
proof -
  have h: "wf_board ROW_D COL_D new_board" "marked_sqrs new_board \<le> 9" "final_state_d new_board = None" "\<not> isfull new_board"
    by code_simp+
  show ?thesis using h d_eval_plays_open_square[OF h, of new_d_ai 0] by blast
qed

end
