(* ===== verification/DGame.thy ===== *)
theory DGame
  imports Distance Game
begin

text \<open>
  The class \<open>Game\<close> and the function \<open>main\<close> of \<open>src/AI/distance_improve.py\<close>:
  the 5 \<open>\<times>\<close> 5 board of theory \<open>Distance\<close> drawn and clicked as a grid of
  3 \<open>\<times>\<close> 3 squares of \<open>SQSIZE = WIDTH // 3\<close> pixels, and a \<open>while True\<close> loop
  whose iterations handle the pygame events (quit and mouse clicks; keys are
  ignored) and then let the computer move when it is player 2's turn and the game
  runs. There is no game mode and no restart: \<open>reset\<close> is never called.
  The events and the errors of an iteration are those of theory \<open>Game\<close>.
\<close>

section \<open>Data\<close>

definition WIDTH_D :: nat where "WIDTH_D = 600"
definition HEIGHT_D :: nat where "HEIGHT_D = 600"
definition SQSIZE_D :: nat where "SQSIZE_D = WIDTH_D div 3"

text \<open>\<open>Board.__init__\<close> also sets \<open>self.player = 1\<close>, which nothing reads.\<close>

record d_game =
  dg_board :: board
  dg_ai :: d_ai
  dg_player :: player
  dg_running :: bool

definition new_d_game :: d_game where
  "new_d_game = \<lparr>dg_board = new_board, dg_ai = new_d_ai, dg_player = P1, dg_running = True\<rparr>"

section \<open>Operations\<close>

definition d_next_turn :: "d_game \<Rightarrow> d_game" where
  "d_next_turn g = g\<lparr>dg_player := (case dg_player g of P1 \<Rightarrow> P2 | P2 \<Rightarrow> P1)\<rparr>"

definition d_make_move :: "d_game \<Rightarrow> nat \<Rightarrow> nat \<Rightarrow> d_game" where
  "d_make_move g row col = d_next_turn (g\<lparr>dg_board := mark_sqr (dg_board g) row col (dg_player g)\<rparr>)"

definition d_isover :: "d_game \<Rightarrow> bool" where
  "d_isover g \<longleftrightarrow> final_state_d (dg_board g) \<noteq> None \<or> isfull (dg_board g)"

definition d_reset :: "d_game \<Rightarrow> d_game" where
  "d_reset g = new_d_game"

text \<open>A move, then \<open>if game.isover(): game.running = False\<close>.\<close>

definition d_move_and_check :: "d_game \<Rightarrow> nat \<Rightarrow> nat \<Rightarrow> d_game" where
  "d_move_and_check g row col =
     (let g' = d_make_move g row col in if d_isover g' then g'\<lparr>dg_running := False\<rparr> else g')"

text \<open>The \<open>for event in pygame.event.get()\<close> loop of \<open>main\<close>; \<open>None\<close> is
  \<open>sys.exit()\<close> after a quit event, and key events fall through.\<close>

fun d_handle_events :: "d_game \<Rightarrow> event list \<Rightarrow> d_game option" where
  "d_handle_events g [] = Some g"
| "d_handle_events g (Quit # es) = None"
| "d_handle_events g (Click x y # es) =
     (let row = y div SQSIZE_D; col = x div SQSIZE_D
      in d_handle_events
           (if empty_sqr (dg_board g) row col \<and> dg_running g then d_move_and_check g row col else g) es)"
| "d_handle_events g (_ # es) = d_handle_events g es"

text \<open>The computer's turn, with the random number \<open>k\<close> of level 0; the prints
  of the memory use and of \<open>nodes_expanded\<close> are left out.\<close>

definition d_ai_turn :: "d_game \<Rightarrow> nat \<Rightarrow> loop_error + d_game" where
  "d_ai_turn g k =
     (if dg_player g = d_player (dg_ai g) \<and> dg_running g then
        (case d_eval (dg_ai g) (dg_board g) k of
           Inl e \<Rightarrow> Inl (Eval_error e)
         | Inr (None, a') \<Rightarrow> Inl Unpack_none
         | Inr (Some (row, col), a') \<Rightarrow> Inr (d_move_and_check (g\<lparr>dg_ai := a'\<rparr>) row col))
      else Inr g)"

definition d_loop_iteration :: "d_game \<Rightarrow> event list \<Rightarrow> nat \<Rightarrow> (loop_error + d_game) option" where
  "d_loop_iteration g es k = map_option (\<lambda>g'. d_ai_turn g' k) (d_handle_events g es)"

text \<open>Clicks inside the window of \<open>WIDTH \<times> HEIGHT\<close> pixels.\<close>

definition d_in_window :: "event \<Rightarrow> bool" where
  "d_in_window e = (case e of Click x y \<Rightarrow> x < WIDTH_D \<and> y < HEIGHT_D | _ \<Rightarrow> True)"

text \<open>The states of \<open>main\<close>: a new game, and whatever an iteration of the
  \<open>while True\<close> loop makes of a reachable state.\<close>

inductive d_reachable :: "d_game \<Rightarrow> bool" where
  init: "d_reachable new_d_game"
| iter: "d_reachable g \<Longrightarrow> list_all d_in_window es \<Longrightarrow>
         d_loop_iteration g es k = Some (Inr g') \<Longrightarrow> d_reachable g'"

section \<open>Specification: the invariant of the game\<close>

definition d_count_marks :: "board \<Rightarrow> player \<Rightarrow> nat" where
  "d_count_marks b p = length (filter (\<lambda>x. squares b x = Some p) (grid ROW_D COL_D))"

text \<open>The squares a click can reach: the top-left 3 \<open>\<times>\<close> 3 corner of the board.\<close>

definition clickable :: "pos \<Rightarrow> bool" where
  "clickable x \<longleftrightarrow> fst x < 3 \<and> snd x < 3"

text \<open>
  The counter agrees with the 5 \<open>\<times>\<close> 5 array and stops at nine; a running game
  is not over; player 1 has one mark more exactly when player 2 is to move; the
  computer plays player 2; every mark of player 1 is in the clickable corner.
\<close>

definition d_game_inv :: "d_game \<Rightarrow> bool" where
  "d_game_inv g \<longleftrightarrow> wf_board ROW_D COL_D (dg_board g) \<and> marked_sqrs (dg_board g) \<le> 9
     \<and> (dg_running g \<longrightarrow> \<not> d_isover g)
     \<and> d_count_marks (dg_board g) P1 = d_count_marks (dg_board g) P2 + (if dg_player g = P2 then 1 else 0)
     \<and> d_player (dg_ai g) = P2
     \<and> list_all (\<lambda>x. squares (dg_board g) x = Some P1 \<longrightarrow> clickable x) (grid ROW_D COL_D)"

text \<open>One iteration with five clicks: the human marks (0,0), (0,1), (0,2) for
  player 1 and, clicking again before the computer's turn, (2,0) and (2,1) for
  player 2.\<close>

definition top_row_clicks :: "event list" where
  "top_row_clicks = [Click 0 0, Click 0 400, Click 200 0, Click 200 400, Click 400 0]"

section \<open>Lemmas\<close>

lemma d_count_marks_mark_sqr:
  assumes "(r, c) \<in> set (get_empty_sqrs ROW_D COL_D b)"
  shows "d_count_marks (mark_sqr b r c p) q = d_count_marks b q + (if p = q then 1 else 0)"
  using assms length_filter_fun_upd[of "grid ROW_D COL_D" "(r, c)" "squares b" "Some q" "Some p"]
  by (simp add: d_count_marks_def mem_get_empty_sqrs)

lemma d_click_in_corner:
  assumes "x < WIDTH_D" and "y < HEIGHT_D"
  shows "y div SQSIZE_D < 3" and "x div SQSIZE_D < 3"
  using assms by (simp_all add: SQSIZE_D_def WIDTH_D_def HEIGHT_D_def)

lemma d_corner_open:
  "clickable (r, c) \<Longrightarrow> empty_sqr b r c \<Longrightarrow> (r, c) \<in> set (get_empty_sqrs ROW_D COL_D b)"
  by (simp add: mem_get_empty_sqrs empty_sqr_def clickable_def ROW_D_def COL_D_def)

text \<open>A move on an open square keeps the invariant, provided the game runs and a
  mark of player 1 goes into the clickable corner.\<close>

lemma d_move_and_check_inv:
  assumes inv: "d_game_inv g" and rc: "(r, c) \<in> set (get_empty_sqrs ROW_D COL_D (dg_board g))"
    and run: "dg_running g" and corner: "dg_player g = P1 \<Longrightarrow> clickable (r, c)"
  shows "d_game_inv (d_move_and_check g r c)"
proof -
  let ?b = "mark_sqr (dg_board g) r c (dg_player g)"
  have wf: "wf_board ROW_D COL_D ?b"
    using inv rc wf_board_mark_sqr unfolding d_game_inv_def by blast
  have "marked_sqrs (dg_board g) < 9"
    using inv run by (auto simp: d_game_inv_def d_isover_def isfull_def)
  then have m9: "marked_sqrs ?b \<le> 9" by simp
  have cnt: "d_count_marks ?b P1 = d_count_marks ?b P2 + (if dg_player g = P1 then 1 else 0)"
    using inv d_count_marks_mark_sqr[OF rc] unfolding d_game_inv_def
    by (cases "dg_player g") simp_all
  have cor: "list_all (\<lambda>x. squares ?b x = Some P1 \<longrightarrow> clickable x) (grid ROW_D COL_D)"
    using inv corner unfolding d_game_inv_def list_all_iff by auto
  show ?thesis
    using wf m9 cnt cor inv
    by (cases "dg_player g")
       (auto simp: d_game_inv_def d_move_and_check_def d_make_move_def d_next_turn_def d_isover_def Let_def)
qed

lemma new_d_game_inv: "d_game_inv new_d_game"
  unfolding d_game_inv_def new_d_game_def d_isover_def d_count_marks_def by code_simp

lemma d_handle_events_inv:
  assumes "d_game_inv g" and "list_all d_in_window es" and "d_handle_events g es = Some g'"
  shows "d_game_inv g'"
  using assms
proof (induction g es rule: d_handle_events.induct)
  case (3 g x y es)
  let ?g1 = "if empty_sqr (dg_board g) (y div SQSIZE_D) (x div SQSIZE_D) \<and> dg_running g
             then d_move_and_check g (y div SQSIZE_D) (x div SQSIZE_D) else g"
  have w: "x < WIDTH_D" "y < HEIGHT_D" using "3.prems"(2) by (simp_all add: d_in_window_def)
  have cl: "clickable (y div SQSIZE_D, x div SQSIZE_D)"
    using d_click_in_corner[OF w] by (simp add: clickable_def)
  then have "d_game_inv ?g1"
    using "3.prems"(1) d_move_and_check_inv d_corner_open by auto
  then show ?case using "3.IH"[of "y div SQSIZE_D" "x div SQSIZE_D"] "3.prems"(2,3) by (simp add: Let_def)
qed auto

lemma d_ai_turn_inv:
  assumes "d_game_inv g"
  shows "\<exists>g'. d_ai_turn g k = Inr g' \<and> d_game_inv g'"
proof (cases "dg_player g = d_player (dg_ai g) \<and> dg_running g")
  case True
  then have h: "wf_board ROW_D COL_D (dg_board g)" "marked_sqrs (dg_board g) \<le> 9"
      "final_state_d (dg_board g) = None" "\<not> isfull (dg_board g)"
    using assms by (auto simp: d_game_inv_def d_isover_def)
  from d_eval_open_move[OF h, of "dg_ai g" k]
  obtain r c a' where e: "d_eval (dg_ai g) (dg_board g) k = Inr (Some (r, c), a')"
      and rc: "(r, c) \<in> set (get_empty_sqrs ROW_D COL_D (dg_board g))" and pl: "d_player a' = d_player (dg_ai g)"
    by auto
  have P2: "dg_player g = P2" using True assms by (simp add: d_game_inv_def)
  have "d_game_inv (g\<lparr>dg_ai := a'\<rparr>)" using assms pl by (simp add: d_game_inv_def d_isover_def)
  then have "d_game_inv (d_move_and_check (g\<lparr>dg_ai := a'\<rparr>) r c)"
    by (rule d_move_and_check_inv) (use rc True P2 in simp_all)
  then show ?thesis using True e by (simp add: d_ai_turn_def)
next
  case False
  then have "d_ai_turn g k = Inr g" unfolding d_ai_turn_def by (rule if_not_P)
  then show ?thesis using assms by simp
qed

lemma d_loop_iteration_inv:
  assumes "d_game_inv g" and "list_all d_in_window es" and "d_handle_events g es = Some g1"
  shows "\<exists>g'. d_loop_iteration g es k = Some (Inr g') \<and> d_game_inv g'"
  using d_ai_turn_inv[OF d_handle_events_inv[OF assms], of k] assms(3)
  by (simp add: d_loop_iteration_def)

lemma d_reachable_inv: "d_reachable g \<Longrightarrow> d_game_inv g"
proof (induction rule: d_reachable.induct)
  case init
  then show ?case by (rule new_d_game_inv)
next
  case (iter g es k g')
  obtain g1 where h: "d_handle_events g es = Some g1"
    using iter.hyps(3) by (cases "d_handle_events g es") (simp_all add: d_loop_iteration_def)
  from d_loop_iteration_inv[OF iter.IH iter.hyps(2) h, of k] iter.hyps(3) show ?case by simp
qed

text \<open>A game that has stopped running ignores every click, and the computer
  does not move.\<close>

lemma d_handle_events_stopped:
  "\<not> dg_running g \<Longrightarrow> d_handle_events g es = None \<or> d_handle_events g es = Some g"
  by (induction g es rule: d_handle_events.induct) (simp_all add: Let_def)

lemma scan_lines_SomeD:
  "scan_lines b ls = Some p \<Longrightarrow> \<exists>(i, j, k) \<in> set ls. flat_sq b i = Some p \<and> flat_sq b j = Some p \<and> flat_sq b k = Some p"
  by (induction b ls rule: scan_lines.induct) (auto split: if_splits)

lemma d_game_inv_corner:
  "d_game_inv g \<Longrightarrow> r < ROW_D \<Longrightarrow> c < COL_D \<Longrightarrow> squares (dg_board g) (r, c) = Some P1 \<Longrightarrow> clickable (r, c)"
  unfolding d_game_inv_def list_all_iff by auto



section \<open>Properties\<close>

text \<open>
  C15. The human can only win along the top row: every click lands in the
  top-left 3 \<open>\<times>\<close> 3 corner of the 5 \<open>\<times>\<close> 5 board, and every entry of
  \<open>WINNING_LINES\<close> but \<open>(0, 1, 2)\<close> names a flattened index outside it, so in every
  state of \<open>main\<close> where \<open>final_state\<close> reports player 1, the squares (0,0), (0,1)
  and (0,2) hold player 1's marks.
\<close>

theorem d_human_wins_only_top_row:
  assumes "d_reachable g" and "final_state_d (dg_board g) = Some P1"
  shows "squares (dg_board g) (0, 0) = Some P1 \<and> squares (dg_board g) (0, 1) = Some P1
       \<and> squares (dg_board g) (0, 2) = Some P1"
proof -
  have inv: "d_game_inv g" using d_reachable_inv[OF assms(1)] .
  have cor: "\<And>r c. r < 5 \<Longrightarrow> c < 5 \<Longrightarrow> squares (dg_board g) (r, c) = Some P1 \<Longrightarrow> r < 3 \<and> c < 3"
    using d_game_inv_corner[OF inv] by (simp add: ROW_D_def COL_D_def clickable_def)
  obtain i j k where l: "(i, j, k) \<in> set WINNING_LINES" and
    s: "flat_sq (dg_board g) i = Some P1" "flat_sq (dg_board g) j = Some P1" "flat_sq (dg_board g) k = Some P1"
    using scan_lines_SomeD[of "dg_board g" WINNING_LINES P1] assms(2) by (auto simp: final_state_d_def)
  show ?thesis
    using l s cor[of 0 3] cor[of 0 4] cor[of 1 3]
    by (auto simp: WINNING_LINES_def flat_sq_def COL_D_def)
qed

lemma top_row_iteration:
  "\<exists>g'. d_loop_iteration new_d_game top_row_clicks 0 = Some (Inr g') \<and> d_reachable g'
        \<and> final_state_d (dg_board g') = Some P1 \<and> \<not> dg_running g'"
proof -
  have c: "case d_loop_iteration new_d_game top_row_clicks 0 of
             Some (Inr g') \<Rightarrow> final_state_d (dg_board g') = Some P1 \<and> \<not> dg_running g' | _ \<Rightarrow> False"
    unfolding top_row_clicks_def by code_simp
  then obtain g' where e: "d_loop_iteration new_d_game top_row_clicks 0 = Some (Inr g')"
    by (auto split: option.splits sum.splits)
  have w: "list_all d_in_window top_row_clicks"
    by (simp add: top_row_clicks_def d_in_window_def WIDTH_D_def HEIGHT_D_def)
  have "d_reachable g'" using d_reachable.iter[OF d_reachable.init w e] .
  then show ?thesis using c e by simp
qed


theorem d_human_wins_only_top_row_witness:
  "\<exists>g'. d_reachable g' \<and> final_state_d (dg_board g') = Some P1
        \<and> squares (dg_board g') (0, 0) = Some P1 \<and> squares (dg_board g') (0, 1) = Some P1
        \<and> squares (dg_board g') (0, 2) = Some P1"
proof -
  obtain g' where "d_reachable g'" "final_state_d (dg_board g') = Some P1"
    using top_row_iteration by blast
  then show ?thesis using d_human_wins_only_top_row[of g'] by blast
qed

text \<open>
  C16. \<open>isfull\<close> counts nine marks on a board of 25 squares: in every state of
  \<open>main\<close> the board holds at most nine marks and so at least sixteen open
  squares, and once it holds nine the game is over, with sixteen squares open.
\<close>

theorem d_reachable_sixteen_open:
  assumes "d_reachable g"
  shows "marked_sqrs (dg_board g) \<le> 9 \<and> 16 \<le> length (get_empty_sqrs ROW_D COL_D (dg_board g))
       \<and> (marked_sqrs (dg_board g) = 9 \<longrightarrow> d_isover g \<and> \<not> dg_running g)"
proof -
  have inv: "d_game_inv g" using d_reachable_inv[OF assms] .
  then have "wf_board ROW_D COL_D (dg_board g)" "marked_sqrs (dg_board g) \<le> 9"
    "dg_running g \<longrightarrow> \<not> d_isover g" by (simp_all add: d_game_inv_def)
  then show ?thesis using wf_board_d_open by (auto simp: d_isover_def isfull_def)
qed

theorem d_reachable_sixteen_open_witness:
  "\<exists>g'. d_reachable g' \<and> marked_sqrs (dg_board g') \<le> 9
        \<and> 16 \<le> length (get_empty_sqrs ROW_D COL_D (dg_board g'))
        \<and> marked_sqrs (dg_board g') = 5"
proof -
  obtain g' where r: "d_reachable g'" and e: "d_loop_iteration new_d_game top_row_clicks 0 = Some (Inr g')"
    using top_row_iteration by blast
  have "case d_loop_iteration new_d_game top_row_clicks 0 of Some (Inr g') \<Rightarrow> marked_sqrs (dg_board g') = 5 | _ \<Rightarrow> False"
    unfolding top_row_clicks_def by code_simp
  then have "marked_sqrs (dg_board g') = 5" using e by simp
  then show ?thesis using r d_reachable_sixteen_open[OF r] by blast
qed

text \<open>C14. An iteration of \<open>main\<close>'s loop never raises: the computer is asked to move
  only while the game runs, and then \<open>eval\<close> returns an open square.\<close>

theorem d_loop_iteration_never_fails:
  assumes "d_reachable g" and "list_all d_in_window es"
  shows "d_loop_iteration g es k \<noteq> Some (Inl e)"
proof (cases "d_handle_events g es")
  case None
  then show ?thesis by (simp add: d_loop_iteration_def)
next
  case (Some g1)
  from d_loop_iteration_inv[OF d_reachable_inv[OF assms(1)] assms(2) Some, of k] show ?thesis by auto
qed

theorem d_loop_iteration_never_fails_witness:
  "d_loop_iteration new_d_game top_row_clicks 0 \<noteq> Some (Inl Unpack_none)"
  using d_loop_iteration_never_fails[OF d_reachable.init, of top_row_clicks 0 Unpack_none]
  by (simp add: top_row_clicks_def d_in_window_def WIDTH_D_def HEIGHT_D_def)

text \<open>C33. \<open>main\<close> has no restart: once a game has stopped running, every later
  iteration either quits or leaves the state as it is.\<close>

theorem d_stopped_game_stays:
  assumes "d_reachable g" and "\<not> dg_running g"
  shows "d_loop_iteration g es k = None \<or> d_loop_iteration g es k = Some (Inr g)"
  using d_handle_events_stopped[OF assms(2), of es] assms(2)
  by (auto simp: d_loop_iteration_def d_ai_turn_def)

theorem d_stopped_game_stays_witness:
  "\<exists>g'. d_reachable g' \<and> \<not> dg_running g'
        \<and> d_loop_iteration g' [Click 0 500] 0 = Some (Inr g')"
proof -
  obtain g' where r: "d_reachable g'" and s: "\<not> dg_running g'" using top_row_iteration by blast
  have ne: "d_loop_iteration g' [Click 0 500] 0 \<noteq> None"
    using s by (simp add: d_loop_iteration_def Let_def)
  have "d_loop_iteration g' [Click 0 500] 0 = Some (Inr g')"
    using d_stopped_game_stays[OF r s, of "[Click 0 500]" 0] ne by (elim disjE) simp_all
  then show ?thesis using r s by (intro exI[of _ g']) simp
qed

end
