(* ===== verification/ABBoard.thy ===== *)
theory ABBoard
  imports Minimax
begin

text \<open>
  The class \<open>Board\<close> and the method \<open>AI.rnd\<close> of \<open>src/AI/Alpha_beta.py\<close>. The
  file repeats the code of \<open>src/AI/tictactoe.py\<close> line for line; here it is
  translated on its own, from its own lines, and shown equal to the definitions
  of theories \<open>Board\<close> and \<open>Minimax\<close>, which the model of the alpha-beta
  program (theories \<open>AlphaBeta\<close>, \<open>ABGame\<close>, \<open>Rounds\<close>) therefore uses.
\<close>

section \<open>Operations\<close>

definition ab_new_board :: board where
  "ab_new_board = \<lparr>squares = (\<lambda>_. None), marked_sqrs = 0\<rparr>"

text \<open>The vertical, horizontal, descending and ascending checks of
  \<open>final_state\<close>, in the order of the code; the drawing under \<open>show\<close> is left out.\<close>

definition ab_final_state :: "board \<Rightarrow> sq" where
  "ab_final_state b =
    (let s = squares b in
     case find (\<lambda>col. line3 (s (0, col)) (s (1, col)) (s (2, col))) [0..<COL] of
       Some col \<Rightarrow> s (0, col)
     | None \<Rightarrow>
       (case find (\<lambda>row. line3 (s (row, 0)) (s (row, 1)) (s (row, 2))) [0..<ROW] of
          Some row \<Rightarrow> s (row, 0)
        | None \<Rightarrow>
            if line3 (s (0, 0)) (s (1, 1)) (s (2, 2)) then s (1, 1)
            else if line3 (s (2, 0)) (s (1, 1)) (s (0, 2)) then s (1, 1)
            else None))"

definition ab_mark_sqr :: "board \<Rightarrow> nat \<Rightarrow> nat \<Rightarrow> player \<Rightarrow> board" where
  "ab_mark_sqr b row col p =
     b\<lparr>squares := (squares b)((row, col) := Some p), marked_sqrs := Suc (marked_sqrs b)\<rparr>"

definition ab_empty_sqr :: "board \<Rightarrow> nat \<Rightarrow> nat \<Rightarrow> bool" where
  "ab_empty_sqr b row col \<longleftrightarrow> squares b (row, col) = None"

text \<open>The nested loops \<open>for row in range(ROW): for col in range(COL)\<close> appending
  the empty squares.\<close>

definition ab_get_empty_sqrs :: "board \<Rightarrow> pos list" where
  "ab_get_empty_sqrs b =
     fold (\<lambda>row acc. fold (\<lambda>col acc. if ab_empty_sqr b row col then acc @ [(row, col)] else acc) [0..<COL] acc)
          [0..<ROW] []"

definition ab_isfull :: "board \<Rightarrow> bool" where
  "ab_isfull b \<longleftrightarrow> marked_sqrs b = 9"

definition ab_isempty :: "board \<Rightarrow> bool" where
  "ab_isempty b \<longleftrightarrow> marked_sqrs b = 0"

text \<open>\<open>rnd\<close>, with the number \<open>k\<close> drawn by \<open>random.randrange(0, len(empty_sqrs))\<close>.\<close>

definition ab_rnd :: "board \<Rightarrow> nat \<Rightarrow> py_error + pos" where
  "ab_rnd b k =
     (let empty_sqrs = ab_get_empty_sqrs b
      in if empty_sqrs = [] then Inl ValueError
         else Inr (empty_sqrs ! (k mod length empty_sqrs)))"

section \<open>The two copies agree\<close>

lemma ab_get_empty_sqrs_eq: "ab_get_empty_sqrs b = get_empty_sqrs ROW COL b"
  by (simp add: ab_get_empty_sqrs_def fold_grid_filter get_empty_sqrs_def grid_def ab_empty_sqr_def empty_sqr_def)

lemma ab_board_eq:
  "ab_new_board = new_board" "ab_final_state = final_state" "ab_mark_sqr = mark_sqr"
  "ab_empty_sqr = empty_sqr" "ab_isfull = isfull" "ab_isempty = isempty"
  by (simp_all add: fun_eq_iff ab_new_board_def new_board_def ab_final_state_def final_state_def
        ab_mark_sqr_def mark_sqr_def ab_empty_sqr_def empty_sqr_def ab_isfull_def isfull_def
        ab_isempty_def isempty_def)

lemma ab_rnd_eq: "ab_rnd = rnd"
  by (intro ext) (simp add: ab_rnd_def rnd_def ab_get_empty_sqrs_eq)

end
