(* ===== verification/BFS.thy ===== *)
theory BFS
  imports Prelude
begin

text \<open>
  The rule-based player of \<open>src/AI/BF_Search.py\<close> (tkinter). The board is the
  Python list of three rows of three one-character strings \<open>' '\<close>, \<open>'X'\<close>,
  \<open>'O'\<close>: a \<open>char list list\<close>. \<open>bfs_move\<close> mutates this board, trying each
  open square and undoing the trial, and counts the trials in \<open>counter[0]\<close>; the
  model threads the board and the counter through its three loops. The order of
  the open squares after \<open>random.shuffle\<close> is an input.
\<close>

section \<open>Data and operations\<close>

type_synonym grid3 = "char list list"

abbreviation EMPTY :: char where "EMPTY \<equiv> CHR '' ''"

text \<open>\<open>board[i][j] = v\<close>.\<close>

definition set_cell :: "grid3 \<Rightarrow> nat \<Rightarrow> nat \<Rightarrow> char \<Rightarrow> grid3" where
  "set_cell b i j v = b[i := (b ! i)[j := v]]"

definition check_winner :: "grid3 \<Rightarrow> char \<Rightarrow> bool" where
  "check_winner b player \<longleftrightarrow>
     list_ex (\<lambda>i. list_all (\<lambda>j. b ! i ! j = player) [0..<3] \<or> list_all (\<lambda>j. b ! j ! i = player) [0..<3]) [0..<3]
     \<or> list_all (\<lambda>i. b ! i ! i = player) [0..<3] \<or> list_all (\<lambda>i. b ! i ! (2 - i) = player) [0..<3]"

definition check_draw :: "grid3 \<Rightarrow> bool" where
  "check_draw b \<longleftrightarrow> list_all (\<lambda>i. list_all (\<lambda>j. b ! i ! j \<noteq> EMPTY) [0..<3]) [0..<3]"

definition get_empty_positions :: "grid3 \<Rightarrow> (nat \<times> nat) list" where
  "get_empty_positions b = [(i, j). i \<leftarrow> [0..<3], j \<leftarrow> [0..<3], b ! i ! j = EMPTY]"

definition bfs_heuristic :: "grid3 \<Rightarrow> char \<Rightarrow> int" where
  "bfs_heuristic b player =
     (if b ! 1 ! 1 = player then 2 else 0)
     + int (length (filter (\<lambda>(i, j). b ! i ! j = player) [(0, 0), (0, 2), (2, 0), (2, 2)]))"

text \<open>
  The first two loops of \<open>bfs_move\<close>: mark the square with \<open>player\<close>, count, and
  return it (after undoing the mark) if \<open>player\<close> then has a line; otherwise undo and
  go on. The result is the square found, the board and the counter.
\<close>

fun win_scan :: "char \<Rightarrow> grid3 \<Rightarrow> nat \<Rightarrow> (nat \<times> nat) list \<Rightarrow> (nat \<times> nat) option \<times> grid3 \<times> nat" where
  "win_scan player b counter [] = (None, b, counter)"
| "win_scan player b counter ((i, j) # positions) =
     (let b = set_cell b i j player; counter = Suc counter
      in if check_winner b player then (Some (i, j), set_cell b i j EMPTY, counter)
         else win_scan player (set_cell b i j EMPTY) counter positions)"

text \<open>One iteration of the third loop, with \<open>best_heuristic\<close> starting at
  \<open>float('-inf')\<close>.\<close>

definition heuristic_step ::
  "char \<Rightarrow> nat \<times> nat \<Rightarrow> ((nat \<times> nat) option \<times> xint) \<times> grid3 \<times> nat \<Rightarrow> ((nat \<times> nat) option \<times> xint) \<times> grid3 \<times> nat" where
  "heuristic_step player position st =
     (case position of (i, j) \<Rightarrow> case st of ((best_move, best_heuristic), b, counter) \<Rightarrow>
        let b = set_cell b i j player; counter = Suc counter;
            heuristic_value = bfs_heuristic b player; b = set_cell b i j EMPTY
        in if Fin heuristic_value > best_heuristic then ((Some (i, j), Fin heuristic_value), b, counter)
           else ((best_move, best_heuristic), b, counter))"

definition opponent_of :: "char \<Rightarrow> char" where
  "opponent_of player = (if player = CHR ''O'' then CHR ''X'' else CHR ''O'')"

text \<open>\<open>bfs_move(board, player, counter)\<close> with the shuffled open squares \<open>sh\<close>.\<close>

definition bfs_move :: "grid3 \<Rightarrow> char \<Rightarrow> nat \<Rightarrow> (nat \<times> nat) list \<Rightarrow> (nat \<times> nat) option \<times> grid3 \<times> nat" where
  "bfs_move b player counter sh =
     (case win_scan player b counter sh of
        (Some position, b, counter) \<Rightarrow> (Some position, b, counter)
      | (None, b, counter) \<Rightarrow>
          (case win_scan (opponent_of player) b counter sh of
             (Some position, b, counter) \<Rightarrow> (Some position, b, counter)
           | (None, b, counter) \<Rightarrow>
               (case fold (heuristic_step player) sh ((None, NegInf), b, counter) of
                  ((best_move, _), b, counter) \<Rightarrow> (best_move, b, counter))))"


section \<open>Specification: the rules the player follows\<close>

text \<open>A 3 \<open>\<times>\<close> 3 board; marking square \<open>x\<close> wins for \<open>player\<close>; the heuristic value
  of marking \<open>x\<close>.\<close>

definition wf3 :: "grid3 \<Rightarrow> bool" where
  "wf3 b \<longleftrightarrow> length b = 3 \<and> list_all (\<lambda>r. length r = 3) b"

definition wins_at :: "grid3 \<Rightarrow> char \<Rightarrow> nat \<times> nat \<Rightarrow> bool" where
  "wins_at b player x \<longleftrightarrow> check_winner (set_cell b (fst x) (snd x) player) player"

definition heur_at :: "grid3 \<Rightarrow> char \<Rightarrow> nat \<times> nat \<Rightarrow> int" where
  "heur_at b player x = bfs_heuristic (set_cell b (fst x) (snd x) player) player"

text \<open>Win if possible, else block, else the first square of best heuristic value,
  all in the shuffled order.\<close>

definition rule_move :: "grid3 \<Rightarrow> char \<Rightarrow> (nat \<times> nat) list \<Rightarrow> (nat \<times> nat) option" where
  "rule_move b player sh =
     (case find (wins_at b player) sh of
        Some x \<Rightarrow> Some x
      | None \<Rightarrow> (case find (wins_at b (opponent_of player)) sh of
                  Some y \<Rightarrow> Some y
                | None \<Rightarrow> find (\<lambda>x. heur_at b player x = Max (heur_at b player ` set sh)) sh))"

section \<open>Lemmas\<close>

lemma set_get_empty_positions:
  "set (get_empty_positions b) = {(i, j). i < 3 \<and> j < 3 \<and> b ! i ! j = EMPTY}"
  by (auto simp: get_empty_positions_def)

lemma set_cell_undo:
  assumes "i < length b" and "j < length (b ! i)"
  shows "set_cell (set_cell b i j v) i j (b ! i ! j) = b"
  using assms by (simp add: set_cell_def)

text \<open>A trial on an open square followed by the undo leaves the board as it was.\<close>

lemma set_cell_undo_open:
  assumes "wf3 b" and "(i, j) \<in> set (get_empty_positions b)"
  shows "set_cell (set_cell b i j v) i j EMPTY = b"
proof -
  have "i < length b" "j < length (b ! i)" "b ! i ! j = EMPTY"
    using assms by (auto simp: wf3_def set_get_empty_positions list_all_length)
  then show ?thesis using set_cell_undo[of i b j v] by simp
qed

text \<open>The in-place loop is the pure search \<open>find\<close>: it returns the first winning
  square, restores the board, and counts one trial per square up to and including
  the one it returns.\<close>

lemma win_scan_find:
  assumes "wf3 b" and "set ps \<subseteq> set (get_empty_positions b)"
  shows "win_scan player b c ps =
    (find (wins_at b player) ps, b,
     c + (case find (wins_at b player) ps of
            None \<Rightarrow> length ps
          | Some _ \<Rightarrow> Suc (length (takeWhile (\<lambda>x. \<not> wins_at b player x) ps))))"
  using assms(2)
proof (induction ps arbitrary: c)
  case (Cons x ps)
  obtain i j where x: "x = (i, j)" by fastforce
  have u: "set_cell (set_cell b i j player) i j EMPTY = b"
    using set_cell_undo_open[OF assms(1)] Cons.prems x by simp
  have w: "check_winner (set_cell b i j player) player \<longleftrightarrow> wins_at b player (i, j)"
    by (simp add: wins_at_def)
  show ?case
    using Cons u x by (cases "find (wins_at b player) ps") (auto simp: w Let_def)
qed simp

lemma heuristic_fold:
  assumes "wf3 b" and "set ps \<subseteq> set (get_empty_positions b)"
  shows "fold (heuristic_step player) ps ((bm, bh), b, c) =
    (prod.swap (fold (argmax_step (\<lambda>x. Fin (heur_at b player x))) ps (bh, bm)), b, c + length ps)"
  using assms(2)
proof (induction ps arbitrary: bm bh c)
  case (Cons x ps)
  obtain i j where x: "x = (i, j)" by fastforce
  have u: "set_cell (set_cell b i j player) i j EMPTY = b"
    using set_cell_undo_open[OF assms(1)] Cons.prems x by simp
  have "heuristic_step player x ((bm, bh), b, c) =
      (prod.swap (argmax_step (\<lambda>x. Fin (heur_at b player x)) x (bh, bm)), b, Suc c)"
    using u x by (simp add: heuristic_step_def argmax_step_def heur_at_def Let_def)
  then show ?case using Cons by (simp add: prod.swap_def)
qed simp

lemma heuristic_fold_move:
  "snd (fold (argmax_step (\<lambda>x. Fin (h x))) ps (NegInf, None)) = find (\<lambda>x. h x = Max (h ` set ps)) ps"
proof (cases "ps = []")
  case False
  have "Max ((\<lambda>x. Fin (h x)) ` set ps) = Fin (Max (h ` set ps))"
    using mono_Max_commute[OF mono_Fin, of "h ` set ps"] False by (simp add: image_image)
  then show ?thesis using False by (simp add: fold_argmax_move)
qed simp

lemma bfs_move_rule:
  assumes "wf3 b" and "set sh \<subseteq> set (get_empty_positions b)"
  shows "fst (bfs_move b player c sh) = rule_move b player sh \<and> fst (snd (bfs_move b player c sh)) = b"
  using win_scan_find[OF assms, of player c] win_scan_find[OF assms, of "opponent_of player"]
    heuristic_fold[OF assms, of player None NegInf] heuristic_fold_move[of "heur_at b player" sh]
  by (auto simp: bfs_move_def rule_move_def prod.swap_def split: option.splits prod.splits)


lemma find_takeWhile_bound:
  "find P xs = Some x \<Longrightarrow> Suc (length (takeWhile (\<lambda>x. \<not> P x) xs)) \<le> length xs"
  by (induction xs) (auto split: if_splits)

section \<open>Properties\<close>

text \<open>
  C18. \<open>bfs_move\<close> leaves the caller's board as it found it: every trial mark on an
  open square is undone, on the paths that return early too.
\<close>

theorem bfs_move_restores_board:
  assumes "wf3 b" and "set sh \<subseteq> set (get_empty_positions b)"
  shows "fst (snd (bfs_move b player c sh)) = b"
  using bfs_move_rule[OF assms] by simp

theorem bfs_move_restores_board_witness:
  "wf3 [''X  '', '' O '', ''   ''] \<and> set (get_empty_positions [''X  '', '' O '', ''   '']) \<subseteq> set (get_empty_positions [''X  '', '' O '', ''   ''])
   \<and> fst (snd (bfs_move [''X  '', '' O '', ''   ''] (CHR ''O'') 0 (get_empty_positions [''X  '', '' O '', ''   '']))) = [''X  '', '' O '', ''   '']"
proof -
  have h: "wf3 [''X  '', '' O '', ''   '']" by code_simp
  show ?thesis using h bfs_move_restores_board[OF h, of "get_empty_positions [''X  '', '' O '', ''   '']" "CHR ''O''" 0] by simp
qed

text \<open>
  C19. If the player can win with one mark, \<open>bfs_move\<close> returns a winning square:
  the first one in the shuffled order.
\<close>

theorem bfs_move_takes_win:
  assumes "wf3 b" and "set sh \<subseteq> set (get_empty_positions b)" and "x \<in> set sh" and "wins_at b player x"
  shows "\<exists>y. fst (bfs_move b player c sh) = Some y \<and> y \<in> set sh \<and> wins_at b player y
           \<and> (\<forall>z \<in> set (takeWhile (\<lambda>z. z \<noteq> y) sh). \<not> wins_at b player z)"
proof -
  obtain y where y: "find (wins_at b player) sh = Some y"
    using find_exists[of x sh "wins_at b player", OF assms(3,4)] by blast
  then have "fst (bfs_move b player c sh) = Some y"
    using bfs_move_rule[OF assms(1,2)] by (simp add: rule_move_def)
  then show ?thesis using find_Some_mem[OF y] find_Some_before[OF y] by blast
qed

theorem bfs_move_takes_win_witness:
  "wf3 [''XO '', ''XO '', ''   ''] \<and> (2, 1) \<in> set (get_empty_positions [''XO '', ''XO '', ''   '']) \<and> wins_at [''XO '', ''XO '', ''   ''] (CHR ''O'') (2, 1)
   \<and> (\<exists>y. fst (bfs_move [''XO '', ''XO '', ''   ''] (CHR ''O'') 0 (get_empty_positions [''XO '', ''XO '', ''   ''])) = Some y \<and> wins_at [''XO '', ''XO '', ''   ''] (CHR ''O'') y)"
proof -
  have h: "wf3 [''XO '', ''XO '', ''   '']" "(2, 1) \<in> set (get_empty_positions [''XO '', ''XO '', ''   ''])" "wins_at [''XO '', ''XO '', ''   ''] (CHR ''O'') (2, 1)"
    by code_simp+
  show ?thesis using h bfs_move_takes_win[OF h(1) subset_refl h(2,3), of 0] by blast
qed

text \<open>
  C20. If the player cannot win with one mark but the opponent could, \<open>bfs_move\<close>
  returns a square on which the opponent would win, i.e. it blocks.
\<close>

theorem bfs_move_blocks:
  assumes "wf3 b" and "set sh \<subseteq> set (get_empty_positions b)"
    and "\<forall>x \<in> set sh. \<not> wins_at b player x" and "y0 \<in> set sh" and "wins_at b (opponent_of player) y0"
  shows "\<exists>y. fst (bfs_move b player c sh) = Some y \<and> y \<in> set sh \<and> wins_at b (opponent_of player) y"
proof -
  have "find (wins_at b player) sh = None" using assms(3) by (simp add: find_None_iff)
  moreover obtain y where y: "find (wins_at b (opponent_of player)) sh = Some y"
    using find_exists[of y0 sh "wins_at b (opponent_of player)", OF assms(4,5)] by blast
  ultimately have "fst (bfs_move b player c sh) = Some y"
    using bfs_move_rule[OF assms(1,2)] by (simp add: rule_move_def)
  then show ?thesis using find_Some_mem[OF y] by blast
qed

theorem bfs_move_blocks_witness:
  "wf3 [''X  '', ''XO '', ''   ''] \<and> list_all (\<lambda>x. \<not> wins_at [''X  '', ''XO '', ''   ''] (CHR ''O'') x) (get_empty_positions [''X  '', ''XO '', ''   ''])
   \<and> (2, 0) \<in> set (get_empty_positions [''X  '', ''XO '', ''   '']) \<and> wins_at [''X  '', ''XO '', ''   ''] (opponent_of (CHR ''O'')) (2, 0)
   \<and> fst (bfs_move [''X  '', ''XO '', ''   ''] (CHR ''O'') 0 (get_empty_positions [''X  '', ''XO '', ''   ''])) = Some (2, 0)"
proof -
  have h: "wf3 [''X  '', ''XO '', ''   '']" "list_all (\<lambda>x. \<not> wins_at [''X  '', ''XO '', ''   ''] (CHR ''O'') x) (get_empty_positions [''X  '', ''XO '', ''   ''])"
      "(2, 0) \<in> set (get_empty_positions [''X  '', ''XO '', ''   ''])" "wins_at [''X  '', ''XO '', ''   ''] (opponent_of (CHR ''O'')) (2, 0)"
    by code_simp+
  have "\<forall>x \<in> set (get_empty_positions [''X  '', ''XO '', ''   '']). \<not> wins_at [''X  '', ''XO '', ''   ''] (CHR ''O'') x"
    using h(2) by (simp add: list_all_iff)
  from bfs_move_blocks[OF h(1) subset_refl this h(3,4), of 0]
  obtain y where "fst (bfs_move [''X  '', ''XO '', ''   ''] (CHR ''O'') 0 (get_empty_positions [''X  '', ''XO '', ''   ''])) = Some y"
      "wins_at [''X  '', ''XO '', ''   ''] (opponent_of (CHR ''O'')) y" "y \<in> set (get_empty_positions [''X  '', ''XO '', ''   ''])" by blast
  moreover have "\<forall>y \<in> set (get_empty_positions [''X  '', ''XO '', ''   '']). wins_at [''X  '', ''XO '', ''   ''] (opponent_of (CHR ''O'')) y \<longrightarrow> y = (2, 0)"
    by code_simp
  ultimately show ?thesis using h by auto
qed

text \<open>
  C21. \<open>counter[0]\<close> counts the trial marks: at most three per open square, and
  exactly three per open square when neither side can win with one mark.
\<close>

theorem bfs_move_counter:
  assumes "wf3 b" and "set sh \<subseteq> set (get_empty_positions b)"
  shows "snd (snd (bfs_move b player c sh)) \<le> c + 3 * length sh
       \<and> (list_all (\<lambda>x. \<not> wins_at b player x \<and> \<not> wins_at b (opponent_of player) x) sh
            \<longrightarrow> snd (snd (bfs_move b player c sh)) = c + 3 * length sh)"
proof -
  let ?W1 = "wins_at b player" and ?W2 = "wins_at b (opponent_of player)"
  have eq: "snd (snd (bfs_move b player c sh)) =
      (case find ?W1 sh of
         Some _ \<Rightarrow> c + Suc (length (takeWhile (\<lambda>x. \<not> ?W1 x) sh))
       | None \<Rightarrow> (case find ?W2 sh of
                   Some _ \<Rightarrow> c + length sh + Suc (length (takeWhile (\<lambda>x. \<not> ?W2 x) sh))
                 | None \<Rightarrow> c + 3 * length sh))"
    using win_scan_find[OF assms, of player c] win_scan_find[OF assms, of "opponent_of player"]
      heuristic_fold[OF assms, of player None NegInf]
    by (cases "find ?W1 sh"; cases "find ?W2 sh") (simp_all add: bfs_move_def split: prod.split)
  have "snd (snd (bfs_move b player c sh)) \<le> c + 3 * length sh"
    unfolding eq using find_takeWhile_bound[of ?W1 sh] find_takeWhile_bound[of ?W2 sh]
    by (cases "find ?W1 sh"; cases "find ?W2 sh") auto
  moreover have "snd (snd (bfs_move b player c sh)) = c + 3 * length sh"
    if "list_all (\<lambda>x. \<not> ?W1 x \<and> \<not> ?W2 x) sh"
  proof -
    have "find ?W1 sh = None" "find ?W2 sh = None"
      using that by (auto simp: find_None_iff list_all_iff)
    then show ?thesis unfolding eq by simp
  qed
  ultimately show ?thesis by blast
qed

theorem bfs_move_counter_witness:
  "wf3 [''X  '', '' O '', ''   ''] \<and> list_all (\<lambda>x. \<not> wins_at [''X  '', '' O '', ''   ''] (CHR ''O'') x \<and> \<not> wins_at [''X  '', '' O '', ''   ''] (opponent_of (CHR ''O'')) x) (get_empty_positions [''X  '', '' O '', ''   ''])
   \<and> snd (snd (bfs_move [''X  '', '' O '', ''   ''] (CHR ''O'') 0 (get_empty_positions [''X  '', '' O '', ''   '']))) = 3 * length (get_empty_positions [''X  '', '' O '', ''   ''])"
proof -
  have h: "wf3 [''X  '', '' O '', ''   '']" "list_all (\<lambda>x. \<not> wins_at [''X  '', '' O '', ''   ''] (CHR ''O'') x \<and> \<not> wins_at [''X  '', '' O '', ''   ''] (opponent_of (CHR ''O'')) x) (get_empty_positions [''X  '', '' O '', ''   ''])"
    by code_simp+
  show ?thesis using h bfs_move_counter[OF h(1) subset_refl, of "CHR ''O''" 0] by simp
qed

end
