(* ===== verification/WinMoves.thy ===== *)
theory WinMoves
  imports Prelude
begin

text \<open>
  The tkinter program \<open>src/AI/minimax by heuristic fun(winning moves).py\<close>: a flat
  board of nine one-character strings, alpha-beta minimax from the computer's side
  (\<open>'O'\<close> wins 1, \<open>'X'\<close> wins -1), and the button handler \<open>make_move\<close>. The search
  marks and unmarks the one shared board in place; the model threads the board
  through the recursion and the loops, so that restoring it is a theorem. Since
  the recursive calls are made on the threaded board, the recursion is bounded by
  a fuel argument (\<open>None\<close> when it runs out); the lemmas show that one unit of fuel
  more than the open squares always suffices, so the fuel is never the reason a
  call returns. \<open>has_winning_move\<close>, \<open>evaluate_winning_moves\<close> and
  \<open>evaluate_board\<close> are modelled too, although no code calls them.
\<close>

section \<open>Data and operations\<close>

abbreviation EMPTY9 :: char where "EMPTY9 \<equiv> CHR '' ''"
abbreviation X9 :: char where "X9 \<equiv> CHR ''X''"
abbreviation O9 :: char where "O9 \<equiv> CHR ''O''"

definition get_possible_moves :: "char list \<Rightarrow> nat list" where
  "get_possible_moves b = filter (\<lambda>i. b ! i = EMPTY9) [0..<length b]"

definition check_winner9 :: "char list \<Rightarrow> char \<Rightarrow> bool" where
  "check_winner9 b player \<longleftrightarrow>
     list_ex (\<lambda>i. b ! i = b ! (i + 1) \<and> b ! (i + 1) = b ! (i + 2) \<and> b ! (i + 2) = player) [0, 3, 6]
     \<or> list_ex (\<lambda>i. b ! i = b ! (i + 3) \<and> b ! (i + 3) = b ! (i + 6) \<and> b ! (i + 6) = player) [0..<3]
     \<or> (b ! 0 = b ! 4 \<and> b ! 4 = b ! 8 \<and> b ! 8 = player)
     \<or> (b ! 2 = b ! 4 \<and> b ! 4 = b ! 6 \<and> b ! 6 = player)"

fun has_winning_move_loop :: "char \<Rightarrow> char list \<Rightarrow> nat list \<Rightarrow> bool \<times> char list" where
  "has_winning_move_loop player b [] = (False, b)"
| "has_winning_move_loop player b (move # moves) =
     (let b = b[move := player]
      in if check_winner9 b player then (True, b[move := EMPTY9])
         else has_winning_move_loop player (b[move := EMPTY9]) moves)"

definition has_winning_move :: "char list \<Rightarrow> char \<Rightarrow> bool \<times> char list" where
  "has_winning_move b player = has_winning_move_loop player b (get_possible_moves b)"

definition evaluate_winning_moves :: "char list \<Rightarrow> char \<Rightarrow> int \<times> char list" where
  "evaluate_winning_moves b player =
     (case has_winning_move b player of (w, b) \<Rightarrow> (if w then 1 else 0, b))"

definition evaluate_board :: "char list \<Rightarrow> int \<times> char list" where
  "evaluate_board b = evaluate_winning_moves b O9"

text \<open>
  \<open>ab9 fuel board depth is_maximizing alpha beta n\<close> is
  \<open>self.minimax(board, depth, is_maximizing, alpha, beta)\<close> with
  \<open>stats.nodes_explored_with_pruning = n\<close>; it returns the score, the board after
  the call and the counter. The loop state is \<open>None\<close> once a call ran out of fuel.
\<close>

function ab9 :: "nat \<Rightarrow> char list \<Rightarrow> nat \<Rightarrow> bool \<Rightarrow> xint \<Rightarrow> xint \<Rightarrow> nat \<Rightarrow> ((xint \<times> char list) \<times> nat) option" where
  "ab9 0 b depth is_maximizing alpha beta n = None"
| "ab9 (Suc fuel) b depth is_maximizing alpha beta n =
    (if check_winner9 b X9 then Some ((Fin (-1), b), n)
     else if check_winner9 b O9 then Some ((Fin 1, b), n)
     else if EMPTY9 \<notin> set b then Some ((Fin 0, b), n)
     else if is_maximizing then
       map_option (\<lambda>(((max_eval, b), n), alpha). ((max_eval, b), n))
         (for_break
           (\<lambda>st move. case st of None \<Rightarrow> (None, True) | Some (((max_eval, b), n), alpha) \<Rightarrow>
              (case ab9 fuel (b[move := O9]) (Suc depth) False alpha beta (Suc n) of
                 None \<Rightarrow> (None, True)
               | Some ((eval, b), n) \<Rightarrow>
                   let max_eval = max max_eval eval; b = b[move := EMPTY9]; alpha = max alpha max_eval
                   in (Some (((max_eval, b), n), alpha), beta \<le> alpha)))
           (Some (((NegInf, b), n), alpha)) (get_possible_moves b))
     else
       map_option (\<lambda>(((min_eval, b), n), beta). ((min_eval, b), n))
         (for_break
           (\<lambda>st move. case st of None \<Rightarrow> (None, True) | Some (((min_eval, b), n), beta) \<Rightarrow>
              (case ab9 fuel (b[move := X9]) (Suc depth) True alpha beta (Suc n) of
                 None \<Rightarrow> (None, True)
               | Some ((eval, b), n) \<Rightarrow>
                   let min_eval = min min_eval eval; b = b[move := EMPTY9]; beta = min beta min_eval
                   in (Some (((min_eval, b), n), beta), beta \<le> alpha)))
           (Some (((PosInf, b), n), beta)) (get_possible_moves b)))"
  by pat_completeness auto
termination
  by (relation "measure (\<lambda>(fuel, _). fuel)") auto

text \<open>\<open>get_ai_move()\<close>: the root loop over the computer's moves, with
  \<open>beta = inf\<close>; it returns the move, the board and the counter.\<close>

definition get_ai_move9 :: "nat \<Rightarrow> char list \<Rightarrow> nat \<Rightarrow> ((nat option \<times> char list) \<times> nat) option" where
  "get_ai_move9 fuel b n =
     map_option (\<lambda>((((best_score, best_move), b), n), alpha). ((best_move, b), n))
       (for_break
         (\<lambda>st move. case st of None \<Rightarrow> (None, True) | Some ((((best_score, best_move), b), n), alpha) \<Rightarrow>
            (case ab9 fuel (b[move := O9]) 0 False alpha PosInf (Suc n) of
               None \<Rightarrow> (None, True)
             | Some ((score, b), n) \<Rightarrow>
                 let b = b[move := EMPTY9];
                     (best_score, best_move) =
                       (if score > best_score then (score, Some move) else (best_score, best_move));
                     alpha = max alpha best_score
                 in (Some ((((best_score, best_move), b), n), alpha), PosInf \<le> alpha)))
         (Some ((((NegInf, None), b), n), NegInf)) (get_possible_moves b))"

record gui =
  gboard :: "char list"
  current_player :: char
  nodes_explored_with_pruning :: nat

definition new_gui :: gui where
  "new_gui = \<lparr>gboard = replicate 9 EMPTY9, current_player = X9, nodes_explored_with_pruning = 0\<rparr>"

definition reset_game :: "gui \<Rightarrow> gui" where
  "reset_game g = g\<lparr>gboard := fold (\<lambda>i b. b[i := EMPTY9]) [0..<9] (gboard g), current_player := X9\<rparr>"

text \<open>The button handler. The search gets ten units of fuel, one more than the
  squares of the board.\<close>

definition make_move9 :: "gui \<Rightarrow> nat \<Rightarrow> nat \<Rightarrow> gui" where
  "make_move9 g row col =
     (if gboard g ! (row * 3 + col) = EMPTY9 then
        let g = g\<lparr>gboard := (gboard g)[row * 3 + col := current_player g]\<rparr>
        in if check_winner9 (gboard g) (current_player g) then reset_game g
           else
             let g = g\<lparr>current_player := O9\<rparr>
             in (case get_ai_move9 10 (gboard g) (nodes_explored_with_pruning g) of
                   None \<Rightarrow> g
                 | Some ((ai_move, b), n) \<Rightarrow>
                     let g = g\<lparr>gboard := b, nodes_explored_with_pruning := n\<rparr>
                     in (case ai_move of
                           None \<Rightarrow> g
                         | Some m \<Rightarrow>
                             let g = g\<lparr>gboard := (gboard g)[m := O9]\<rparr>
                             in if check_winner9 (gboard g) O9 then reset_game g
                                else g\<lparr>current_player := X9\<rparr>))
      else g)"

text \<open>The state of the handler: nine cells holding \<open>' '\<close>, \<open>'X'\<close> or \<open>'O'\<close>;
  with the human (\<open>'X'\<close>) to move the marks are even, and the computer is only
  left as the current player on a full board, one \<open>'X'\<close> ahead.\<close>

definition gui_inv :: "gui \<Rightarrow> bool" where
  "gui_inv g \<longleftrightarrow>
     length (gboard g) = 9 \<and> list_all (\<lambda>c. c = EMPTY9 \<or> c = X9 \<or> c = O9) (gboard g) \<and>
     (if current_player g = X9 then count_list (gboard g) X9 = count_list (gboard g) O9
      else current_player g = O9 \<and> EMPTY9 \<notin> set (gboard g) \<and>
           count_list (gboard g) X9 = Suc (count_list (gboard g) O9))"


text \<open>The states of \<open>root.mainloop()\<close>, which \<open>run()\<close> starts on a new window:
  every button \<open>(row, col)\<close> of the 3 \<open>\<times>\<close> 3 grid calls \<open>make_move(row, col)\<close>.\<close>

inductive win_reachable :: "gui \<Rightarrow> bool" where
  init: "win_reachable new_gui"
| click: "win_reachable g \<Longrightarrow> row < 3 \<Longrightarrow> col < 3 \<Longrightarrow> win_reachable (make_move9 g row col)"

text \<open>The reference: exhaustive minimax on the flat board, with the same terminal
  tests and the same scores, \<open>'O'\<close> maximizing.\<close>

function mm9 :: "char list \<Rightarrow> bool \<Rightarrow> int" where
  "mm9 b mx =
     (if check_winner9 b X9 then -1
      else if check_winner9 b O9 then 1
      else if EMPTY9 \<notin> set b then 0
      else if mx then Max (set (map (\<lambda>m. mm9 (b[m := O9]) False) (get_possible_moves b)))
      else Min (set (map (\<lambda>m. mm9 (b[m := X9]) True) (get_possible_moves b))))"
  by pat_completeness auto
termination
  by (relation "measure (\<lambda>(b, mx). length (get_possible_moves b))")
     (auto simp: get_possible_moves_def intro!: length_filter_mark_less)

declare mm9.simps [simp del]


section \<open>Lemmas\<close>

lemma mem_get_possible_moves: "i \<in> set (get_possible_moves b) \<longleftrightarrow> i < length b \<and> b ! i = EMPTY9"
  by (auto simp: get_possible_moves_def)

lemma undo_move: "i \<in> set (get_possible_moves b) \<Longrightarrow> (b[i := c])[i := EMPTY9] = b"
  by (simp add: mem_get_possible_moves list_update_same_conv)

lemma clear_open: "i \<in> set (get_possible_moves b) \<Longrightarrow> b[i := EMPTY9] = b"
  by (simp add: mem_get_possible_moves list_update_same_conv)

lemma get_possible_moves_update:
  "c \<noteq> EMPTY9 \<Longrightarrow> get_possible_moves (b[i := c]) = filter (\<lambda>j. j \<noteq> i) (get_possible_moves b)"
  by (cases "i < length b")
     (auto simp: get_possible_moves_def filter_filter nth_list_update list_update_beyond intro!: filter_cong)

lemma get_possible_moves_update_less:
  assumes "i \<in> set (get_possible_moves b)" and "c \<noteq> EMPTY9"
  shows "length (get_possible_moves (b[i := c])) < length (get_possible_moves b)"
  unfolding get_possible_moves_update[OF assms(2)] using assms(1) by (rule length_filter_less) simp

lemma get_possible_moves_nonempty: "EMPTY9 \<in> set b \<Longrightarrow> get_possible_moves b \<noteq> []"
  by (auto simp: get_possible_moves_def in_set_conv_nth filter_empty_conv)

text \<open>With one unit of fuel more than the open squares, the search returns a game
  outcome and gives the board back as it received it.\<close>

lemma ab9_total:
  "length (get_possible_moves b) < fuel \<Longrightarrow>
   \<exists>v n'. ab9 fuel b d mx al be n = Some ((Fin v, b), n') \<and> -1 \<le> v \<and> v \<le> 1"
proof (induction fuel arbitrary: b d mx al be n)
  case 0
  then show ?case by simp
next
  case (Suc fuel)
  show ?case
  proof (cases "check_winner9 b X9 \<or> check_winner9 b O9 \<or> EMPTY9 \<notin> set b")
    case True
    then show ?thesis by auto
  next
    case False
    then have nt: "\<not> check_winner9 b X9" "\<not> check_winner9 b O9" "EMPTY9 \<in> set b" by auto
    obtain m0 rest where ms: "get_possible_moves b = m0 # rest"
      using get_possible_moves_nonempty[OF nt(3)] by (cases "get_possible_moves b") auto
    have mem: "m0 \<in> set (get_possible_moves b)" "\<And>m. m \<in> set rest \<Longrightarrow> m \<in> set (get_possible_moves b)"
      using ms by auto
    have child: "\<exists>v n'. ab9 fuel (b[m := c]) d' mx' al' be' n'' = Some ((Fin v, b[m := c]), n') \<and> -1 \<le> v \<and> v \<le> 1"
      if "m \<in> set (get_possible_moves b)" "c \<noteq> EMPTY9" for m c d' mx' al' be' n''
      using Suc.IH get_possible_moves_update_less[OF that] Suc.prems by fastforce
    show ?thesis
    proof (cases mx)
      case True
      show ?thesis
        unfolding ab9.simps(2)[of fuel b d mx al be n] using nt True
        apply (simp only: nt(1,2) if_False if_True not_True_eq_False nt(3) ms)
        apply (rule for_break_first_invariant[where I = "\<lambda>st. \<exists>v n'. map_option (\<lambda>(((max_eval, b), n), alpha). ((max_eval, b), n)) st = Some ((Fin v, b), n') \<and> -1 \<le> v \<and> v \<le> 1"])
        subgoal
          using child[OF mem(1), of O9 "Suc d" False al be "Suc n"] undo_move[OF mem(1)] by (auto simp: Let_def)
        subgoal for s y
          using child[OF mem(2), of y O9 "Suc d" False "snd (the s)" be "Suc (snd (fst (the s)))"] undo_move[OF mem(2)]
          by (auto simp: max_def Let_def)
        done
    next
      case False
      show ?thesis
        unfolding ab9.simps(2)[of fuel b d mx al be n] using nt False
        apply (simp only: nt(1,2) if_False if_True not_True_eq_False nt(3) ms)
        apply (rule for_break_first_invariant[where I = "\<lambda>st. \<exists>v n'. map_option (\<lambda>(((min_eval, b), n), beta). ((min_eval, b), n)) st = Some ((Fin v, b), n') \<and> -1 \<le> v \<and> v \<le> 1"])
        subgoal
          using child[OF mem(1), of X9 "Suc d" True al be "Suc n"] undo_move[OF mem(1)] by (auto simp: Let_def)
        subgoal for s y
          using child[OF mem(2), of y X9 "Suc d" True al "snd (the s)" "Suc (snd (fst (the s)))"] undo_move[OF mem(2)]
          by (auto simp: min_def Let_def)
        done
    qed
  qed
qed

lemma ab9_child:
  assumes "length (get_possible_moves b) \<le> fuel" "m \<in> set (get_possible_moves b)" "c \<noteq> EMPTY9"
  shows "\<exists>v n'. ab9 fuel (b[m := c]) d mx al be n = Some ((Fin v, b[m := c]), n') \<and> -1 \<le> v \<and> v \<le> 1"
  using ab9_total get_possible_moves_update_less[OF assms(2,3)] assms(1) by fastforce

text \<open>The root loop returns with the board restored, and a move exactly when there
  is an open square, that move open.\<close>

lemma get_ai_move9_loop:
  assumes "length (get_possible_moves b) \<le> fuel"
  shows "\<exists>m n'. get_ai_move9 fuel b n = Some ((m, b), n') \<and>
           (case m of None \<Rightarrow> get_possible_moves b = [] | Some i \<Rightarrow> i \<in> set (get_possible_moves b))"
proof (cases "get_possible_moves b")
  case Nil
  then show ?thesis by (simp add: get_ai_move9_def)
next
  case (Cons m0 rest)
  have mem: "m0 \<in> set (get_possible_moves b)" "\<And>m. m \<in> set rest \<Longrightarrow> m \<in> set (get_possible_moves b)"
    using Cons by auto
  note child = ab9_child[OF assms _ , of _ O9 0 False]
  have post: "\<exists>m n'. map_option (\<lambda>((((best_score, best_move), b), n), alpha). ((best_move, b), n)) st = Some ((m, b), n') \<and>
           (case m of None \<Rightarrow> m0 # rest = [] | Some i \<Rightarrow> i \<in> set (m0 # rest))"
    if "\<exists>bs i n' al. st = Some ((((bs, Some i), b), n'), al) \<and> i \<in> set (m0 # rest)" for st
    using that by auto
  show ?thesis
    unfolding get_ai_move9_def Cons
    apply (rule post)
    apply (rule for_break_first_invariant[where I = "\<lambda>st. \<exists>bs i n' al. st = Some ((((bs, Some i), b), n'), al) \<and> i \<in> set (m0 # rest)"])
    subgoal
      using child[OF mem(1), of NegInf PosInf "Suc n"] undo_move[OF mem(1)] by (auto simp: Let_def)
    subgoal for s y
      using child[OF mem(2), of y "snd (the s)" PosInf "Suc (snd (fst (the s)))"] undo_move[OF mem(2)]
      by (auto simp: Let_def split: if_splits)
    done
qed

lemma fold_clear:
  "k \<le> length b \<Longrightarrow> fold (\<lambda>i b. b[i := EMPTY9]) [0..<k] b = replicate k EMPTY9 @ drop k b"
proof (induction k)
  case (Suc k)
  then have "drop k b = b ! k # drop (Suc k) b" by (simp add: Cons_nth_drop_Suc)
  with Suc show ?case by (simp add: list_update_append replicate_append_same)
qed simp

lemma reset_game_board: "length (gboard g) = 9 \<Longrightarrow> gboard (reset_game g) = replicate 9 EMPTY9"
  by (simp add: reset_game_def fold_clear)

lemma reset_game_inv: "length (gboard g) = 9 \<Longrightarrow> gui_inv (reset_game g)"
  by (simp add: gui_inv_def reset_game_board list_all_iff) (simp add: reset_game_def)

lemma get_possible_moves_Nil: "get_possible_moves b = [] \<longleftrightarrow> EMPTY9 \<notin> set b"
  using get_possible_moves_nonempty by (auto simp: get_possible_moves_def in_set_conv_nth)

lemma length_get_possible_moves: "length (get_possible_moves b) \<le> length b"
  unfolding get_possible_moves_def by (metis length_filter_le length_upt minus_nat.diff_0)

lemma has_winning_move_loop_eq:
  "set ms \<subseteq> set (get_possible_moves b) \<Longrightarrow>
   has_winning_move_loop p b ms = (list_ex (\<lambda>i. check_winner9 (b[i := p]) p) ms, b)"
  by (induction ms) (auto simp: Let_def clear_open)

lemma new_gui_inv: "gui_inv new_gui"
  by code_simp


text \<open>The reference's value at an open node, in the form the loop lemmas give.\<close>

lemma mm9_max_value:
  assumes "\<not> check_winner9 b X9" "\<not> check_winner9 b O9" "EMPTY9 \<in> set b"
  shows "Fin (mm9 b True) = Max (insert NegInf ((\<lambda>m. Fin (mm9 (b[m := O9]) False)) ` set (get_possible_moves b)))"
proof -
  let ?S = "(\<lambda>m. mm9 (b[m := O9]) False) ` set (get_possible_moves b)"
  have ne: "?S \<noteq> {}" using get_possible_moves_nonempty[OF assms(3)] by simp
  have "Fin (Max ?S) = Max (Fin ` ?S)" using mono_Max_commute[OF mono_Fin, of ?S] ne by simp
  then show ?thesis using assms ne by (simp add: mm9.simps[of b True] image_image)
qed

lemma mm9_min_value:
  assumes "\<not> check_winner9 b X9" "\<not> check_winner9 b O9" "EMPTY9 \<in> set b"
  shows "Fin (mm9 b False) = Min (insert PosInf ((\<lambda>m. Fin (mm9 (b[m := X9]) True)) ` set (get_possible_moves b)))"
proof -
  let ?S = "(\<lambda>m. mm9 (b[m := X9]) True) ` set (get_possible_moves b)"
  have ne: "?S \<noteq> {}" using get_possible_moves_nonempty[OF assms(3)] by simp
  have "Fin (Min ?S) = Min (Fin ` ?S)" using mono_Min_commute[OF mono_Fin, of ?S] ne by simp
  then show ?thesis using assms ne by (simp add: mm9.simps[of b False] image_image)
qed

text \<open>Fishburn's fail-soft bound: with enough fuel, in every window
  \<open>alpha < beta\<close>, \<open>minimax\<close> returns \<open>r\<close> with
  \<open>min v beta \<le> r \<le> max v alpha\<close> for the exhaustive value \<open>v\<close>, and restores
  the board.\<close>

lemma ab9_fishburn:
  "length (get_possible_moves b) < fuel \<Longrightarrow> al < be \<Longrightarrow>
   \<exists>r n'. ab9 fuel b d mx al be n = Some ((r, b), n') \<and>
     min (Fin (mm9 b mx)) be \<le> r \<and> r \<le> max (Fin (mm9 b mx)) al"
proof (induction fuel arbitrary: b d mx al be n)
  case 0
  then show ?case by simp
next
  case (Suc fuel)
  show ?case
  proof (cases "check_winner9 b X9 \<or> check_winner9 b O9 \<or> EMPTY9 \<notin> set b")
    case True
    then show ?thesis
      by (auto simp: mm9.simps[of b mx] min_le_iff_disj le_max_iff_disj)
  next
    case False
    then have nt: "\<not> check_winner9 b X9" "\<not> check_winner9 b O9" "EMPTY9 \<in> set b" by auto
    have len: "length (get_possible_moves b) \<le> fuel" using Suc.prems(1) by simp
    have IH: "\<exists>r n'. ab9 fuel (b[m := c]) d' mx' al' be' n'' = Some ((r, b[m := c]), n') \<and>
                min (Fin (mm9 (b[m := c]) mx')) be' \<le> r \<and> r \<le> max (Fin (mm9 (b[m := c]) mx')) al'"
      if "m \<in> set (get_possible_moves b)" "c \<noteq> EMPTY9" "al' < be'" for m c d' mx' al' be' n''
      using Suc.IH[OF _ that(3)] get_possible_moves_update_less[OF that(1,2)] len by simp
    have post: "\<exists>r n'. map_option (\<lambda>(((max_eval, b), n), alpha). ((max_eval, b), n)) X = Some ((r, b), n') \<and> P r"
      if "\<exists>r n' al'. X = Some (((r, b), n'), al') \<and> P r" for X and P :: "xint \<Rightarrow> bool"
      using that by auto
    show ?thesis
    proof (cases mx)
      case True
      then have mxT: "mx = True" by simp
      show ?thesis
        unfolding mxT mm9_max_value[OF nt] ab9.simps(2)[of fuel b d True al be n]
        apply (simp only: nt(1,2) if_False if_True not_True_eq_False nt(3))
        apply (rule post)
        apply (rule fs_max_loop[where brd = b and v = "\<lambda>m. Fin (mm9 (b[m := O9]) False)"
              and E = "\<lambda>al n m. fst (fst (the (ab9 fuel (b[m := O9]) (Suc d) False al be (Suc n))))"
              and N = "\<lambda>al n m. snd (the (ab9 fuel (b[m := O9]) (Suc d) False al be (Suc n)))"])
        subgoal for m n' al' x
          using ab9_child[OF len, of x O9 "Suc d" False al' be "Suc n'"] undo_move[of x b O9] by (auto simp: Let_def)
        subgoal for x al' n'
          using IH[of x O9 al' be "Suc d" False "Suc n'"] by auto
        using Suc.prems(2) by simp_all
    next
      case False
      then have mxF: "mx = False" by simp
      show ?thesis
        unfolding mxF mm9_min_value[OF nt] ab9.simps(2)[of fuel b d False al be n]
        apply (simp only: nt(1,2) if_False if_True not_True_eq_False nt(3))
        apply (rule post)
        apply (rule fs_min_loop[where brd = b and v = "\<lambda>m. Fin (mm9 (b[m := X9]) True)"
              and E = "\<lambda>be n m. fst (fst (the (ab9 fuel (b[m := X9]) (Suc d) True al be (Suc n))))"
              and N = "\<lambda>be n m. snd (the (ab9 fuel (b[m := X9]) (Suc d) True al be (Suc n)))"])
        subgoal for m n' be' x
          using ab9_child[OF len, of x X9 "Suc d" True al be' "Suc n'"] undo_move[of x b X9] by (auto simp: Let_def)
        subgoal for x be' n'
          using IH[of x X9 al be' "Suc d" True "Suc n'"] by auto
        using Suc.prems(2) by simp_all
    qed
  qed
qed

text \<open>The root loop of \<open>get_ai_move()\<close> with enough fuel is the loop that keeps the
  first square of best exhaustive value: \<open>alpha\<close> is always the best score, the
  window \<open>(alpha, inf)\<close> never cuts, and by Fishburn's bound a child's score
  beats the best score exactly when its true value does, and is then that value.\<close>

lemma get_ai_move9_root_loop:
  assumes len: "length (get_possible_moves b) \<le> fuel" and sub: "set ys \<subseteq> set (get_possible_moves b)"
    and bs: "bs \<noteq> PosInf"
  shows "\<exists>n'. for_break
      (\<lambda>st move. case st of None \<Rightarrow> (None, True) | Some ((((best_score, best_move), b), n), alpha) \<Rightarrow>
         (case ab9 fuel (b[move := O9]) 0 False alpha PosInf (Suc n) of
            None \<Rightarrow> (None, True)
          | Some ((score, b), n) \<Rightarrow>
              let b = b[move := EMPTY9];
                  (best_score, best_move) =
                    (if score > best_score then (score, Some move) else (best_score, best_move));
                  alpha = max alpha best_score
              in (Some ((((best_score, best_move), b), n), alpha), PosInf \<le> alpha)))
      (Some ((((bs, bm), b), n), bs)) ys
    = Some (((fold (argmax_step (\<lambda>m. Fin (mm9 (b[m := O9]) False))) ys (bs, bm), b), n'),
            fst (fold (argmax_step (\<lambda>m. Fin (mm9 (b[m := O9]) False))) ys (bs, bm)))"
  using sub bs
proof (induction ys arbitrary: bs bm n)
  case Nil
  then show ?case by simp
next
  case (Cons x ys)
  let ?v = "\<lambda>m. Fin (mm9 (b[m := O9]) False)"
  have x: "x \<in> set (get_possible_moves b)" using Cons.prems(1) by simp
  have lt: "length (get_possible_moves (b[x := O9])) < fuel"
    using get_possible_moves_update_less[OF x, of O9] len by fastforce
  obtain r n1 where ab: "ab9 fuel (b[x := O9]) 0 False bs PosInf (Suc n) = Some ((r, b[x := O9]), n1)"
      and lo: "?v x \<le> r" and hi: "r \<le> max (?v x) bs"
    using ab9_fishburn[OF lt, of bs PosInf 0 False "Suc n"] Cons.prems(2) by (auto simp: less_le)
  have step: "argmax_step ?v x (bs, bm) = (if bs < r then (r, Some x) else (bs, bm))"
  proof (cases "bs < ?v x")
    case True
    then have "max (?v x) bs = ?v x" by (simp add: max_absorb1 less_imp_le)
    then have "r = ?v x" using lo hi by (simp add: order.antisym)
    then show ?thesis using True by (simp add: argmax_step_def)
  next
    case False
    then have "\<not> bs < r" using hi by (auto simp: max_def not_less)
    then show ?thesis using False by (simp add: argmax_step_def)
  qed
  obtain bs' bm' where st: "argmax_step ?v x (bs, bm) = (bs', bm')" by (cases "argmax_step ?v x (bs, bm)")
  have bs': "bs' \<noteq> PosInf" and ge: "bs \<le> bs'"
    using st Cons.prems(2) by (auto simp: argmax_step_def split: if_splits)
  have sub': "set ys \<subseteq> set (get_possible_moves b)" using Cons.prems(1) by simp
  note IH' = Cons.IH[where bs = bs' and bm = bm' and n = n1, OF sub' bs']
  show ?case
    using IH' ab step st ge bs' undo_move[OF x] by (auto simp: Let_def max_absorb2 split: if_splits)
qed


text \<open>The button handler \<open>make_move(row, col)\<close>, on a click in the grid, keeps
  the invariant \<open>gui_inv\<close>.\<close>

lemma make_move9_inv:
  assumes inv: "gui_inv g" and r: "row < 3" "col < 3"
  shows "gui_inv (make_move9 g row col)"
proof -
  let ?k = "row * 3 + col"
  have k: "?k < 9" using r by linarith
  show ?thesis
  proof (cases "gboard g ! ?k = EMPTY9")
    case False
    then show ?thesis by (simp add: make_move9_def inv)
  next
    case opn: True
    have len: "length (gboard g) = 9" using inv by (simp add: gui_inv_def)
    have X: "current_player g = X9"
      using inv opn nth_mem[of ?k "gboard g"] k len by (auto simp: gui_inv_def split: if_splits)
    define b1 where "b1 = (gboard g)[?k := X9]"
    have b1: "length b1 = 9" "list_all (\<lambda>c. c = EMPTY9 \<or> c = X9 \<or> c = O9) b1"
      "count_list b1 X9 = Suc (count_list b1 O9)"
      using inv X len k opn by (simp_all add: b1_def gui_inv_def list_all_mark count_list_mark)
    show ?thesis
    proof (cases "check_winner9 b1 X9")
      case True
      then show ?thesis using opn X b1 reset_game_inv
        by (simp add: make_move9_def b1_def[symmetric])
    next
      case False
      obtain m n' where ai: "get_ai_move9 10 b1 (nodes_explored_with_pruning g) = Some ((m, b1), n')"
        and mc: "case m of None \<Rightarrow> EMPTY9 \<notin> set b1 | Some i \<Rightarrow> i < 9 \<and> b1 ! i = EMPTY9"
        using get_ai_move9_loop[of b1 10 "nodes_explored_with_pruning g"] length_get_possible_moves[of b1] b1(1)
        by (auto simp: get_possible_moves_Nil mem_get_possible_moves split: option.splits)
      show ?thesis
      proof (cases m)
        case None
        then show ?thesis using opn X b1 False ai mc
          by (simp add: make_move9_def b1_def[symmetric] gui_inv_def)
      next
        case (Some i)
        have b2: "length (b1[i := O9]) = 9" "list_all (\<lambda>c. c = EMPTY9 \<or> c = X9 \<or> c = O9) (b1[i := O9])"
          "count_list (b1[i := O9]) X9 = count_list (b1[i := O9]) O9"
          using b1 mc Some by (simp_all add: list_all_mark count_list_mark)
        show ?thesis
        proof (cases "check_winner9 (b1[i := O9]) O9")
          case True
          then show ?thesis using opn X False ai Some b2(1) reset_game_inv
            by (simp add: make_move9_def b1_def[symmetric] Let_def)
        next
          case False
          then show ?thesis using opn X \<open>\<not> check_winner9 b1 X9\<close> ai Some b2
            by (simp add: make_move9_def b1_def[symmetric] gui_inv_def Let_def)
        qed
      qed
    qed
  qed
qed


section \<open>Properties\<close>

text \<open>C22: with the ten units of fuel of the handler, the search \<open>minimax\<close> returns
  on every board of nine cells, with a score -1, 0 or 1, and gives the board back
  as it received it: the in-place marks of its loops are all undone.\<close>

theorem ab9_returns_and_restores:
  "length b = 9 \<Longrightarrow> \<exists>v n'. ab9 10 b d mx al be n = Some ((Fin v, b), n') \<and> v \<in> {-1, 0, 1}"
  using ab9_total[of b 10 d mx al be n] length_get_possible_moves[of b] by auto

theorem ab9_returns_and_restores_witness:
  "length ''XX OO    '' = 9 \<and>
   (\<exists>v n'. ab9 10 ''XX OO    '' 0 False NegInf PosInf 0 = Some ((Fin v, ''XX OO    ''), n') \<and> v \<in> {-1, 0, 1})"
proof -
  have l: "length ''XX OO    '' = 9" by simp
  show ?thesis using conjI[OF l ab9_returns_and_restores[OF l]] .
qed

text \<open>C23: \<open>get_ai_move()\<close> returns on every board of nine cells with the board
  restored; it returns a move exactly when there is an open square, and that move
  is an open square.\<close>

theorem get_ai_move9_plays_open:
  "length b = 9 \<Longrightarrow> \<exists>m n'. get_ai_move9 10 b n = Some ((m, b), n') \<and>
     (case m of None \<Rightarrow> EMPTY9 \<notin> set b | Some i \<Rightarrow> i < 9 \<and> b ! i = EMPTY9)"
  using get_ai_move9_loop[of b 10 n] length_get_possible_moves[of b]
  by (fastforce simp: get_possible_moves_Nil mem_get_possible_moves split: option.splits)

theorem get_ai_move9_plays_open_witness:
  "length ''XOXXOOO  '' = 9 \<and>
   (\<exists>m n'. get_ai_move9 10 ''XOXXOOO  '' 0 = Some ((m, ''XOXXOOO  ''), n') \<and>
     (case m of None \<Rightarrow> EMPTY9 \<notin> set ''XOXXOOO  '' | Some i \<Rightarrow> i < 9 \<and> ''XOXXOOO  '' ! i = EMPTY9))"
proof -
  have l: "length ''XOXXOOO  '' = 9" by simp
  show ?thesis using conjI[OF l get_ai_move9_plays_open[OF l]] .
qed

text \<open>C24: in every state of the window's main loop the board has nine cells of
  \<open>' '\<close>, \<open>'X'\<close>, \<open>'O'\<close>, with as many \<open>'X'\<close> as \<open>'O'\<close> when the human is
  to move, and the computer is the current player only on a full board with one
  \<open>'X'\<close> more.\<close>

theorem win_reachable_gui_inv:
  assumes "win_reachable g"
  shows "length (gboard g) = 9 \<and> list_all (\<lambda>c. c = EMPTY9 \<or> c = X9 \<or> c = O9) (gboard g)
       \<and> (current_player g = X9 \<and> count_list (gboard g) X9 = count_list (gboard g) O9
          \<or> current_player g = O9 \<and> EMPTY9 \<notin> set (gboard g) \<and> count_list (gboard g) X9 = Suc (count_list (gboard g) O9))"
proof -
  have "gui_inv g" using assms
    by (induction rule: win_reachable.induct) (simp_all add: new_gui_inv make_move9_inv)
  then show ?thesis by (auto simp: gui_inv_def split: if_splits)
qed

theorem win_reachable_gui_inv_witness:
  "win_reachable new_gui \<and> length (gboard new_gui) = 9
   \<and> list_all (\<lambda>c. c = EMPTY9 \<or> c = X9 \<or> c = O9) (gboard new_gui)
   \<and> (current_player new_gui = X9 \<and> count_list (gboard new_gui) X9 = count_list (gboard new_gui) O9
      \<or> current_player new_gui = O9 \<and> EMPTY9 \<notin> set (gboard new_gui)
        \<and> count_list (gboard new_gui) X9 = Suc (count_list (gboard new_gui) O9))"
  using win_reachable.init win_reachable_gui_inv[OF win_reachable.init] by blast

text \<open>With the computer current on a full board, a click changes nothing.\<close>

lemma make_move9_full_noop:
  assumes "gui_inv g" and "current_player g = O9" and "row < 3" and "col < 3"
  shows "make_move9 g row col = g"
proof -
  have full: "EMPTY9 \<notin> set (gboard g)" and len: "length (gboard g) = 9"
    using assms(1,2) by (auto simp: gui_inv_def)
  have "row * 3 + col < length (gboard g)" using assms(3,4) len by linarith
  then have "gboard g ! (row * 3 + col) \<noteq> EMPTY9" using full nth_mem by metis
  then show ?thesis by (simp add: make_move9_def)
qed

text \<open>\<open>minimax\<close> passes \<open>depth + 1\<close> down but never reads it.\<close>

lemma ab9_depth_irrelevant: "ab9 fuel b d mx al be n = ab9 fuel b d' mx al be n"
proof (induction fuel arbitrary: b d d' mx al be n)
  case (Suc fuel)
  show ?case by (simp only: ab9.simps(2) Suc.IH[where d = "Suc d" and d' = "Suc d'"])
qed simp

text \<open>C25: the handler has no draw handling, so a drawn game is never reset: the
  human's click that fills the board without a line leaves that full board in
  place with the computer as current player (\<open>get_ai_move\<close> finds no move), and
  from then on every click on the grid leaves the state unchanged.\<close>

theorem make_move9_draw_not_reset:
  assumes "gui_inv g" and "current_player g = X9" and "row < 3" and "col < 3"
    and "gboard g ! (row * 3 + col) = EMPTY9"
    and "EMPTY9 \<notin> set ((gboard g)[row * 3 + col := X9])"
    and "\<not> check_winner9 ((gboard g)[row * 3 + col := X9]) X9"
  shows "make_move9 g row col = g\<lparr>gboard := (gboard g)[row * 3 + col := X9], current_player := O9\<rparr>
       \<and> (\<forall>r c. r < 3 \<longrightarrow> c < 3 \<longrightarrow> make_move9 (make_move9 g row col) r c = make_move9 g row col)"
proof -
  let ?b = "(gboard g)[row * 3 + col := X9]"
  have nil: "get_possible_moves ?b = []" using assms(6) by (simp add: get_possible_moves_Nil)
  have first: "make_move9 g row col = g\<lparr>gboard := ?b, current_player := O9\<rparr>"
    using assms(2,5,7) nil by (simp add: make_move9_def get_ai_move9_def Let_def)
  have "gui_inv (g\<lparr>gboard := ?b, current_player := O9\<rparr>)"
    using make_move9_inv[OF assms(1,3,4)] first by simp
  then have "make_move9 (g\<lparr>gboard := ?b, current_player := O9\<rparr>) r c = g\<lparr>gboard := ?b, current_player := O9\<rparr>"
    if "r < 3" "c < 3" for r c
    using make_move9_full_noop that by simp
  then show ?thesis using first by simp
qed

theorem make_move9_draw_not_reset_witness:
  "make_move9 \<lparr>gboard = ''XOXXOOOX '', current_player = X9, nodes_explored_with_pruning = 0\<rparr> 2 2
     = \<lparr>gboard = ''XOXXOOOXX'', current_player = O9, nodes_explored_with_pruning = 0\<rparr>
   \<and> list_all (\<lambda>(r, c).
        make_move9 \<lparr>gboard = ''XOXXOOOXX'', current_player = O9, nodes_explored_with_pruning = 0\<rparr> r c
        = \<lparr>gboard = ''XOXXOOOXX'', current_player = O9, nodes_explored_with_pruning = 0\<rparr>)
       (List.product [0, 1, 2] [0, 1, 2])"
proof -
  have h: "gui_inv \<lparr>gboard = ''XOXXOOOX '', current_player = X9, nodes_explored_with_pruning = 0\<rparr>"
    "''XOXXOOOX '' ! (2 * 3 + 2) = EMPTY9" "EMPTY9 \<notin> set (''XOXXOOOX ''[2 * 3 + 2 := X9])"
    "\<not> check_winner9 (''XOXXOOOX ''[2 * 3 + 2 := X9]) X9"
    by code_simp+
  have u: "''XOXXOOOX ''[2 * 3 + 2 := X9] = ''XOXXOOOXX''" by simp
  have t: "make_move9 \<lparr>gboard = ''XOXXOOOX '', current_player = X9, nodes_explored_with_pruning = 0\<rparr> 2 2
      = \<lparr>gboard = ''XOXXOOOX '', current_player = X9, nodes_explored_with_pruning = 0\<rparr>\<lparr>gboard := (gboard \<lparr>gboard = ''XOXXOOOX '', current_player = X9, nodes_explored_with_pruning = 0\<rparr>)[2 * 3 + 2 := X9], current_player := O9\<rparr>
    \<and> (\<forall>r c. r < 3 \<longrightarrow> c < 3 \<longrightarrow>
        make_move9 (make_move9 \<lparr>gboard = ''XOXXOOOX '', current_player = X9, nodes_explored_with_pruning = 0\<rparr> 2 2) r c = make_move9 \<lparr>gboard = ''XOXXOOOX '', current_player = X9, nodes_explored_with_pruning = 0\<rparr> 2 2)"
    by (rule make_move9_draw_not_reset) (use h in simp_all)
  then have a: "make_move9 \<lparr>gboard = ''XOXXOOOX '', current_player = X9, nodes_explored_with_pruning = 0\<rparr> 2 2 = \<lparr>gboard = ''XOXXOOOXX'', current_player = O9, nodes_explored_with_pruning = 0\<rparr>"
    by (simp add: u)
  from t have b: "\<forall>r c. r < 3 \<longrightarrow> c < 3 \<longrightarrow>
      make_move9 (make_move9 \<lparr>gboard = ''XOXXOOOX '', current_player = X9, nodes_explored_with_pruning = 0\<rparr> 2 2) r c = make_move9 \<lparr>gboard = ''XOXXOOOX '', current_player = X9, nodes_explored_with_pruning = 0\<rparr> 2 2"
    by (rule conjunct2)
  show ?thesis using b unfolding a by simp
qed

text \<open>C26: \<open>minimax\<close> takes a \<open>depth\<close> and passes \<open>depth + 1\<close> to its recursive
  calls but never reads it: its score, board and counter are the same for every
  depth, so the search is never cut off and a quick win scores no better than a
  slow one.\<close>

theorem ab9_ignores_depth:
  "ab9 fuel b d is_maximizing alpha beta n = ab9 fuel b d' is_maximizing alpha beta n"
  by (rule ab9_depth_irrelevant)

text \<open>C27: \<open>has_winning_move\<close>, which marks and unmarks the board in place, gives
  the board back unchanged and answers whether some open square wins for the
  player; \<open>evaluate_board\<close> is 1 exactly when \<open>'O'\<close> has such a square.\<close>

theorem has_winning_move_eq:
  "has_winning_move b p = (list_ex (\<lambda>i. check_winner9 (b[i := p]) p) (get_possible_moves b), b) \<and>
   evaluate_board b = (if list_ex (\<lambda>i. check_winner9 (b[i := O9]) O9) (get_possible_moves b) then 1 else 0, b)"
  by (simp add: has_winning_move_def evaluate_board_def evaluate_winning_moves_def has_winning_move_loop_eq)

text \<open>C39: with the handler's ten units of fuel, on every board of nine cells and
  in every window \<open>alpha < beta\<close>, \<open>minimax\<close> refines exhaustive minimax in
  Fishburn's fail-soft sense: it returns \<open>r\<close> with
  \<open>min v beta \<le> r \<le> max v alpha\<close> for the exhaustive value \<open>v\<close>
  (\<open>mm9\<close>), so in the window \<open>(-inf, inf)\<close> it returns \<open>v\<close> itself, and it
  gives the board back.\<close>

theorem ab9_refines_minimax:
  "length b = 9 \<Longrightarrow> al < be \<Longrightarrow>
   \<exists>r n'. ab9 10 b d mx al be n = Some ((r, b), n') \<and> min (Fin (mm9 b mx)) be \<le> r \<and> r \<le> max (Fin (mm9 b mx)) al"
  using ab9_fishburn[of b 10 al be d mx n] length_get_possible_moves[of b] by simp

theorem ab9_refines_minimax_witness:
  "length ''XX OO   X'' = 9 \<and> NegInf < PosInf \<and>
   (\<exists>r n'. ab9 10 ''XX OO   X'' 0 True NegInf PosInf 0 = Some ((r, ''XX OO   X''), n') \<and>
     min (Fin (mm9 ''XX OO   X'' True)) PosInf \<le> r \<and> r \<le> max (Fin (mm9 ''XX OO   X'' True)) NegInf)"
proof -
  have l: "length ''XX OO   X'' = 9" by simp
  have w: "NegInf < PosInf" by simp
  show ?thesis using conjI[OF l conjI[OF w ab9_refines_minimax[OF l w, of 0 True 0]]] .
qed

text \<open>C40: \<open>get_ai_move()\<close> on a board of nine cells plays the first open square,
  in index order, whose exhaustive minimax value is the best over the open
  squares, and \<open>None\<close> only on a full board: the pruning never changes the
  computer's move.\<close>

theorem get_ai_move9_plays_first_best:
  assumes "length b = 9"
  shows "\<exists>n'. get_ai_move9 10 b n =
    Some ((if get_possible_moves b = [] then None
           else find (\<lambda>m. mm9 (b[m := O9]) False = Max ((\<lambda>m. mm9 (b[m := O9]) False) ` set (get_possible_moves b)))
                  (get_possible_moves b), b), n')"
proof -
  let ?v = "\<lambda>m. mm9 (b[m := O9]) False"
  let ?xs = "get_possible_moves b"
  have len: "length ?xs \<le> 10" using length_get_possible_moves[of b] assms by simp
  obtain n' where L: "for_break
      (\<lambda>st move. case st of None \<Rightarrow> (None, True) | Some ((((best_score, best_move), b), n), alpha) \<Rightarrow>
         (case ab9 10 (b[move := O9]) 0 False alpha PosInf (Suc n) of
            None \<Rightarrow> (None, True)
          | Some ((score, b), n) \<Rightarrow>
              let b = b[move := EMPTY9];
                  (best_score, best_move) =
                    (if score > best_score then (score, Some move) else (best_score, best_move));
                  alpha = max alpha best_score
              in (Some ((((best_score, best_move), b), n), alpha), PosInf \<le> alpha)))
      (Some ((((NegInf, None), b), n), NegInf)) ?xs
    = Some (((fold (argmax_step (\<lambda>m. Fin (?v m))) ?xs (NegInf, None), b), n'),
            fst (fold (argmax_step (\<lambda>m. Fin (?v m))) ?xs (NegInf, None)))"
    using get_ai_move9_root_loop[OF len subset_refl, of NegInf None n] by auto
  have mv: "snd (fold (argmax_step (\<lambda>m. Fin (?v m))) ?xs (NegInf, None)) =
      (if ?xs = [] then None else find (\<lambda>m. ?v m = Max (?v ` set ?xs)) ?xs)"
  proof (cases "?xs = []")
    case False
    have "Max ((\<lambda>m. Fin (?v m)) ` set ?xs) = Fin (Max (?v ` set ?xs))"
      using mono_Max_commute[OF mono_Fin, of "?v ` set ?xs"] False by (simp add: image_image)
    then show ?thesis using False by (simp add: fold_argmax_move)
  qed simp
  obtain bs bm where f: "fold (argmax_step (\<lambda>m. Fin (?v m))) ?xs (NegInf, None) = (bs, bm)" by fastforce
  show ?thesis using L mv f by (simp add: get_ai_move9_def)
qed

theorem get_ai_move9_plays_first_best_witness:
  "length ''XX OO   X'' = 9 \<and>
   (\<exists>n'. get_ai_move9 10 ''XX OO   X'' 0 =
    Some ((if get_possible_moves ''XX OO   X'' = [] then None
           else find (\<lambda>m. mm9 (''XX OO   X''[m := O9]) False = Max ((\<lambda>m. mm9 (''XX OO   X''[m := O9]) False) ` set (get_possible_moves ''XX OO   X'')))
                  (get_possible_moves ''XX OO   X''), ''XX OO   X''), n'))"
proof -
  have l: "length ''XX OO   X'' = 9" by simp
  show ?thesis using conjI[OF l get_ai_move9_plays_first_best[OF l, of 0]] .
qed

end
