(* ===== verification/Grid3.thy ===== *)
theory Grid3
  imports BFS
begin

text \<open>
  Lemmas on the board of \<open>BF_Search.py\<close> and \<open>heuristic reduction.py\<close>, three
  Python lists of three one-character strings (\<open>grid3\<close> of theory \<open>BFS\<close>): the
  shape is kept by \<open>board[i][j] = v\<close>, marking an open square removes it from the
  open squares and adds one to the count of its mark in the board read row by row,
  \<open>check_draw\<close> is the absence of open squares, and a mark of one player never
  makes a line for another. Both programs' windows use them.
\<close>

section \<open>Marks\<close>

abbreviation X3 :: char where "X3 \<equiv> CHR ''X''"
abbreviation O3 :: char where "O3 \<equiv> CHR ''O''"



section \<open>Lemmas\<close>

lemma wf3_set_cell [simp]: "wf3 (set_cell b i j v) \<longleftrightarrow> wf3 b"
  by (cases "i < length b") (auto simp: wf3_def set_cell_def list_all_length nth_list_update)

lemma wf3_cases:
  assumes "wf3 b"
  obtains r0 r1 r2 where "b = [r0, r1, r2]" "length r0 = 3" "length r1 = 3" "length r2 = 3"
  using assms by (auto simp: wf3_def numeral_3_eq_3 length_Suc_conv)

lemma less3_cases: "i < (3::nat) \<Longrightarrow> i = 0 \<or> i = 1 \<or> i = 2"
  by auto

text \<open>The board read row by row: marking square \<open>(i, j)\<close> is marking entry
  \<open>3 i + j\<close> of the flat list.\<close>

lemma concat_set_cell:
  assumes "wf3 b" "i < 3" "j < 3"
  shows "concat (set_cell b i j v) = (concat b)[3 * i + j := v]"
    and "concat b ! (3 * i + j) = b ! i ! j" and "3 * i + j < length (concat b)"
proof -
  obtain r0 r1 r2 where b: "b = [r0, r1, r2]" "length r0 = 3" "length r1 = 3" "length r2 = 3"
    using wf3_cases[OF assms(1)] by blast
  show "concat (set_cell b i j v) = (concat b)[3 * i + j := v]"
    and "concat b ! (3 * i + j) = b ! i ! j" and "3 * i + j < length (concat b)"
    using assms(3) less3_cases[OF assms(2)] by (auto simp: b set_cell_def list_update_append nth_append)
qed
lemma get_empty_positions_filter:
  "get_empty_positions b = filter (\<lambda>(i, j). b ! i ! j = EMPTY) [(i, j). i \<leftarrow> [0..<3], j \<leftarrow> [0..<3]]"
  by (simp add: get_empty_positions_def upt_rec)
lemma length_get_empty_positions: "length (get_empty_positions b) \<le> 9"
  unfolding get_empty_positions_filter by (rule order_trans[OF length_filter_le]) (simp add: upt_rec)
lemma set_cell_nth:
  assumes "wf3 b" "i < 3" "j < 3" "i' < 3" "j' < 3"
  shows "set_cell b i j v ! i' ! j' = (if (i', j') = (i, j) then v else b ! i' ! j')"
  using assms by (auto simp: wf3_def set_cell_def list_all_length nth_list_update)

lemma get_empty_positions_set_cell:
  assumes "wf3 b" "(i, j) \<in> set (get_empty_positions b)" "v \<noteq> EMPTY"
  shows "get_empty_positions (set_cell b i j v) = filter (\<lambda>p. p \<noteq> (i, j)) (get_empty_positions b)"
proof -
  have ij: "i < 3" "j < 3" using assms(2) by (auto simp: set_get_empty_positions)
  show ?thesis
    using assms(3) set_cell_nth[OF assms(1) ij]
    by (auto simp: get_empty_positions_def filter_concat map_concat comp_def intro!: arg_cong[where f = concat] map_cong)
qed

lemma get_empty_positions_less:
  assumes "wf3 b" "p \<in> set (get_empty_positions b)" "v \<noteq> EMPTY"
  shows "length (get_empty_positions (set_cell b (fst p) (snd p) v)) < length (get_empty_positions b)"
  using get_empty_positions_set_cell[of b "fst p" "snd p" v] assms
  by (simp add: length_filter_less)

lemma check_draw_iff: "check_draw b \<longleftrightarrow> get_empty_positions b = []"
  by (auto simp: check_draw_def get_empty_positions_def list_all_iff)

lemma check_winner_set_cell_other:
  assumes "wf3 b" "i < 3" "j < 3" "v \<noteq> p" "check_winner (set_cell b i j v) p"
  shows "check_winner b p"
  using assms(4,5) by (auto simp: check_winner_def set_cell_nth[OF assms(1-3)] upt_rec split: if_splits)

lemma cells_set_cell:
  assumes "list_all (list_all P) b" "i < length b" "P v"
  shows "list_all (list_all P) (set_cell b i j v)"
proof -
  have "list_all P (b ! i)" using assms(1,2) nth_mem by (fastforce simp: list_all_iff)
  then show ?thesis using assms unfolding set_cell_def by (simp add: list_all_mark)
qed

lemma restart_board: "wf3 b \<Longrightarrow>
  fold (\<lambda>(i, j) b. set_cell b i j EMPTY) [(i, j). i \<leftarrow> [0..<3], j \<leftarrow> [0..<3]] b = replicate 3 (replicate 3 EMPTY)"
  by (erule wf3_cases) (auto simp: set_cell_def upt_rec numeral_3_eq_3 length_Suc_conv)

lemma count_set_cell:
  assumes "wf3 b" "i < 3" "j < 3" "b ! i ! j = EMPTY" "d \<noteq> EMPTY"
  shows "count_list (concat (set_cell b i j v)) d = (if d = v then Suc (count_list (concat b) d) else count_list (concat b) d)"
  using assms concat_set_cell[OF assms(1-3)] by (simp add: count_list_mark)

lemma empty_board_not_all_empty:
  assumes "wf3 b" "i < 3" "j < 3" "v \<noteq> EMPTY"
  shows "\<not> list_all (\<lambda>i'. list_all (\<lambda>j'. set_cell b i j v ! i' ! j' = EMPTY) [0..<3]) [0..<3]"
proof
  assume "list_all (\<lambda>i'. list_all (\<lambda>j'. set_cell b i j v ! i' ! j' = EMPTY) [0..<3]) [0..<3]"
  then have "set_cell b i j v ! i ! j = EMPTY" using assms(2,3) by (simp add: list_all_iff)
  then show False using set_cell_nth[OF assms(1-3) assms(2,3)] assms(4) by simp
qed

end
