(* ===== verification/HeurReduction.thy ===== *)
theory HeurReduction
  imports Grid3
begin

text \<open>
  The tkinter program \<open>src/AI/additional cose/heuristic reduction.py\<close>. Its
  \<open>check_winner\<close>, \<open>check_draw\<close> and \<open>get_empty_positions\<close> are the same lines
  as those of \<open>BF_Search.py\<close>; they are translated here and proved equal to
  theory \<open>BFS\<close>'s, so the lemmas of \<open>Grid3\<close> apply. \<open>minimax\<close> is
  alpha-beta from \<open>'O'\<close>'s side that marks and unmarks the one board in place and
  counts every call in \<open>counter[0]\<close>; the model threads the board and the counter,
  and bounds the recursion by fuel as in theory \<open>WinMoves\<close>. The handler
  \<open>make_move\<close> and \<open>computer_move\<close> call each other; the enabled state of the
  buttons is the flag \<open>active\<close>, which \<open>end_game\<close> clears and \<open>restart_game\<close>
  sets (a single button is also disabled once its square is marked, which the
  test \<open>board[row][col] == ' '\<close> of \<open>make_move\<close> already reflects).
\<close>

section \<open>Data and operations\<close>

text \<open>The file's own \<open>check_winner\<close>, \<open>check_draw\<close> and \<open>get_empty_positions\<close>,
  the same lines as in \<open>BF_Search.py\<close>; lemma \<open>hr_helpers_eq\<close> shows them equal to
  theory \<open>BFS\<close>'s, whose lemmas therefore apply.\<close>

definition check_winner_hr :: "grid3 \<Rightarrow> char \<Rightarrow> bool" where
  "check_winner_hr board player \<longleftrightarrow>
     list_ex (\<lambda>i. list_all (\<lambda>j. board ! i ! j = player) [0..<3] \<or> list_all (\<lambda>j. board ! j ! i = player) [0..<3]) [0..<3]
     \<or> list_all (\<lambda>i. board ! i ! i = player) [0..<3] \<or> list_all (\<lambda>i. board ! i ! (2 - i) = player) [0..<3]"

definition check_draw_hr :: "grid3 \<Rightarrow> bool" where
  "check_draw_hr board \<longleftrightarrow> list_all (\<lambda>i. list_all (\<lambda>j. board ! i ! j \<noteq> EMPTY) [0..<3]) [0..<3]"

definition get_empty_positions_hr :: "grid3 \<Rightarrow> (nat \<times> nat) list" where
  "get_empty_positions_hr board = [(i, j). i \<leftarrow> [0..<3], j \<leftarrow> [0..<3], board ! i ! j = EMPTY]"

text \<open>\<open>minimax(board, depth, maximizing_player, alpha, beta, player, counter)\<close>
  with \<open>counter[0] = c\<close>: the score, the board after the call and the counter;
  \<open>None\<close> once the fuel is spent.\<close>

function minimax_hr ::
  "nat \<Rightarrow> grid3 \<Rightarrow> int \<Rightarrow> bool \<Rightarrow> xint \<Rightarrow> xint \<Rightarrow> char \<Rightarrow> nat \<Rightarrow> ((xint \<times> grid3) \<times> nat) option" where
  "minimax_hr 0 b depth maximizing_player alpha beta player c = None"
| "minimax_hr (Suc fuel) b depth maximizing_player alpha beta player c =
    (let c = Suc c in
     if check_winner_hr b X3 then Some ((Fin (-1), b), c)
     else if check_winner_hr b O3 then Some ((Fin 1, b), c)
     else if check_draw_hr b then Some ((Fin 0, b), c)
     else if maximizing_player then
       map_option (\<lambda>(((max_eval, b), c), alpha). ((max_eval, b), c))
         (for_break
           (\<lambda>st (i, j). case st of None \<Rightarrow> (None, True) | Some (((max_eval, b), c), alpha) \<Rightarrow>
              (case minimax_hr fuel (set_cell b i j player) (depth - 1) False alpha beta
                      (if player = O3 then X3 else O3) c of
                 None \<Rightarrow> (None, True)
               | Some ((eval, b), c) \<Rightarrow>
                   let b = set_cell b i j EMPTY; max_eval = max max_eval eval; alpha = max alpha eval
                   in (Some (((max_eval, b), c), alpha), beta \<le> alpha)))
           (Some (((NegInf, b), c), alpha)) (get_empty_positions_hr b))
     else
       map_option (\<lambda>(((min_eval, b), c), beta). ((min_eval, b), c))
         (for_break
           (\<lambda>st (i, j). case st of None \<Rightarrow> (None, True) | Some (((min_eval, b), c), beta) \<Rightarrow>
              (case minimax_hr fuel (set_cell b i j player) (depth - 1) True alpha beta
                      (if player = O3 then X3 else O3) c of
                 None \<Rightarrow> (None, True)
               | Some ((eval, b), c) \<Rightarrow>
                   let b = set_cell b i j EMPTY; min_eval = min min_eval eval; beta = min beta eval
                   in (Some (((min_eval, b), c), beta), beta \<le> alpha)))
           (Some (((PosInf, b), c), beta)) (get_empty_positions_hr b)))"
  by pat_completeness auto
termination
  by (relation "measure (\<lambda>(fuel, _). fuel)") auto

text \<open>\<open>find_best_move(board, player, counter)\<close>: every open square is scored by
  \<open>minimax\<close> with depth 2 and a fresh window; the loop has no \<open>break\<close>.\<close>

definition find_best_move_hr ::
  "nat \<Rightarrow> grid3 \<Rightarrow> char \<Rightarrow> nat \<Rightarrow> (((nat \<times> nat) option \<times> grid3) \<times> nat) option" where
  "find_best_move_hr fuel b player c =
     map_option (\<lambda>(((best_val, best_move), b), c). ((best_move, b), c))
       (fold
         (\<lambda>(i, j) st. case st of None \<Rightarrow> None | Some (((best_val, best_move), b), c) \<Rightarrow>
            (case minimax_hr fuel (set_cell b i j player) 2 False NegInf PosInf
                    (if player = O3 then X3 else O3) c of
               None \<Rightarrow> None
             | Some ((move_val, b), c) \<Rightarrow>
                 let b = set_cell b i j EMPTY
                 in if move_val > best_val then Some (((move_val, Some (i, j)), b), c)
                    else Some (((best_val, best_move), b), c)))
         (get_empty_positions_hr b) (Some (((NegInf, None), b), c)))"

record hr_gui =
  hboard :: grid3
  hcurrent :: char
  search_space_counter :: nat
  active :: bool

definition new_hr_gui :: hr_gui where
  "new_hr_gui = \<lparr>hboard = replicate 3 (replicate 3 EMPTY), hcurrent = X3, search_space_counter = 0, active = True\<rparr>"

text \<open>\<open>reset_game\<close> and \<open>end_game\<close> both only disable the buttons;
  \<open>show_winner_message\<close> prints and calls \<open>reset_game\<close>.\<close>

definition end_game :: "hr_gui \<Rightarrow> hr_gui" where
  "end_game g = g\<lparr>active := False\<rparr>"

definition reset_game_hr :: "hr_gui \<Rightarrow> hr_gui" where
  "reset_game_hr g = g\<lparr>active := False\<rparr>"

definition show_winner_message_hr :: "hr_gui \<Rightarrow> hr_gui" where
  "show_winner_message_hr g = reset_game_hr g"

definition restart_game :: "hr_gui \<Rightarrow> hr_gui" where
  "restart_game g =
     g\<lparr>hboard := fold (\<lambda>(i, j) b. set_cell b i j EMPTY) [(i, j). i \<leftarrow> [0..<3], j \<leftarrow> [0..<3]] (hboard g),
       hcurrent := X3, search_space_counter := 0, active := True\<rparr>"

datatype hr_error = Unpack_none | Search_fuel

definition corners :: "(nat \<times> nat) list" where
  "corners = [(0, 0), (0, 2), (2, 0), (2, 2)]"

text \<open>The handler and \<open>computer_move\<close>; \<open>r\<close> is the index of the corner that
  \<open>random.choice\<close> draws. \<open>row, col = None\<close> raises \<open>TypeError\<close>
  (\<open>Unpack_none\<close>); \<open>Search_fuel\<close> is the search running out of its ten units of
  fuel, which the lemmas exclude.\<close>

function make_move_hr :: "hr_gui \<Rightarrow> nat \<Rightarrow> nat \<Rightarrow> nat \<Rightarrow> hr_error + hr_gui"
  and computer_move_hr :: "hr_gui \<Rightarrow> nat \<Rightarrow> hr_error + hr_gui" where
  "make_move_hr g row col r =
     (if hboard g ! row ! col = EMPTY then
        let g = g\<lparr>hboard := set_cell (hboard g) row col (hcurrent g)\<rparr>
        in if check_winner_hr (hboard g) (hcurrent g) then Inr (end_game (show_winner_message_hr g))
           else if check_draw_hr (hboard g) then Inr (end_game g)
           else
             let g = g\<lparr>hcurrent := (if hcurrent g = O3 then X3 else O3)\<rparr>
             in if hcurrent g = O3 then computer_move_hr g r else Inr g
      else Inr g)"
| "computer_move_hr g r =
     (if list_all (\<lambda>i. list_all (\<lambda>j. hboard g ! i ! j = EMPTY) [0..<3]) [0..<3] then
        make_move_hr g (fst (corners ! r)) (snd (corners ! r)) r
      else
        (case find_best_move_hr 10 (hboard g) (hcurrent g) (search_space_counter g) of
           None \<Rightarrow> Inl Search_fuel
         | Some ((None, b), c) \<Rightarrow> Inl Unpack_none
         | Some ((Some (row, col), b), c) \<Rightarrow>
             make_move_hr (g\<lparr>hboard := b, search_space_counter := c\<rparr>) row col r))"
  by pat_completeness auto
termination
  by (relation "measure (case_sum (\<lambda>(g, _). if hcurrent g = O3 then 0 else 2)
                                  (\<lambda>(g, _). if hcurrent g = O3 then 1 else 3))") auto

declare make_move_hr.simps [simp del] computer_move_hr.simps [simp del]


text \<open>The events of the window: a click on the button of square \<open>(row, col)\<close>,
  which tkinter delivers only while the button is enabled, and the key \<open>'r'\<close>.\<close>

definition click_hr :: "hr_gui \<Rightarrow> nat \<Rightarrow> nat \<Rightarrow> nat \<Rightarrow> hr_error + hr_gui" where
  "click_hr g row col r = (if active g then make_move_hr g row col r else Inr g)"

datatype hr_event = Button nat nat | Key_r

definition valid_event :: "hr_event \<Rightarrow> bool" where
  "valid_event ev = (case ev of Button row col \<Rightarrow> row < 3 \<and> col < 3 | Key_r \<Rightarrow> True)"

definition hr_step :: "hr_gui \<Rightarrow> hr_event \<Rightarrow> nat \<Rightarrow> hr_error + hr_gui" where
  "hr_step g ev r = (case ev of Button row col \<Rightarrow> click_hr g row col r | Key_r \<Rightarrow> Inr (restart_game g))"

inductive hr_reachable :: "hr_gui \<Rightarrow> bool" where
  init: "hr_reachable new_hr_gui"
| step: "hr_reachable g \<Longrightarrow> valid_event ev \<Longrightarrow> hr_step g ev r = Inr g' \<Longrightarrow> hr_reachable g'"

text \<open>The invariant of the window: a board of three rows of three cells holding
  \<open>' '\<close>, \<open>'X'\<close> or \<open>'O'\<close>; while the buttons are enabled the human
  (\<open>'X'\<close>) is to move, the marks are even, and nobody has a line.\<close>

definition hr_inv :: "hr_gui \<Rightarrow> bool" where
  "hr_inv g \<longleftrightarrow> wf3 (hboard g) \<and> list_all (list_all (\<lambda>c. c = EMPTY \<or> c = X3 \<or> c = O3)) (hboard g) \<and>
     (active g \<longrightarrow> hcurrent g = X3 \<and>
        count_list (concat (hboard g)) X3 = count_list (concat (hboard g)) O3 \<and>
        \<not> check_winner (hboard g) X3 \<and> \<not> check_winner (hboard g) O3)"


section \<open>Lemmas\<close>

lemma hr_helpers_eq [simp]:
  "check_winner_hr = check_winner" "check_draw_hr = check_draw" "get_empty_positions_hr = get_empty_positions"
  by (simp_all add: fun_eq_iff check_winner_hr_def check_winner_def check_draw_hr_def check_draw_def
        get_empty_positions_hr_def get_empty_positions_def)

text \<open>\<open>show_winner_message\<close> only disables the buttons, through \<open>reset_game\<close>,
  as \<open>end_game\<close> does.\<close>

lemma show_winner_message_hr_eq [simp]: "show_winner_message_hr g = end_game g"
  by (simp add: show_winner_message_hr_def reset_game_hr_def end_game_def)


text \<open>With one unit of fuel more than the open squares, \<open>minimax\<close> returns a game
  outcome, gives the board back as it received it, and has counted its call.\<close>

lemma minimax_hr_total:
  "wf3 b \<Longrightarrow> player \<noteq> EMPTY \<Longrightarrow> length (get_empty_positions b) < fuel \<Longrightarrow>
   \<exists>v c'. minimax_hr fuel b d mp al be player c = Some ((Fin v, b), c') \<and> -1 \<le> v \<and> v \<le> 1 \<and> c < c'"
proof (induction fuel arbitrary: b d mp al be player c)
  case 0
  then show ?case by simp
next
  case (Suc fuel)
  show ?case
  proof (cases "check_winner b X3 \<or> check_winner b O3 \<or> check_draw b")
    case True
    then show ?thesis by auto
  next
    case False
    then have nt: "\<not> check_winner b X3" "\<not> check_winner b O3" "\<not> check_draw b" by auto
    obtain p0 rest where ps: "get_empty_positions b = p0 # rest"
      using nt(3) by (cases "get_empty_positions b") (auto simp: check_draw_iff)
    have mem: "p0 \<in> set (get_empty_positions b)" "\<And>p. p \<in> set rest \<Longrightarrow> p \<in> set (get_empty_positions b)"
      using ps by auto
    have child: "\<exists>v c''. minimax_hr fuel (set_cell b (fst p) (snd p) player) d' mp' al' be' pl c0
                   = Some ((Fin v, set_cell b (fst p) (snd p) player), c'') \<and> -1 \<le> v \<and> v \<le> 1 \<and> c0 < c''"
      if "p \<in> set (get_empty_positions b)" "pl \<noteq> EMPTY" for p d' mp' al' be' pl c0
      using Suc.IH[of "set_cell b (fst p) (snd p) player"] get_empty_positions_less[OF Suc.prems(1) that(1) Suc.prems(2)]
        Suc.prems that(2) by auto
    have undo: "set_cell (set_cell b (fst p) (snd p) player) (fst p) (snd p) EMPTY = b"
      if "p \<in> set (get_empty_positions b)" for p
      using set_cell_undo_open[OF Suc.prems(1), of "fst p" "snd p"] that by simp
    have opp: "(if player = O3 then X3 else O3) \<noteq> EMPTY" by simp
    show ?thesis
    proof (cases mp)
      case True
      show ?thesis
        unfolding minimax_hr.simps(2)[of fuel b d mp al be player c] Let_def hr_helpers_eq
        apply (simp only: nt if_False True if_True ps)
        apply (rule for_break_first_invariant[where I = "\<lambda>st. \<exists>v c'. map_option (\<lambda>(((max_eval, b), c), alpha). ((max_eval, b), c)) st = Some ((Fin v, b), c') \<and> -1 \<le> v \<and> v \<le> 1 \<and> c < c'"])
        subgoal
          using child[OF mem(1) opp, of "d - 1" False al be "Suc c"] undo[OF mem(1)]
          by (auto simp: split_beta)
        subgoal for s y
          using child[OF mem(2) opp, of y "d - 1" False "snd (the s)" be "snd (fst (the s))"] undo[OF mem(2)]
          by (auto simp: split_beta max_def)
        done
    next
      case False
      show ?thesis
        unfolding minimax_hr.simps(2)[of fuel b d mp al be player c] Let_def hr_helpers_eq
        apply (simp only: nt if_False False ps)
        apply (rule for_break_first_invariant[where I = "\<lambda>st. \<exists>v c'. map_option (\<lambda>(((min_eval, b), c), beta). ((min_eval, b), c)) st = Some ((Fin v, b), c') \<and> -1 \<le> v \<and> v \<le> 1 \<and> c < c'"])
        subgoal
          using child[OF mem(1) opp, of "d - 1" True al be "Suc c"] undo[OF mem(1)]
          by (auto simp: split_beta)
        subgoal for s y
          using child[OF mem(2) opp, of y "d - 1" True al "snd (the s)" "snd (fst (the s))"] undo[OF mem(2)]
          by (auto simp: split_beta min_def)
        done
    qed
  qed
qed

text \<open>The argument \<open>depth\<close> is passed down, decremented, and never read.\<close>

lemma minimax_hr_depth_zero:
  "minimax_hr fuel b d mp al be player c = minimax_hr fuel b 0 mp al be player c"
proof (induction fuel arbitrary: b d mp al be player c)
  case (Suc fuel)
  show ?case by (simp only: minimax_hr.simps Suc.IH[where d = "d - 1"] Suc.IH[where d = "0 - 1"])
qed simp

text \<open>\<open>find_best_move\<close> returns with the board restored, and a square exactly when
  one is open, that square open.\<close>

lemma find_best_move_hr_total:
  assumes "wf3 b" "player \<noteq> EMPTY" "length (get_empty_positions b) \<le> fuel"
  shows "\<exists>m c'. find_best_move_hr fuel b player c = Some ((m, b), c') \<and> c \<le> c' \<and>
           (case m of None \<Rightarrow> get_empty_positions b = [] | Some p \<Rightarrow> p \<in> set (get_empty_positions b))"
proof (cases "get_empty_positions b")
  case Nil
  then show ?thesis by (simp add: find_best_move_hr_def)
next
  case (Cons p0 rest)
  have mem: "p0 \<in> set (get_empty_positions b)" "\<And>p. p \<in> set rest \<Longrightarrow> p \<in> set (get_empty_positions b)"
    using Cons by auto
  have child: "\<exists>v c''. minimax_hr fuel (set_cell b (fst p) (snd p) player) 2 False NegInf PosInf
                 (if player = O3 then X3 else O3) c0
               = Some ((Fin v, set_cell b (fst p) (snd p) player), c'') \<and> c0 < c''"
    if "p \<in> set (get_empty_positions b)" for p c0
  proof -
    have "length (get_empty_positions (set_cell b (fst p) (snd p) player)) < fuel"
      using get_empty_positions_less[OF assms(1) that assms(2)] assms(3) by simp
    then show ?thesis
      using minimax_hr_total[where b = "set_cell b (fst p) (snd p) player" and player = "if player = O3 then X3 else O3"
          and fuel = fuel and d = 2 and mp = False and al = NegInf and be = PosInf and c = c0] assms(1)
      by auto
  qed
  have undo: "set_cell (set_cell b (fst p) (snd p) player) (fst p) (snd p) EMPTY = b"
    if "p \<in> set (get_empty_positions b)" for p
    using set_cell_undo_open[OF assms(1), of "fst p" "snd p"] that by simp
  have post: "\<exists>m c'. map_option (\<lambda>(((best_val, best_move), b), c). ((best_move, b), c)) st = Some ((m, b), c') \<and> c \<le> c' \<and>
           (case m of None \<Rightarrow> p0 # rest = [] | Some p \<Rightarrow> p \<in> set (p0 # rest))"
    if "\<exists>bv p c'. st = Some (((bv, Some p), b), c') \<and> p \<in> set (p0 # rest) \<and> c \<le> c'" for st
    using that by auto
  show ?thesis
    unfolding find_best_move_hr_def hr_helpers_eq Cons fold_simps(2)
    apply (rule post)
    apply (rule fold_invariant[where Q = "\<lambda>p. p \<in> set rest"])
      apply simp
    subgoal
      using child[OF mem(1), of c] undo[OF mem(1)] Cons by (cases p0) (auto simp: split_beta)
    subgoal for p s
      using child[OF mem(2), of p "snd (the s)"] undo[OF mem(2), of p] Cons
      by (cases p) (auto simp: split_beta Let_def)
    done
qed

lemma make_move_hr_O:
  assumes "hcurrent g = O3"
  shows "\<exists>g'. make_move_hr g row col r = Inr g' \<and> (wf3 (hboard g) \<longrightarrow> wf3 (hboard g'))"
  using assms by (simp add: make_move_hr.simps(1)[of g row col r] Let_def end_game_def)

lemma computer_move_hr_reply:
  assumes "wf3 (hboard g)" "hcurrent g = O3" "\<not> check_draw (hboard g)"
    and "\<not> list_all (\<lambda>i. list_all (\<lambda>j. hboard g ! i ! j = EMPTY) [0..<3]) [0..<3]"
  shows "\<exists>p c'. p \<in> set (get_empty_positions (hboard g)) \<and>
           computer_move_hr g r = make_move_hr (g\<lparr>hboard := hboard g, search_space_counter := c'\<rparr>) (fst p) (snd p) r"
proof -
  obtain m c' where fb: "find_best_move_hr 10 (hboard g) O3 (search_space_counter g) = Some ((m, hboard g), c')"
    and mc: "case m of None \<Rightarrow> get_empty_positions (hboard g) = [] | Some p \<Rightarrow> p \<in> set (get_empty_positions (hboard g))"
    using find_best_move_hr_total[OF assms(1), of O3 10 "search_space_counter g"] length_get_empty_positions[of "hboard g"]
    by auto
  obtain p where m: "m = Some p" using mc assms(3) by (cases m) (auto simp: check_draw_iff)
  show ?thesis
    using mc m assms(2,4) fb by (auto simp: computer_move_hr.simps[of g r] split: prod.splits)
qed

text \<open>A human move that neither wins nor fills the board hands over to
  \<open>computer_move\<close> with \<open>'O'\<close> as current player.\<close>

lemma make_move_hr_human:
  assumes "hboard g ! row ! col = EMPTY" "hcurrent g \<noteq> O3"
    and "\<not> check_winner (set_cell (hboard g) row col (hcurrent g)) (hcurrent g)"
    and "\<not> check_draw (set_cell (hboard g) row col (hcurrent g))"
  shows "make_move_hr g row col r =
           computer_move_hr (g\<lparr>hboard := set_cell (hboard g) row col (hcurrent g), hcurrent := O3\<rparr>) r"
  using assms by (simp add: make_move_hr.simps(1)[of g row col r] Let_def)

text \<open>The computer's own \<open>make_move\<close> on an open square: mark, end the game on a
  line or a full board, and otherwise give the turn back to \<open>'X'\<close>.\<close>

lemma make_move_hr_computer:
  assumes "hcurrent g = O3" "hboard g ! row ! col = EMPTY"
  shows "make_move_hr g row col r =
           (let b = set_cell (hboard g) row col O3
            in if check_winner b O3 then Inr (end_game (show_winner_message_hr (g\<lparr>hboard := b\<rparr>)))
               else if check_draw b then Inr (end_game (g\<lparr>hboard := b\<rparr>))
               else Inr (g\<lparr>hboard := b, hcurrent := X3\<rparr>))"
  using assms by (simp add: make_move_hr.simps(1)[of g row col r] Let_def)

lemma click_hr_inv:
  assumes inv: "hr_inv g" and rc: "row < 3" "col < 3"
  shows "\<exists>g'. click_hr g row col r = Inr g' \<and> hr_inv g'"
proof (cases "active g \<and> hboard g ! row ! col = EMPTY")
  case False
  then show ?thesis using inv by (auto simp: click_hr_def make_move_hr.simps(1)[of g row col r])
next
  case True
  let ?b = "hboard g"
  let ?b1 = "set_cell ?b row col X3"
  have wf: "wf3 ?b" and cells: "list_all (list_all (\<lambda>c. c = EMPTY \<or> c = X3 \<or> c = O3)) ?b"
    and X: "hcurrent g = X3" and cnt: "count_list (concat ?b) X3 = count_list (concat ?b) O3"
    using inv True by (auto simp: hr_inv_def)
  have len: "row < length ?b" using wf rc by (simp add: wf3_def)
  have wf1: "wf3 ?b1" and cells1: "list_all (list_all (\<lambda>c. c = EMPTY \<or> c = X3 \<or> c = O3)) ?b1"
    using wf cells_set_cell[OF cells len] by auto
  show ?thesis
  proof (cases "check_winner ?b1 X3 \<or> check_draw ?b1")
    case True
    then show ?thesis using \<open>active g \<and> ?b ! row ! col = EMPTY\<close> X wf1 cells1
      by (auto simp: click_hr_def make_move_hr.simps(1)[of g row col r] end_game_def hr_inv_def Let_def)
  next
    case False
    let ?g1 = "g\<lparr>hboard := ?b1, hcurrent := O3\<rparr>"
    obtain p c' where p: "p \<in> set (get_empty_positions ?b1)"
      and cm: "computer_move_hr ?g1 r = make_move_hr (?g1\<lparr>hboard := ?b1, search_space_counter := c'\<rparr>) (fst p) (snd p) r"
      using computer_move_hr_reply[of ?g1 r] wf1 False empty_board_not_all_empty[OF wf rc] by auto
    have pe: "fst p < 3" "snd p < 3" "?b1 ! fst p ! snd p = EMPTY"
      using p by (auto simp: set_get_empty_positions)
    let ?b2 = "set_cell ?b1 (fst p) (snd p) O3"
    have mm: "click_hr g row col r = make_move_hr (?g1\<lparr>hboard := ?b1, search_space_counter := c'\<rparr>) (fst p) (snd p) r"
      using True X False cm by (simp add: click_hr_def make_move_hr_human)
    have wf2: "wf3 ?b2" and cells2: "list_all (list_all (\<lambda>c. c = EMPTY \<or> c = X3 \<or> c = O3)) ?b2"
    proof -
      show "wf3 ?b2" using wf1 by simp
      have "fst p < length ?b1" using wf1 pe by (simp add: wf3_def)
      then show "list_all (list_all (\<lambda>c. c = EMPTY \<or> c = X3 \<or> c = O3)) ?b2"
        using cells_set_cell[OF cells1] by simp
    qed
    have cnt2: "count_list (concat ?b2) X3 = count_list (concat ?b2) O3"
      using cnt True wf wf1 rc pe by (simp add: count_set_cell)
    have nx: "\<not> check_winner ?b2 X3"
      using False check_winner_set_cell_other[OF wf1 pe(1,2), of O3 X3] by auto
    show ?thesis
      unfolding mm using pe wf2 cells2 cnt2 nx True
      by (auto simp: make_move_hr_computer Let_def end_game_def hr_inv_def)
  qed
qed

lemma restart_game_inv: "wf3 (hboard g) \<Longrightarrow> hr_inv (restart_game g)"
  by (simp add: hr_inv_def restart_game_def restart_board) (simp add: wf3_def check_winner_def upt_rec list_all_iff)

lemma hr_step_inv:
  "hr_inv g \<Longrightarrow> valid_event ev \<Longrightarrow> \<exists>g'. hr_step g ev r = Inr g' \<and> hr_inv g'"
proof (cases ev)
  case (Button row col)
  then show "hr_inv g \<Longrightarrow> valid_event ev \<Longrightarrow> ?thesis" by (simp add: hr_step_def valid_event_def click_hr_inv)
next
  case Key_r
  have "hr_inv g \<Longrightarrow> wf3 (hboard g)" by (simp add: hr_inv_def)
  with Key_r show "hr_inv g \<Longrightarrow> valid_event ev \<Longrightarrow> ?thesis" by (simp add: hr_step_def restart_game_inv)
qed

lemma new_hr_gui_inv: "hr_inv new_hr_gui"
  by (simp add: hr_inv_def new_hr_gui_def wf3_def check_winner_def upt_rec list_all_iff)


section \<open>Properties\<close>

text \<open>C28: with the ten units of fuel of \<open>computer_move\<close>, \<open>find_best_move\<close>
  returns on every board of three rows of three, for a player other than
  \<open>' '\<close>, gives the board back with every trial mark undone, and returns a square
  exactly when the board is not full, that square open.\<close>

theorem find_best_move_hr_returns:
  "wf3 b \<Longrightarrow> player \<noteq> EMPTY \<Longrightarrow>
   \<exists>m c'. find_best_move_hr 10 b player c = Some ((m, b), c') \<and>
     (case m of None \<Rightarrow> check_draw b | Some (i, j) \<Rightarrow> i < 3 \<and> j < 3 \<and> b ! i ! j = EMPTY)"
  using find_best_move_hr_total[of b player 10 c] length_get_empty_positions[of b]
  by (fastforce simp: check_draw_iff set_get_empty_positions split: option.splits)

theorem find_best_move_hr_returns_witness:
  "wf3 [''X  '', '' O '', ''  X''] \<and> O3 \<noteq> EMPTY \<and>
   (\<exists>m c'. find_best_move_hr 10 [''X  '', '' O '', ''  X''] O3 0 = Some ((m, [''X  '', '' O '', ''  X'']), c') \<and>
     (case m of None \<Rightarrow> check_draw [''X  '', '' O '', ''  X'']
      | Some (i, j) \<Rightarrow> i < 3 \<and> j < 3 \<and> [''X  '', '' O '', ''  X''] ! i ! j = EMPTY))"
proof -
  have wf: "wf3 [''X  '', '' O '', ''  X'']" by (simp add: wf3_def)
  have ne: "O3 \<noteq> EMPTY" by simp
  show ?thesis using conjI[OF wf conjI[OF ne find_best_move_hr_returns[OF wf ne]]] .
qed

text \<open>C29: on a board of three rows of three, a click on a square of the grid never
  raises: \<open>find_best_move\<close> never returns \<open>None\<close> to \<open>row, col = ...\<close>,
  because \<open>make_move\<close> hands over to the computer only when the board is not full,
  and the search never runs out of fuel; the board keeps its shape.\<close>

theorem make_move_hr_never_raises:
  assumes wf: "wf3 (hboard g)" and rc: "row < 3" "col < 3"
  shows "\<exists>g'. make_move_hr g row col r = Inr g' \<and> wf3 (hboard g')"
proof (cases "hboard g ! row ! col = EMPTY \<and> hcurrent g \<noteq> O3 \<and>
              \<not> check_winner (set_cell (hboard g) row col (hcurrent g)) (hcurrent g) \<and>
              \<not> check_draw (set_cell (hboard g) row col (hcurrent g))")
  case False
  then show ?thesis using wf
    by (auto simp: make_move_hr.simps(1)[of g row col r] Let_def end_game_def)
next
  case True
  let ?g1 = "g\<lparr>hboard := set_cell (hboard g) row col (hcurrent g), hcurrent := O3\<rparr>"
  have wf1: "wf3 (hboard ?g1)" using wf by simp
  have mm: "make_move_hr g row col r = computer_move_hr ?g1 r"
    using True by (simp add: make_move_hr_human)
  show ?thesis
  proof (cases "list_all (\<lambda>i. list_all (\<lambda>j. hboard ?g1 ! i ! j = EMPTY) [0..<3]) [0..<3]")
    case True
    then show ?thesis unfolding mm using make_move_hr_O[of ?g1] wf1
      by (simp add: computer_move_hr.simps[of ?g1 r])
  next
    case False
    have hc: "hcurrent ?g1 = O3" by simp
    have nd: "\<not> check_draw (hboard ?g1)" using True by simp
    obtain p c' where "computer_move_hr ?g1 r =
        make_move_hr (?g1\<lparr>hboard := hboard ?g1, search_space_counter := c'\<rparr>) (fst p) (snd p) r"
      using computer_move_hr_reply[OF wf1 hc nd False, of r] by blast
    then show ?thesis unfolding mm
      using make_move_hr_O[of "?g1\<lparr>hboard := hboard ?g1, search_space_counter := c'\<rparr>" "fst p" "snd p" r] wf1
      by simp
  qed
qed

theorem make_move_hr_never_raises_witness:
  "wf3 (hboard new_hr_gui) \<and> (1::nat) < 3 \<and>
   (\<exists>g'. make_move_hr new_hr_gui 1 1 0 = Inr g' \<and> wf3 (hboard g'))"
proof -
  have wf: "wf3 (hboard new_hr_gui)" by (simp add: new_hr_gui_def wf3_def list_all_iff)
  show ?thesis using make_move_hr_never_raises[OF wf, of 1 1 0] wf by simp
qed

text \<open>C30: in every state the window can reach from its start by clicks on the
  grid and the key \<open>'r'\<close>, the board is three rows of three cells of \<open>' '\<close>,
  \<open>'X'\<close>, \<open>'O'\<close>, and while the buttons are enabled the human is to move, the
  marks are even and nobody has a line; no step on the way raises.\<close>

theorem hr_reachable_inv: "hr_reachable g \<Longrightarrow> hr_inv g"
proof (induction rule: hr_reachable.induct)
  case init
  then show ?case by (rule new_hr_gui_inv)
next
  case (step g ev r g')
  then show ?case using hr_step_inv[of g ev r] by auto
qed

theorem hr_reachable_inv_witness:
  "hr_reachable (restart_game new_hr_gui) \<and> hr_inv (restart_game new_hr_gui)"
proof -
  have "hr_reachable (restart_game new_hr_gui)"
    by (rule hr_reachable.step[OF hr_reachable.init, of Key_r 0]) (simp_all add: valid_event_def hr_step_def)
  then show ?thesis using hr_reachable_inv by blast
qed

text \<open>C31: \<open>find_best_move\<close> calls \<open>minimax\<close> with depth 2, but \<open>minimax\<close> never
  reads \<open>depth\<close>: its result, counter included, is the same for every depth, so
  the search always runs to the end of the game.\<close>

theorem minimax_hr_ignores_depth:
  "minimax_hr fuel b d1 mp al be player c = minimax_hr fuel b d2 mp al be player c"
  using minimax_hr_depth_zero[of fuel b d1] minimax_hr_depth_zero[of fuel b d2] by simp

end
