(* ===== verification/BFSGui.thy ===== *)
theory BFSGui
  imports Grid3
begin

text \<open>
  The window of \<open>src/AI/BF_Search.py\<close> (class \<open>TicTacToeGUI\<close>): the state
  of a game, the statistics kept across games (\<open>search_space_Sum\<close>,
  \<open>game_count\<close>), the handler \<open>make_move\<close> and \<open>computer_move\<close>, which call
  each other, and the key \<open>'r'\<close>. The computer's move is \<open>bfs_move\<close> of theory
  \<open>BFS\<close> on the open squares shuffled by \<open>random.shuffle\<close>, modelled as
  CPython's Fisher-Yates loop with the random numbers as input. As in theory
  \<open>HeurReduction\<close>, the buttons' enabled state is the flag \<open>bactive\<close>; the
  process memory and time measurements are not modelled.
\<close>

section \<open>Data and operations\<close>

text \<open>\<open>random.shuffle(x)\<close>: for \<open>i\<close> from \<open>len(x) - 1\<close> down to 1, swap
  \<open>x[i]\<close> with \<open>x[j]\<close> for \<open>j = randbelow(i + 1)\<close>; \<open>j\<close> is the next random
  number taken modulo \<open>i + 1\<close>.\<close>

definition shuffle_py :: "nat list \<Rightarrow> 'a list \<Rightarrow> 'a list" where
  "shuffle_py rs xs =
     fold (\<lambda>(i, r) x. x[i := x ! (r mod Suc i), r mod Suc i := x ! i]) (zip (rev [1..<length xs]) rs) xs"

record bfs_gui =
  bboard :: grid3
  bcurrent :: char
  bcounter :: nat
  search_space_Sum :: nat
  game_count :: nat
  bactive :: bool

definition new_bfs_gui :: bfs_gui where
  "new_bfs_gui = \<lparr>bboard = replicate 3 (replicate 3 EMPTY), bcurrent = X3, bcounter = 0,
                  search_space_Sum = 0, game_count = 0, bactive = True\<rparr>"

text \<open>\<open>reset_game\<close> only disables the buttons.\<close>

definition reset_game_bfs :: "bfs_gui \<Rightarrow> bfs_gui" where
  "reset_game_bfs g = g\<lparr>bactive := False\<rparr>"

text \<open>The end of a game, won or drawn: the counter of the game is added to the sum,
  the games are counted, and the counter starts again from 0.\<close>

definition record_game :: "bfs_gui \<Rightarrow> bfs_gui" where
  "record_game g = g\<lparr>search_space_Sum := search_space_Sum g + bcounter g, game_count := Suc (game_count g), bcounter := 0\<rparr>"

definition show_winner_message_bfs :: "bfs_gui \<Rightarrow> bfs_gui" where
  "show_winner_message_bfs g = record_game (reset_game_bfs g)"

text \<open>\<open>restart_game\<close> clears the board and gives the move to \<open>'X'\<close>; it does not
  reset \<open>search_space_counter\<close>.\<close>

definition restart_game_bfs :: "bfs_gui \<Rightarrow> bfs_gui" where
  "restart_game_bfs g =
     g\<lparr>bboard := fold (\<lambda>(i, j) b. set_cell b i j EMPTY) [(i, j). i \<leftarrow> [0..<3], j \<leftarrow> [0..<3]] (bboard g),
       bcurrent := X3, bactive := True\<rparr>"

definition corners_bfs :: "(nat \<times> nat) list" where
  "corners_bfs = [(0, 0), (0, 2), (2, 0), (2, 2)]"

datatype bfs_error = Bfs_unpack_none

text \<open>The handler: \<open>rs\<close> are the random numbers of \<open>random.shuffle\<close> and \<open>r\<close>
  the index of the corner \<open>random.choice\<close> draws. \<open>row, col = bfs_move(...)\<close>
  raises \<open>TypeError\<close> when \<open>bfs_move\<close> returns \<open>None\<close>.\<close>

function make_move_bfs :: "bfs_gui \<Rightarrow> nat \<Rightarrow> nat \<Rightarrow> nat list \<Rightarrow> nat \<Rightarrow> bfs_error + bfs_gui"
  and computer_move_bfs :: "bfs_gui \<Rightarrow> nat list \<Rightarrow> nat \<Rightarrow> bfs_error + bfs_gui" where
  "make_move_bfs g row col rs r =
     (if bboard g ! row ! col = EMPTY then
        let g = g\<lparr>bboard := set_cell (bboard g) row col (bcurrent g)\<rparr>
        in if check_winner (bboard g) (bcurrent g) then Inr (show_winner_message_bfs g)
           else if check_draw (bboard g) then Inr (reset_game_bfs (record_game g))
           else
             let g = g\<lparr>bcurrent := (if bcurrent g = O3 then X3 else O3)\<rparr>
             in if bcurrent g = O3 then computer_move_bfs g rs r else Inr g
      else Inr g)"
| "computer_move_bfs g rs r =
     (if list_all (\<lambda>i. list_all (\<lambda>j. bboard g ! i ! j = EMPTY) [0..<3]) [0..<3] then
        make_move_bfs g (fst (corners_bfs ! r)) (snd (corners_bfs ! r)) rs r
      else
        (case bfs_move (bboard g) (bcurrent g) (bcounter g) (shuffle_py rs (get_empty_positions (bboard g))) of
           (None, b, c) \<Rightarrow> Inl Bfs_unpack_none
         | (Some (row, col), b, c) \<Rightarrow> make_move_bfs (g\<lparr>bboard := b, bcounter := c\<rparr>) row col rs r))"
  by pat_completeness auto
termination
  by (relation "measure (case_sum (\<lambda>(g, _). if bcurrent g = O3 then 0 else 2)
                                  (\<lambda>(g, _). if bcurrent g = O3 then 1 else 3))") auto

declare make_move_bfs.simps [simp del] computer_move_bfs.simps [simp del]

text \<open>A click on an enabled button, and the key \<open>'r'\<close>.\<close>

definition click_bfs :: "bfs_gui \<Rightarrow> nat \<Rightarrow> nat \<Rightarrow> nat list \<Rightarrow> nat \<Rightarrow> bfs_error + bfs_gui" where
  "click_bfs g row col rs r = (if bactive g then make_move_bfs g row col rs r else Inr g)"

datatype bfs_event = BClick nat nat | BKey_r

definition valid_bfs_event :: "bfs_event \<Rightarrow> bool" where
  "valid_bfs_event ev = (case ev of BClick row col \<Rightarrow> row < 3 \<and> col < 3 | BKey_r \<Rightarrow> True)"

definition bfs_step :: "bfs_gui \<Rightarrow> bfs_event \<Rightarrow> nat list \<Rightarrow> nat \<Rightarrow> bfs_error + bfs_gui" where
  "bfs_step g ev rs r = (case ev of BClick row col \<Rightarrow> click_bfs g row col rs r | BKey_r \<Rightarrow> Inr (restart_game_bfs g))"

inductive bfs_reachable :: "bfs_gui \<Rightarrow> bool" where
  init: "bfs_reachable new_bfs_gui"
| step: "bfs_reachable g \<Longrightarrow> valid_bfs_event ev \<Longrightarrow> bfs_step g ev rs r = Inr g' \<Longrightarrow> bfs_reachable g'"

text \<open>The invariant of the window, as for \<open>heuristic reduction.py\<close>.\<close>

definition bfs_inv :: "bfs_gui \<Rightarrow> bool" where
  "bfs_inv g \<longleftrightarrow> wf3 (bboard g) \<and> list_all (list_all (\<lambda>c. c = EMPTY \<or> c = X3 \<or> c = O3)) (bboard g) \<and>
     (bactive g \<longrightarrow> bcurrent g = X3 \<and>
        count_list (concat (bboard g)) X3 = count_list (concat (bboard g)) O3 \<and>
        \<not> check_winner (bboard g) X3 \<and> \<not> check_winner (bboard g) O3)"


section \<open>Lemmas\<close>

lemma fold_swap_set:
  "\<forall>(i, r) \<in> set ps. i < length xs \<Longrightarrow>
   set (fold (\<lambda>(i, r) x. x[i := x ! (r mod Suc i), r mod Suc i := x ! i]) ps xs) = set xs \<and>
   length (fold (\<lambda>(i, r) x. x[i := x ! (r mod Suc i), r mod Suc i := x ! i]) ps xs) = length xs"
proof (induction ps arbitrary: xs)
  case (Cons p ps)
  obtain i r where p: "p = (i, r)" by (cases p)
  have i: "i < length xs" using Cons.prems p by simp
  have "r mod Suc i < Suc i" by simp
  then have j: "r mod Suc i < length xs" using i by linarith
  let ?x = "xs[i := xs ! (r mod Suc i), r mod Suc i := xs ! i]"
  have len: "length ?x = length xs" by simp
  have st: "set ?x = set xs" using set_swap[OF i j] .
  have "\<forall>(i, r) \<in> set ps. i < length ?x" using Cons.prems len by simp
  from Cons.IH[OF this] show ?case by (simp only: p fold_Cons comp_apply prod.case len st)
qed simp

text \<open>\<open>random.shuffle\<close> permutes: the shuffled list has the same elements.\<close>

lemma set_shuffle_py: "set (shuffle_py rs xs) = set xs"
proof -
  have "\<forall>(i, r) \<in> set (zip (rev [1..<length xs]) rs). i < length xs"
  proof (clarify)
    fix i r assume "(i, r) \<in> set (zip (rev [1..<length xs]) rs)"
    then have "i \<in> set (rev [1..<length xs])" by (rule set_zip_leftD)
    then show "i < length xs" by simp
  qed
  then show ?thesis unfolding shuffle_py_def by (rule conjunct1[OF fold_swap_set])
qed

lemma rule_move_mem:
  assumes "sh \<noteq> []"
  shows "\<exists>p. rule_move b player sh = Some p \<and> p \<in> set sh"
proof (cases "find (wins_at b player) sh")
  case (Some x)
  then show ?thesis using find_Some_mem[OF Some] by (simp add: rule_move_def)
next
  case None
  show ?thesis
  proof (cases "find (wins_at b (opponent_of player)) sh")
    case (Some y)
    then show ?thesis using None find_Some_mem[OF Some] by (simp add: rule_move_def)
  next
    case None2: None
    let ?h = "heur_at b player"
    have "Max (?h ` set sh) \<in> ?h ` set sh" using assms by (intro Max_in) auto
    then obtain x where x: "x \<in> set sh" "?h x = Max (?h ` set sh)" by auto
    obtain y where y: "find (\<lambda>x. ?h x = Max (?h ` set sh)) sh = Some y"
      using find_exists[OF x(1), of "\<lambda>x. ?h x = Max (?h ` set sh)"] x(2) by blast
    then show ?thesis using None None2 find_Some_mem[OF y] by (simp add: rule_move_def)
  qed
qed

text \<open>On a board that is not full, \<open>bfs_move\<close> on the shuffled open squares
  returns an open square and restores the board.\<close>

lemma bfs_move_reply:
  assumes "wf3 b" "\<not> check_draw b"
  shows "\<exists>p c'. bfs_move b player c (shuffle_py rs (get_empty_positions b)) = (Some p, b, c') \<and>
                p \<in> set (get_empty_positions b)"
proof -
  let ?sh = "shuffle_py rs (get_empty_positions b)"
  have sh: "set ?sh = set (get_empty_positions b)" by (rule set_shuffle_py)
  then have ne: "?sh \<noteq> []" using assms(2) by (auto simp: check_draw_iff)
  obtain p where "rule_move b player ?sh = Some p" "p \<in> set ?sh" using rule_move_mem[OF ne] by blast
  moreover have "fst (bfs_move b player c ?sh) = rule_move b player ?sh \<and> fst (snd (bfs_move b player c ?sh)) = b"
    using bfs_move_rule[OF assms(1), of ?sh player c] sh by simp
  ultimately have "bfs_move b player c ?sh = (Some p, b, snd (snd (bfs_move b player c ?sh)))"
    by (simp add: prod_eq_iff)
  then show ?thesis using \<open>p \<in> set ?sh\<close> sh by blast
qed

lemma make_move_bfs_O:
  assumes "bcurrent g = O3"
  shows "\<exists>g'. make_move_bfs g row col rs r = Inr g' \<and> (wf3 (bboard g) \<longrightarrow> wf3 (bboard g'))"
  using assms
  by (simp add: make_move_bfs.simps(1)[of g row col rs r] Let_def show_winner_message_bfs_def
      reset_game_bfs_def record_game_def)

lemma computer_move_bfs_reply:
  assumes "wf3 (bboard g)" "\<not> check_draw (bboard g)"
    and "\<not> list_all (\<lambda>i. list_all (\<lambda>j. bboard g ! i ! j = EMPTY) [0..<3]) [0..<3]"
  shows "\<exists>p c'. p \<in> set (get_empty_positions (bboard g)) \<and>
           computer_move_bfs g rs r = make_move_bfs (g\<lparr>bboard := bboard g, bcounter := c'\<rparr>) (fst p) (snd p) rs r"
proof -
  obtain p c' where bm: "bfs_move (bboard g) (bcurrent g) (bcounter g) (shuffle_py rs (get_empty_positions (bboard g)))
      = (Some p, bboard g, c')" and p: "p \<in> set (get_empty_positions (bboard g))"
    using bfs_move_reply[OF assms(1,2)] by blast
  show ?thesis
    using bm p assms(3) by (auto simp: computer_move_bfs.simps[of g rs r] split: prod.splits)
qed

lemma make_move_bfs_human:
  assumes "bboard g ! row ! col = EMPTY" "bcurrent g \<noteq> O3"
    and "\<not> check_winner (set_cell (bboard g) row col (bcurrent g)) (bcurrent g)"
    and "\<not> check_draw (set_cell (bboard g) row col (bcurrent g))"
  shows "make_move_bfs g row col rs r =
           computer_move_bfs (g\<lparr>bboard := set_cell (bboard g) row col (bcurrent g), bcurrent := O3\<rparr>) rs r"
  using assms by (simp add: make_move_bfs.simps(1)[of g row col rs r] Let_def)

lemma make_move_bfs_computer:
  assumes "bcurrent g = O3" "bboard g ! row ! col = EMPTY"
  shows "make_move_bfs g row col rs r =
           (let b = set_cell (bboard g) row col O3
            in if check_winner b O3 then Inr (show_winner_message_bfs (g\<lparr>bboard := b\<rparr>))
               else if check_draw b then Inr (reset_game_bfs (record_game (g\<lparr>bboard := b\<rparr>)))
               else Inr (g\<lparr>bboard := b, bcurrent := X3\<rparr>))"
  using assms by (simp add: make_move_bfs.simps(1)[of g row col rs r] Let_def)

lemma click_bfs_inv:
  assumes inv: "bfs_inv g" and rc: "row < 3" "col < 3"
  shows "\<exists>g'. click_bfs g row col rs r = Inr g' \<and> bfs_inv g'"
proof (cases "bactive g \<and> bboard g ! row ! col = EMPTY")
  case False
  then show ?thesis using inv by (auto simp: click_bfs_def make_move_bfs.simps(1)[of g row col rs r])
next
  case True
  let ?b = "bboard g"
  let ?b1 = "set_cell ?b row col X3"
  have wf: "wf3 ?b" and cells: "list_all (list_all (\<lambda>c. c = EMPTY \<or> c = X3 \<or> c = O3)) ?b"
    and X: "bcurrent g = X3" and cnt: "count_list (concat ?b) X3 = count_list (concat ?b) O3"
    using inv True by (auto simp: bfs_inv_def)
  have len: "row < length ?b" using wf rc by (simp add: wf3_def)
  have wf1: "wf3 ?b1" and cells1: "list_all (list_all (\<lambda>c. c = EMPTY \<or> c = X3 \<or> c = O3)) ?b1"
    using wf cells_set_cell[OF cells len] by auto
  show ?thesis
  proof (cases "check_winner ?b1 X3 \<or> check_draw ?b1")
    case True
    then show ?thesis using \<open>bactive g \<and> ?b ! row ! col = EMPTY\<close> X wf1 cells1
      by (auto simp: click_bfs_def make_move_bfs.simps(1)[of g row col rs r] Let_def bfs_inv_def
          show_winner_message_bfs_def reset_game_bfs_def record_game_def)
  next
    case False
    let ?g1 = "g\<lparr>bboard := ?b1, bcurrent := O3\<rparr>"
    obtain p c' where p: "p \<in> set (get_empty_positions ?b1)"
      and cm: "computer_move_bfs ?g1 rs r = make_move_bfs (?g1\<lparr>bboard := ?b1, bcounter := c'\<rparr>) (fst p) (snd p) rs r"
      using computer_move_bfs_reply[of ?g1 rs r] wf1 False empty_board_not_all_empty[OF wf rc] by auto
    have pe: "fst p < 3" "snd p < 3" "?b1 ! fst p ! snd p = EMPTY"
      using p by (auto simp: set_get_empty_positions)
    let ?b2 = "set_cell ?b1 (fst p) (snd p) O3"
    have mm: "click_bfs g row col rs r = make_move_bfs (?g1\<lparr>bboard := ?b1, bcounter := c'\<rparr>) (fst p) (snd p) rs r"
      using True X False cm by (simp add: click_bfs_def make_move_bfs_human)
    have wf2: "wf3 ?b2" and cells2: "list_all (list_all (\<lambda>c. c = EMPTY \<or> c = X3 \<or> c = O3)) ?b2"
    proof -
      show "wf3 ?b2" using wf1 by simp
      have "fst p < length ?b1" using wf1 pe by (simp add: wf3_def)
      then show "list_all (list_all (\<lambda>c. c = EMPTY \<or> c = X3 \<or> c = O3)) ?b2"
        using cells_set_cell[OF cells1] by simp
    qed
    have cnt2: "count_list (concat ?b2) X3 = count_list (concat ?b2) O3"
      using cnt True wf wf1 rc pe by (simp add: count_set_cell)
    have nx: "\<not> check_winner ?b2 X3"
      using False check_winner_set_cell_other[OF wf1 pe(1,2), of O3 X3] by auto
    show ?thesis
      unfolding mm using pe wf2 cells2 cnt2 nx True
      by (auto simp: make_move_bfs_computer Let_def bfs_inv_def show_winner_message_bfs_def
          reset_game_bfs_def record_game_def)
  qed
qed

lemma restart_game_bfs_inv: "wf3 (bboard g) \<Longrightarrow> bfs_inv (restart_game_bfs g)"
  by (simp add: bfs_inv_def restart_game_bfs_def restart_board) (simp add: wf3_def check_winner_def upt_rec list_all_iff)

lemma bfs_step_inv:
  "bfs_inv g \<Longrightarrow> valid_bfs_event ev \<Longrightarrow> \<exists>g'. bfs_step g ev rs r = Inr g' \<and> bfs_inv g'"
proof (cases ev)
  case (BClick row col)
  then show "bfs_inv g \<Longrightarrow> valid_bfs_event ev \<Longrightarrow> ?thesis"
    by (simp add: bfs_step_def valid_bfs_event_def click_bfs_inv)
next
  case BKey_r
  have "bfs_inv g \<Longrightarrow> wf3 (bboard g)" by (simp add: bfs_inv_def)
  with BKey_r show "bfs_inv g \<Longrightarrow> valid_bfs_event ev \<Longrightarrow> ?thesis" by (simp add: bfs_step_def restart_game_bfs_inv)
qed

lemma new_bfs_gui_inv: "bfs_inv new_bfs_gui"
  by (simp add: bfs_inv_def new_bfs_gui_def wf3_def check_winner_def upt_rec list_all_iff)

lemma bfs_reachable_inv: "bfs_reachable g \<Longrightarrow> bfs_inv g"
proof (induction rule: bfs_reachable.induct)
  case init
  then show ?case by (rule new_bfs_gui_inv)
next
  case (step g ev rs r g')
  then show ?case using bfs_step_inv[of g ev rs r] by auto
qed

lemma bfs_reachable_restart:
  "bfs_reachable (restart_game_bfs new_bfs_gui)"
  by (rule bfs_reachable.step[OF bfs_reachable.init, of BKey_r "[]" 0]) (simp_all add: valid_bfs_event_def bfs_step_def)


section \<open>Properties\<close>

text \<open>C32: on a board of three rows of three, a click on a square of the grid never
  raises: \<open>computer_move\<close> is only reached when the board is not full, and then
  \<open>bfs_move\<close> on the shuffled open squares always returns a square, so
  \<open>row, col = bfs_move(...)\<close> never unpacks \<open>None\<close>; the board keeps its
  shape.\<close>

theorem make_move_bfs_never_raises:
  assumes wf: "wf3 (bboard g)" and rc: "row < 3" "col < 3"
  shows "\<exists>g'. make_move_bfs g row col rs r = Inr g' \<and> wf3 (bboard g')"
proof (cases "bboard g ! row ! col = EMPTY \<and> bcurrent g \<noteq> O3 \<and>
              \<not> check_winner (set_cell (bboard g) row col (bcurrent g)) (bcurrent g) \<and>
              \<not> check_draw (set_cell (bboard g) row col (bcurrent g))")
  case False
  then show ?thesis using wf
    by (auto simp: make_move_bfs.simps(1)[of g row col rs r] Let_def show_winner_message_bfs_def
        reset_game_bfs_def record_game_def)
next
  case True
  let ?g1 = "g\<lparr>bboard := set_cell (bboard g) row col (bcurrent g), bcurrent := O3\<rparr>"
  have wf1: "wf3 (bboard ?g1)" using wf by simp
  have mm: "make_move_bfs g row col rs r = computer_move_bfs ?g1 rs r"
    using True by (simp add: make_move_bfs_human)
  show ?thesis
  proof (cases "list_all (\<lambda>i. list_all (\<lambda>j. bboard ?g1 ! i ! j = EMPTY) [0..<3]) [0..<3]")
    case True
    then show ?thesis unfolding mm using make_move_bfs_O[of ?g1] wf1
      by (simp add: computer_move_bfs.simps[of ?g1 rs r])
  next
    case False
    have nd: "\<not> check_draw (bboard ?g1)" using True by simp
    obtain p c' where "computer_move_bfs ?g1 rs r =
        make_move_bfs (?g1\<lparr>bboard := bboard ?g1, bcounter := c'\<rparr>) (fst p) (snd p) rs r"
      using computer_move_bfs_reply[OF wf1 nd False, of rs r] by blast
    then show ?thesis unfolding mm
      using make_move_bfs_O[of "?g1\<lparr>bboard := bboard ?g1, bcounter := c'\<rparr>" "fst p" "snd p" rs r] wf1
      by simp
  qed
qed

theorem make_move_bfs_never_raises_witness:
  "wf3 (bboard new_bfs_gui) \<and> (1::nat) < 3 \<and>
   (\<exists>g'. make_move_bfs new_bfs_gui 1 1 [3, 1] 0 = Inr g' \<and> wf3 (bboard g'))"
proof -
  have wf: "wf3 (bboard new_bfs_gui)" by (simp add: new_bfs_gui_def wf3_def list_all_iff)
  show ?thesis using make_move_bfs_never_raises[OF wf, of 1 1 "[3, 1]" 0] wf by simp
qed

text \<open>C34: in every reachable state whose buttons are enabled, the human
  (\<open>'X'\<close>) is to move, there are as many \<open>'X'\<close> as \<open>'O'\<close>, and nobody has a
  line: the computer always answers within the same click, and a finished game
  disables the buttons.\<close>

theorem bfs_reachable_human_to_move:
  "bfs_reachable g \<Longrightarrow> bactive g \<Longrightarrow>
   bcurrent g = X3 \<and> count_list (concat (bboard g)) X3 = count_list (concat (bboard g)) O3 \<and>
   \<not> check_winner (bboard g) X3 \<and> \<not> check_winner (bboard g) O3"
  using bfs_reachable_inv by (simp add: bfs_inv_def)

theorem bfs_reachable_human_to_move_witness:
  "bfs_reachable (restart_game_bfs new_bfs_gui) \<and> bactive (restart_game_bfs new_bfs_gui) \<and>
   bcurrent (restart_game_bfs new_bfs_gui) = X3 \<and>
   count_list (concat (bboard (restart_game_bfs new_bfs_gui))) X3 = count_list (concat (bboard (restart_game_bfs new_bfs_gui))) O3 \<and>
   \<not> check_winner (bboard (restart_game_bfs new_bfs_gui)) X3 \<and> \<not> check_winner (bboard (restart_game_bfs new_bfs_gui)) O3"
proof -
  have "bactive (restart_game_bfs new_bfs_gui)" by (simp add: restart_game_bfs_def)
  then show ?thesis using bfs_reachable_restart bfs_reachable_human_to_move[OF bfs_reachable_restart] by blast
qed

end
