(* ===== verification/Spec2Isabelle.thy ===== *)
theory Spec2Isabelle
  imports Rounds DGame ABBoard BFS WinMoves HeurReduction BFSGui
begin

text \<open>
  \<^bold>\<open>A verification library for the tic-tac-toe programs of \<open>src/AI\<close>.\<close>

  \<^bold>\<open>The program.\<close> The repository holds several stand-alone tic-tac-toe games
  that share no code but repeat one design: a board, a computer player that picks
  a move by game-tree search, and a GUI event loop (pygame or tkinter) that
  alternates a human move and a computer move. Each program is one theory here,
  and each theory keeps the source's names.
  \<^item> \<open>src/AI/tictactoe.py\<close>, class \<open>Board\<close> (repeated verbatim in
    \<open>src/AI/Alpha_beta.py\<close>): theory \<open>Board\<close>. The numpy array is a function
    from positions to \<open>player option\<close> (0 is \<open>None\<close>) with the counter
    \<open>marked_sqrs\<close>; \<open>final_state\<close>, \<open>mark_sqr\<close>, \<open>empty_sqr\<close>,
    \<open>get_empty_sqrs\<close>, \<open>isfull\<close>, \<open>isempty\<close> are definitions, the loops of
    \<open>get_empty_sqrs\<close> the row-major list \<open>grid\<close>, filtered. Theory
    \<open>ABBoard\<close> translates the copy in \<open>Alpha_beta.py\<close> (and its \<open>AI.rnd\<close>)
    from its own lines and proves every method equal to \<open>Board\<close>'s, which is
    why the alpha-beta theories use \<open>Board\<close>'s definitions.
  \<^item> \<open>src/AI/tictactoe.py\<close>, class \<open>AI\<close>: theory \<open>Minimax\<close>. \<open>minimax\<close> is one
    recursive function whose \<open>for\<close> loops are \<open>fold\<close>s, the counter
    \<open>nodes_expanded\<close> an argument and a result; the board is passed by value as
    \<open>copy.deepcopy\<close> makes it, so the number of open squares is a measure and
    no fuel is needed. The random level takes the random number as an input.
  \<^item> \<open>src/AI/Alpha_beta.py\<close>, class \<open>AI\<close>: theory \<open>AlphaBeta\<close>. The loops with
    \<open>break\<close> are the combinator \<open>for_break\<close>; \<open>\<plusminus>inf\<close> bounds are \<open>xint\<close>.
  \<^item> \<open>src/AI/tictactoe.py\<close>, class \<open>Game\<close> and \<open>main\<close>: theory \<open>Game\<close>. The
    state is the record \<open>game\<close>; one pass of the \<open>while not game.isover()\<close> loop is
    \<open>loop_iteration\<close> (the event batch \<open>handle_events\<close>, then \<open>ai_turn\<close>), and
    the states of a round are the inductive set \<open>reachable\<close>.
  \<^item> \<open>src/AI/Alpha_beta.py\<close>, class \<open>Game\<close> and \<open>main\<close>: theory \<open>ABGame\<close>. The
    same structure with the alpha-beta \<open>AI\<close>: \<open>ab_loop_iteration\<close>, the states of
    a round \<open>ab_reachable\<close>.
  \<^item> \<open>main\<close> of \<open>tictactoe.py\<close> (two rounds) and of \<open>Alpha_beta.py\<close> (five):
    theory \<open>Rounds\<close>. The two are one loop, \<open>main_loop\<close>, over the record
    \<open>loop_ops\<close> of what \<open>main\<close> uses of a game (new game, \<open>isover\<close>, one
    iteration, the AI counter, \<open>final_state\<close>), instantiated as \<open>tt_ops\<close> and
    \<open>ab_ops\<close>. The events are one stream of iterations that the rounds
    consume in turn (\<open>run_round\<close>); the result is the node total and the
    printed winner lines, or the point where the program waits, exits or raises.
  \<^item> \<open>src/AI/distance_improve.py\<close>, class \<open>Game\<close> and \<open>main\<close>: theory
    \<open>DGame\<close>. The \<open>while True\<close> loop without game mode, keys or restart, with
    clicks mapped by \<open>SQSIZE = WIDTH // 3\<close> onto the 5 \<open>\<times>\<close> 5 board, and its
    states \<open>d_reachable\<close>. The file does not parse (a stray \<open>+\<close> at line 169
    of \<open>draw_fig\<close>); the model reads it without that character.
  \<^item> \<open>src/AI/distance_improve.py\<close>: theory \<open>Distance\<close>. The 5 \<open>\<times>\<close> 5 board
    with \<open>final_state_d\<close> over \<open>WINNING_LINES\<close> on the flattened array, and the
    alpha-beta search \<open>minimax_heuristic\<close> that adds a distance bonus
    (\<open>xplus\<close>) to each child's score after the recursive call.
  \<^item> \<open>src/AI/BF_Search.py\<close>: theory \<open>BFS\<close>. The rule player \<open>bfs_move\<close>
    (win, else block, else the best heuristic square of a shuffled list),
    whose trial loops mark and unmark one board; \<open>rule_move\<close> is its
    abstract specification. Theory \<open>BFSGui\<close>: the window of the same file, with
    \<open>make_move\<close>/\<open>computer_move\<close> (mutually recursive), the game statistics,
    \<open>restart_game\<close>, the states of \<open>root.mainloop()\<close> as \<open>bfs_reachable\<close>, and
    \<open>random.shuffle\<close> as CPython's Fisher-Yates loop over input random numbers.
  \<^item> \<open>src/AI/minimax by heuristic fun(winning moves).py\<close>: theory \<open>WinMoves\<close>.
    The flat board of nine characters, alpha-beta \<open>minimax\<close> (\<open>ab9\<close>) and
    \<open>get_ai_move\<close> (\<open>get_ai_move9\<close>) on the one shared board, threaded through
    the recursion and the loops so that restoring it is a theorem, and the
    button handler \<open>make_move\<close> (\<open>make_move9\<close>) on the record \<open>gui\<close>, whose
    states under \<open>run()\<close>'s main loop are the inductive set \<open>win_reachable\<close>.
  \<^item> \<open>src/AI/additional cose/heuristic reduction.py\<close>: theory \<open>HeurReduction\<close>.
    \<open>minimax\<close> (\<open>minimax_hr\<close>, the board and \<open>counter[0]\<close> threaded, fuel as in
    \<open>WinMoves\<close>) and \<open>find_best_move\<close>; the window's \<open>make_move\<close> and
    \<open>computer_move\<close> as mutually recursive functions (terminating because the
    computer's own move hands the turn back to \<open>'X'\<close>), the enabled state of
    the buttons as the flag \<open>active\<close>, the events \<open>hr_step\<close> and the states of
    \<open>root.mainloop()\<close> as the inductive set \<open>hr_reachable\<close>. Its board helpers
    repeat the lines of \<open>BF_Search.py\<close>; they are translated and proved equal to
    \<open>BFS\<close>'s.

  \<^bold>\<open>Shared library.\<close> Theory \<open>Prelude\<close>: the extended integers \<open>xint\<close>
  (Python's \<open>\<plusminus>float('inf')\<close> next to integer scores) with their \<open>linorder\<close>
  instance and \<open>xplus\<close>; \<open>for_break\<close> for \<open>for \<dots> break\<close> loops with its
  congruence rule and its invariant, counter and append lemmas; the argmax and
  argmin loops that keep the first best element; the fail-soft loop lemmas
  \<open>fs_max_loop\<close>/\<open>fs_min_loop\<close>, which lift a per-child fail-soft bound
  to the loop over the children of a node, whatever state the loop threads.
  Theory \<open>Grid3\<close>: lemmas on the board of three Python lists of three strings
  shared by \<open>BFSGui\<close> and \<open>HeurReduction\<close> (shape, open squares, mark counts,
  \<open>check_draw\<close> as the absence of open squares).

  \<^bold>\<open>Fuel.\<close> Only \<open>ab9\<close> and \<open>minimax_hr\<close> need fuel: their recursive calls
  are on the board the loop threads, which the function package cannot relate to
  the argument (and \<open>minimax\<close> of \<open>heuristic reduction.py\<close> recurses forever when
  called for the player \<open>' '\<close>). Fuel 0 is \<open>None\<close>; one unit more than the open
  squares always gives \<open>Some\<close> (\<open>ab9_total\<close>, \<open>minimax_hr_total\<close>), so the
  ten units the handlers pass (nine squares plus one) are never the reason a call
  returns.

  \<^bold>\<open>What is proved.\<close>
  \<^item> Board: \<open>final_state\<close> reports a player exactly when that player owns a
    line; marking an open square keeps the counter in step; marking an occupied
    one, which the code does not reject, breaks it.
  \<^item> Minimax: scores are outcomes, the move is the first best open square, the
    counter only accumulates across calls.
  \<^item> AlphaBeta: Fishburn's fail-soft correctness against \<open>minimax\<close>, the same
    move as \<open>minimax\<close> from the top call, and no more expanded nodes.
  \<^item> Game: every reachable state of a round keeps the board consistent; an
    iteration of the loop never raises; in AI mode the human is to move after
    each iteration.
  \<^item> ABGame: the same round invariant and no exception for \<open>Alpha_beta.py\<close>;
    levels 1 and 2 of its \<open>eval\<close> are the same alpha-beta search.
  \<^item> Rounds: from any invariant that every iteration keeps, and iterations that
    never raise, \<open>main_loop\<close> never raises and, when it gets through its
    rounds, the stream of iterations splits into the rounds actually played
    (\<open>rounds_played\<close>, an inductive relation that runs \<open>run_round\<close> on a
    new game once per round), each a finished state of the invariant, and the
    total and printed lines are those of exactly these games
    (\<open>main_loop_Main_done\<close>, \<open>main_loop_not_raise\<close>); instantiated with
    \<open>reachable\<close> and \<open>ab_reachable\<close> for both programs. A round of either
    program can always be finished by clicks, in at most as many iterations as
    there are open squares (\<open>run_round_finishes\<close> with the number of open
    squares as measure). Five
    rounds of \<open>Alpha_beta.py\<close> can be won by clicks alone, the human marking
    for the computer too.
  \<^item> Distance: \<open>eval\<close> returns an open square at every level on a game board
    that is not over; \<open>final_state_d\<close> reads only nine cells and
    \<open>isfull\<close> holds with sixteen squares open.
  \<^item> DGame: every reachable state keeps the invariant \<open>d_game_inv\<close> (counter,
    turns, at most nine marks, player 1's marks in the clickable corner); the
    human can only win along the top row; at least sixteen squares stay open;
    an iteration never raises; a finished game never changes again.
  \<^item> BFS: \<open>bfs_move\<close> refines \<open>rule_move\<close>, restores the board, takes a win,
    blocks, and counts its nodes.
  \<^item> WinMoves: minimax returns and restores the board with ten units of fuel;
    \<open>get_ai_move\<close> plays an open square; every state of the main loop keeps the
    handler's invariant \<open>gui_inv\<close>; \<open>make_move\<close>, having no draw handling,
    leaves the board full with the computer to move after the click that
    draws, and every later click is ignored; \<open>minimax\<close> gives the same
    result for every \<open>depth\<close>, which it passes on but never reads; the in-place
    \<open>has_winning_move\<close> equals its non-mutating reading.
    Against the exhaustive minimax \<open>mm9\<close> (a reference without pruning, a
    plain \<open>function\<close> terminating on the number of open squares), \<open>ab9\<close> meets
    Fishburn's fail-soft bound for every window, and \<open>get_ai_move\<close> plays the
    first open square of best exhaustive value: pruning never changes the move.
  \<^item> HeurReduction: \<open>find_best_move\<close> returns and restores the board; a click
    never raises the \<open>TypeError\<close> of unpacking \<open>None\<close>; every reachable state
    keeps the invariant \<open>hr_inv\<close> (by rule induction over \<open>hr_reachable\<close>);
    \<open>minimax\<close> ignores \<open>depth\<close>, so the search is not depth-limited.
  \<^item> BFSGui: a click never raises the \<open>TypeError\<close> of unpacking \<open>None\<close>; every
    reachable state keeps the invariant \<open>bfs_inv\<close> and, while the buttons
    are enabled, has the human to move with even marks and no line.

  \<^bold>\<open>Not modelled.\<close> Drawing (pygame, tkinter), button labels and message
  boxes, keyboard and mouse handling beyond the moves they trigger, time and
  memory measurement (\<open>time\<close>, \<open>psutil\<close>, \<open>time_profile_example\<close>), printing
  (\<open>print_board\<close>, the per-iteration prints of \<open>main\<close>), the block of
  commented-out code at the end of \<open>tictactoe.py\<close>, the first (overridden)
  \<open>Game.reset\<close> of \<open>tictactoe.py\<close>, and the launcher
  \<open>src/AI/main.py\<close>, which only starts the other scripts as subprocesses.
\<close>

end
